(* ===== verification/Prelude.thy ===== *)
theory Prelude
  imports Complex_Main "HOL-Library.AList" "HOL-Library.Monad_Syntax" "HOL-Library.Word"
    "HOL-Library.Multiset" "HOL-Library.Char_ord" "HOL-Library.List_Lexorder"
begin

text \<open>
  The vocabulary every component shares.

  \<^item> A Go \<open>map\<close> is an association list with distinct keys: the library's \<open>map_of\<close>,
    \<open>AList.update\<close> and \<open>AList.delete\<close> are its lookup, assignment and \<open>delete\<close>, the length of
    the list is \<open>len\<close>, and the list itself is the sequence a \<open>range\<close> loop visits. Go leaves
    that sequence unspecified; a theorem about every association list is a theorem about
    every such sequence.
  \<^item> A \<open>range\<close> loop with a callback that may stop it is \<open>go_range\<close>; a loop whose body may
    panic is \<open>ofold\<close>, where \<open>None\<close> is the panic.
  \<^item> \<open>time.Time\<close> is the number of nanoseconds since Go's zero time, so that \<open>IsZero\<close> is
    \<open>t = 0\<close>, \<open>Before\<close> is \<open><\<close> and \<open>After\<close> is \<open>>\<close>; \<open>time.Duration\<close> is a number of
    nanoseconds. The value \<open>time.Now()\<close> returns is an argument of the operation.
  \<^item> \<open>float64\<close> is \<open>real\<close>: arithmetic is exact and NaN has no counterpart. Where the code
    returns an infinity the model has a datatype for it.
  \<^item> Go's \<open>int\<close> and \<open>int64\<close> are \<open>int\<close>: the counters of the model stay far below \<open>2 ^ 63\<close>.
    \<open>uint64\<close> counters are \<open>64 word\<close>.
\<close>

section \<open>Collections of facts\<close>

named_theorems gomap_simps \<open>lookups, domains and lengths of updated Go maps\<close>
named_theorems loop_simps \<open>closed forms of the range loops\<close>

section \<open>Go maps\<close>

type_synonym ('k, 'v) gomap = "('k \<times> 'v) list"
type_synonym time = int
type_synonym duration = int

abbreviation gkeys :: "('k, 'v) gomap \<Rightarrow> 'k list" where
  "gkeys m \<equiv> map fst m"

abbreviation wf_gomap :: "('k, 'v) gomap \<Rightarrow> bool" where
  "wf_gomap m \<equiv> distinct (gkeys m)"

declare map_of_eq_Some_iff [simp del] Some_eq_map_of_iff [simp del] map_of_is_SomeI [simp del]

text \<open>Two Go maps are the same map when every lookup agrees: they may differ in range order.\<close>

definition gomap_eq :: "('k, 'v) gomap \<Rightarrow> ('k, 'v) gomap \<Rightarrow> bool" where
  "gomap_eq m m' \<longleftrightarrow> map_of m = map_of m'"

text \<open>A map[K]bool used as a set: the lookup of an absent key is the zero value \<open>false\<close>.\<close>

definition has_key :: "('k, bool) gomap \<Rightarrow> 'k \<Rightarrow> bool" where
  "has_key m k = (case map_of m k of None \<Rightarrow> False | Some b \<Rightarrow> b)"

text \<open>A map of numbers read at an absent key gives the zero value.\<close>

definition lookup0 :: "('k, 'n::zero) gomap \<Rightarrow> 'k \<Rightarrow> 'n" where
  "lookup0 m k = (case map_of m k of None \<Rightarrow> 0 | Some x \<Rightarrow> x)"

text \<open>
  An update through the pointer a map stores, as in \<open>g.nodes[k].Degree++\<close>: a missing key
  yields a nil pointer, whose dereference panics.
\<close>

definition gmodify :: "'k \<Rightarrow> ('v \<Rightarrow> 'v) \<Rightarrow> ('k, 'v) gomap \<Rightarrow> ('k, 'v) gomap option" where
  "gmodify k f m = (case map_of m k of None \<Rightarrow> None | Some v \<Rightarrow> Some (AList.update k (f v) m))"

lemma map_of_update [gomap_simps, simp]:
  "map_of (AList.update k v m) = (map_of m)(k \<mapsto> v)"
  by (rule update_conv')

lemma map_of_delete [gomap_simps, simp]:
  "map_of (AList.delete k m) = (map_of m)(k := None)"
  by (rule delete_conv')

lemma wf_update [gomap_simps, simp]: "wf_gomap m \<Longrightarrow> wf_gomap (AList.update k v m)"
  by (rule distinct_update)

lemma wf_delete [gomap_simps, simp]: "wf_gomap m \<Longrightarrow> wf_gomap (AList.delete k m)"
  by (rule distinct_delete)

lemma keys_update [gomap_simps]:
  "fst ` set (AList.update k v m) = insert k (fst ` set m)"
  using dom_update [of k v m] by simp

lemma in_keys_iff: "k \<in> fst ` set m \<longleftrightarrow> map_of m k \<noteq> None"
  by (simp add: map_of_eq_None_iff)

lemma keys_eq_dom: "fst ` set m = dom (map_of m)"
  by (simp add: dom_map_of_conv_image_fst)

lemma entry_iff_lookup: "wf_gomap m \<Longrightarrow> (k, v) \<in> set m \<longleftrightarrow> map_of m k = Some v"
  by (simp add: map_of_eq_Some_iff)

lemma in_values_iff: "wf_gomap m \<Longrightarrow> v \<in> snd ` set m \<longleftrightarrow> (\<exists>k. map_of m k = Some v)"
  by (simp add: image_iff Bex_def entry_iff_lookup)

lemma ball_entries_iff:
  "wf_gomap m \<Longrightarrow> (\<forall>(k, v) \<in> set m. P k v) \<longleftrightarrow> (\<forall>k v. map_of m k = Some v \<longrightarrow> P k v)"
  by (simp only: Ball_def split_paired_All prod.case entry_iff_lookup)

lemma length_update [gomap_simps]:
  "length (AList.update k v m) = (if map_of m k = None then Suc (length m) else length m)"
  by (induction m) auto

lemma update_absent: "map_of m k = None \<Longrightarrow> AList.update k v m = m @ [(k, v)]"
  by (induction m) (auto split: if_splits)

lemma length_gomap_card: "wf_gomap m \<Longrightarrow> length m = card (dom (map_of m))"
  using distinct_card [of "gkeys m"] by (simp add: keys_eq_dom)

lemma has_key_update [gomap_simps, simp]:
  "has_key (AList.update k b m) k' = (if k' = k then b else has_key m k')"
  by (simp add: has_key_def)

lemma has_key_Nil [simp]: "\<not> has_key [] k"
  by (simp add: has_key_def)

lemma gmodify_Some:
  "map_of m k = Some v \<Longrightarrow> gmodify k f m = Some (AList.update k (f v) m)"
  by (simp add: gmodify_def)

lemma gomap_sum:
  assumes "wf_gomap m"
  shows "(\<Sum>(k, v) \<leftarrow> m. f k v) = (\<Sum>k \<in> dom (map_of m). f k (the (map_of m k)) :: real)"
proof -
  have "(\<Sum>(k, v) \<leftarrow> m. f k v) = (\<Sum>kv \<in> set m. f (fst kv) (snd kv))"
    using assms by (simp add: sum_list_distinct_conv_sum_set distinct_map case_prod_beta)
  also have "\<dots> = (\<Sum>k \<in> fst ` set m. f k (the (map_of m k)))"
  proof (rule sum.reindex_cong [symmetric])
    show "inj_on fst (set m)" using assms by (simp add: distinct_map)
    show "f (fst kv) (the (map_of m (fst kv))) = f (fst kv) (snd kv)" if "kv \<in> set m" for kv
      using that entry_iff_lookup [OF assms, of "fst kv" "snd kv"] by simp
  qed simp
  finally show ?thesis by (simp add: keys_eq_dom)
qed

section \<open>Loops\<close>

text \<open>A loop over the visited values whose body may panic.\<close>

fun ofold :: "('a \<Rightarrow> 's \<Rightarrow> 's option) \<Rightarrow> 'a list \<Rightarrow> 's \<Rightarrow> 's option" where
  "ofold f [] s = Some s"
| "ofold f (x # xs) s = Option.bind (f x s) (ofold f xs)"

lemma ofold_append: "ofold f (xs @ ys) s = Option.bind (ofold f xs s) (ofold f ys)"
  by (induction xs arbitrary: s) (auto simp: Option.bind_eq_Some_conv split: bind_splits)

text \<open>The rule for such loops: an invariant over the part of the list already visited.\<close>

lemma ofold_rule:
  assumes "P [] s"
    and "\<And>done x rest s. xs = done @ x # rest \<Longrightarrow> P done s \<Longrightarrow> \<exists>s'. f x s = Some s' \<and> P (done @ [x]) s'"
  shows "\<exists>s'. ofold f xs s = Some s' \<and> P xs s'"
proof -
  have "\<exists>s'. ofold f ys s = Some s' \<and> P (zs @ ys) s'"
    if "xs = zs @ ys" and "P zs s" for ys zs s
    using that
  proof (induction ys arbitrary: zs s)
    case (Cons y ys)
    then obtain s1 where "f y s = Some s1" and "P (zs @ [y]) s1"
      using assms(2) by blast
    moreover from this Cons.prems Cons.IH [of "zs @ [y]" s1] show ?case by auto
  qed simp
  from this [of "[]" xs s] assms(1) show ?thesis by simp
qed

lemma ofold_cong_Some:
  assumes "\<And>x s. x \<in> set xs \<Longrightarrow> f x s = Some (g x s)"
  shows "ofold f xs s = Some (fold g xs s)"
  using assms by (induction xs arbitrary: s) auto

text \<open>An indexed read: out of range it panics.\<close>

definition index :: "'a list \<Rightarrow> nat \<Rightarrow> 'a option" where
  "index xs i = (if i < length xs then Some (xs ! i) else None)"

lemma index_Some [simp]: "i < length xs \<Longrightarrow> index xs i = Some (xs ! i)"
  by (simp add: index_def)

text \<open>A loop over an index range that accumulates a sum.\<close>

lemma ofold_sum [loop_simps]:
  assumes "\<And>i s. i < n \<Longrightarrow> f i s = Some (s + g i)"
  shows "ofold f [0..<n] s = Some (s + (\<Sum>i<n. g i :: real))"
  using assms by (induction n) (simp_all add: ofold_append)

text \<open>
  A range loop that calls \<open>fn\<close> on each value and stops when it returns \<open>false\<close>. The
  callback's captured variables are its state.
\<close>

fun go_range :: "('a \<Rightarrow> 's \<Rightarrow> 's \<times> bool) \<Rightarrow> 'a list \<Rightarrow> 's \<Rightarrow> 's" where
  "go_range fn [] s = s"
| "go_range fn (x # xs) s = (let (s', continue) = fn x s in if continue then go_range fn xs s' else s')"

lemma go_range_fold [loop_simps]:
  "go_range (\<lambda>x s. (f x s, True)) xs s = fold f xs s"
  by (induction xs arbitrary: s) auto

text \<open>A callback that always continues but whose body may panic.\<close>

lemma go_range_ofold [loop_simps]:
  "go_range (\<lambda>x s. (Option.bind s (f x), True)) xs s = Option.bind s (ofold f xs)"
proof (induction xs arbitrary: s)
  case (Cons x xs)
  then show ?case by (cases s) auto
next
  case Nil
  show ?case by (cases s) auto
qed

text \<open>Rebuilding a map entry by entry, as the copy loops do.\<close>

lemma fold_update_fresh:
  "distinct (map fst xs) \<Longrightarrow> fst ` set xs \<inter> fst ` set m = {} \<Longrightarrow>
   fold (\<lambda>(k, v). AList.update k v) xs m = m @ xs"
proof (induction xs arbitrary: m)
  case (Cons x xs)
  obtain k v where x: "x = (k, v)" by force
  with Cons.prems have "map_of m k = None" by (auto simp: map_of_eq_None_iff)
  with Cons x show ?case by (auto simp: keys_update update_absent)
qed simp

text \<open>The inverse of a list without duplicates: \<open>for i, id := range ids { idx[id] = i }\<close>.\<close>

lemma enumerate_lookup:
  assumes "distinct ids"
  shows "map_of (fold (\<lambda>(i, nid) m. AList.update nid i m) (zip [0..<length ids] ids) []) u = Some j \<longleftrightarrow> j < length ids \<and> ids ! j = u"
proof -
  have "map_of (fold (\<lambda>(i, nid) m. AList.update nid i m) (zip [0..<k] (take k ids)) []) u = Some j \<longleftrightarrow> j < k \<and> ids ! j = u"
    if "k \<le> length ids" for k
    using that
  proof (induction k)
    case (Suc k)
    then have "zip [0..<Suc k] (take (Suc k) ids) = zip [0..<k] (take k ids) @ [(k, ids ! k)]"
      by (simp add: take_Suc_conv_app_nth)
    moreover have "i < k \<Longrightarrow> ids ! i \<noteq> ids ! k" for i
      using Suc.prems assms by (auto simp: nth_eq_iff_index_eq)
    ultimately show ?case using Suc by (auto simp: less_Suc_eq)
  qed simp
  from this [of "length ids"] show ?thesis by simp
qed

text \<open>
  The deduplicating loop of the neighbour queries:
  \<open>if !seen[id] { seen[id] = true; result = append(result, id) }\<close>.
\<close>

definition visit_unseen :: "'k \<Rightarrow> ('k, bool) gomap \<times> 'k list \<Rightarrow> ('k, bool) gomap \<times> 'k list" where
  "visit_unseen k = (\<lambda>(seen, result).
     if has_key seen k then (seen, result) else (AList.update k True seen, result @ [k]))"

definition seen_agrees :: "('k, bool) gomap \<times> 'k list \<Rightarrow> bool" where
  "seen_agrees s \<longleftrightarrow> (\<forall>k. has_key (fst s) k \<longleftrightarrow> k \<in> set (snd s)) \<and> distinct (snd s)"

lemma seen_agrees_start [simp]: "seen_agrees ([], [])"
  by (simp add: seen_agrees_def)

lemma visit_unseen_step:
  "seen_agrees s \<Longrightarrow> seen_agrees (visit_unseen k s) \<and> set (snd (visit_unseen k s)) = insert k (set (snd s))"
  by (cases s) (auto simp: visit_unseen_def seen_agrees_def)

lemma visit_unseen_loop:
  "seen_agrees s \<Longrightarrow> seen_agrees (fold visit_unseen ks s) \<and>
     set (snd (fold visit_unseen ks s)) = set (snd s) \<union> set ks"
proof (induction ks arbitrary: s)
  case (Cons k ks)
  from visit_unseen_step [OF Cons.prems, of k] Cons.IH [of "visit_unseen k s"] show ?case by auto
qed simp

lemma visit_unseen_fresh:
  "seen_agrees s \<Longrightarrow> distinct ks \<Longrightarrow> set ks \<inter> set (snd s) = {} \<Longrightarrow>
     snd (fold visit_unseen ks s) = snd s @ ks"
proof (induction ks arbitrary: s)
  case (Cons k ks)
  then have "snd (visit_unseen k s) = snd s @ [k]"
    by (cases s) (auto simp: visit_unseen_def seen_agrees_def)
  with Cons visit_unseen_step [OF Cons.prems(1), of k] show ?case by auto
qed simp

end
