(* ===== verification/Types.thy ===== *)
theory Types
  imports Prelude
begin

text \<open>
  The public data of package \<open>itt\<close>: \<open>errors.go\<close>, \<open>types.go\<close>, \<open>aggregation.go\<close>. The structs
  are records with the code's fields, the enumerations are datatypes, and the sentinel errors
  are the constructors of \<open>go_error\<close>. \<open>map[string]any\<close> values are opaque tokens: no operation
  inspects them. The theorems give the branches of \<open>Validate\<close> and \<open>Normalize\<close> and the bounds of
  the aggregation functions.
\<close>

section \<open>Errors\<close>

datatype go_error =
    ErrEmptySource | ErrEmptyTarget | ErrNegativeWeight
  | ErrEngineStopped | ErrEngineRunning | ErrSnapshotClosed
  | ErrNodeNotFound | ErrEdgeNotFound
  | ErrInvalidConfig string

section \<open>Events\<close>

type_synonym opaque = nat

record Event =
  ev_Source :: string
  ev_Target :: string
  ev_Type :: string
  ev_Weight :: real
  ev_Timestamp :: time
  ev_Metadata :: "(string, opaque) gomap"

text \<open>A Go \<open>error\<close> result: \<open>None\<close> is \<open>nil\<close>.\<close>

definition Validate :: "Event \<Rightarrow> go_error option" where
  "Validate e =
     (if ev_Source e = [] then Some ErrEmptySource
      else if ev_Target e = [] then Some ErrEmptyTarget
      else if ev_Weight e < 0 then Some ErrNegativeWeight
      else None)"

definition Normalize :: "time \<Rightarrow> Event \<Rightarrow> Event" where
  "Normalize now e =
     (let e1 = (if ev_Weight e = 0 then e\<lparr>ev_Weight := 1\<rparr> else e)
      in if ev_Timestamp e1 = 0 then e1\<lparr>ev_Timestamp := now\<rparr> else e1)"

section \<open>Analysis results\<close>

datatype Trend = TrendStable | TrendIncreasing | TrendDecreasing

definition Trend_String :: "Trend \<Rightarrow> string" where
  "Trend_String t = (case t of TrendStable \<Rightarrow> ''Stable'' | TrendIncreasing \<Rightarrow> ''Increasing''
                     | TrendDecreasing \<Rightarrow> ''Decreasing'')"

text \<open>The one quantity the code lets become infinite.\<close>

datatype xreal = Fin real | PosInf

instantiation xreal :: linorder
begin

definition less_eq_xreal :: "xreal \<Rightarrow> xreal \<Rightarrow> bool" where
  "less_eq_xreal x y = (case y of PosInf \<Rightarrow> True | Fin b \<Rightarrow> (case x of PosInf \<Rightarrow> False | Fin a \<Rightarrow> a \<le> b))"

definition less_xreal :: "xreal \<Rightarrow> xreal \<Rightarrow> bool" where
  "less_xreal x y = (case x of PosInf \<Rightarrow> False | Fin a \<Rightarrow> (case y of PosInf \<Rightarrow> True | Fin b \<Rightarrow> a < b))"

instance
  by standard (auto simp: less_eq_xreal_def less_xreal_def split: xreal.splits)

end

record TensionResult =
  tr_NodeID :: string
  tr_Tension :: real
  tr_Degree :: int
  tr_Curvature :: real
  tr_Anomaly :: bool
  tr_Confidence :: real
  tr_Concealment :: real
  tr_Trend :: Trend
  tr_Components :: "(string, real) gomap"

record TemporalSummary =
  ts_TensionSpike :: real
  ts_DecayExponent :: real
  ts_CurvatureShock :: real
  ts_Phase :: int
  ts_PhaseRho :: real
  ts_PhasePi :: real
  ts_Velocity :: real

record DetectabilityResult =
  dr_SNR :: xreal
  dr_Threshold :: xreal
  dr_Region :: int
  dr_Alpha :: real

record ResultStats =
  rs_NodesAnalyzed :: int
  rs_MeanTension :: real
  rs_MedianTension :: real
  rs_MaxTension :: real
  rs_StdDevTension :: real
  rs_AnomalyCount :: int
  rs_AnomalyRate :: real

record Results =
  res_Tensions :: "TensionResult list"
  res_Anomalies :: "TensionResult list"
  res_Stats :: ResultStats
  res_Temporal :: TemporalSummary
  res_SnapshotID :: string
  res_AnalyzedAt :: time
  res_Duration :: duration
  res_Detectability :: DetectabilityResult

record RegionResult =
  rr_Nodes :: "TensionResult list"
  rr_MeanTension :: real
  rr_MaxTension :: real
  rr_AnomalyCount :: int
  rr_Aggregated :: real
  rr_Detectability :: DetectabilityResult
  rr_CPS :: real

record CompactStats =
  cs_NodesMerged :: int
  cs_EdgesMerged :: int
  cs_OverlayBefore :: int
  cs_OverlayAfter :: int
  cs_Duration :: duration
  cs_Timestamp :: time

record GCStats =
  gs_VersionsRemoved :: int
  gs_MemoryFreed :: int
  gs_OldestRemoved :: "64 word"
  gs_Timestamp :: time

datatype CompactionStrategy = CompactByVolume | CompactByTime | CompactManual

section \<open>Aggregation functions\<close>

definition AggMean :: "real list \<Rightarrow> real" where
  "AggMean tensions =
     (if length tensions = 0 then 0 else fold (\<lambda>t sum. sum + t) tensions 0 / real (length tensions))"

definition AggMax :: "real list \<Rightarrow> real" where
  "AggMax tensions =
     (if length tensions = 0 then 0
      else fold (\<lambda>t m. if t > m then t else m) (tl tensions) (hd tensions))"

definition AggMedian :: "real list \<Rightarrow> real" where
  "AggMedian tensions =
     (if length tensions = 0 then 0
      else let sorted = sort tensions; n = length sorted
           in if n mod 2 = 0 then (sorted ! (n div 2 - 1) + sorted ! (n div 2)) / 2
              else sorted ! (n div 2))"

definition AggSum :: "real list \<Rightarrow> real" where
  "AggSum tensions = fold (\<lambda>t sum. sum + t) tensions 0"

subsection \<open>Closed forms\<close>

lemma fold_add_sum_list [loop_simps]: "fold (\<lambda>t sum. sum + t) xs s = s + sum_list (xs :: real list)"
  by (induction xs arbitrary: s) auto

lemma fold_add_map [loop_simps]: "fold (\<lambda>x acc. acc + f x) xs s = s + (\<Sum>x \<leftarrow> xs. f x :: real)"
  by (induction xs arbitrary: s) auto

lemma fold_max [loop_simps]:
  "fold (\<lambda>t m. if t > m then t else m) xs m = Max (insert m (set (xs :: real list)))"
proof (induction xs arbitrary: m)
  case (Cons x xs)
  have "Max (insert m (insert x (set xs))) = max m (Max (insert x (set xs)))"
    and "Max (insert x (insert m (set xs))) = max x (Max (insert m (set xs)))" by simp_all
  moreover have "x \<le> Max (insert x (set xs))" "m \<le> Max (insert m (set xs))" by simp_all
  ultimately have "Max (insert (if x > m then x else m) (set xs)) = Max (insert m (insert x (set xs)))"
    by (cases "x > m") (simp_all add: insert_commute max_def)
  with Cons show ?case by simp
qed simp

lemma AggSum_eq: "AggSum xs = sum_list xs"
  by (simp add: AggSum_def loop_simps)

lemma AggMean_eq: "AggMean xs = sum_list xs / real (length xs)"
  by (simp add: AggMean_def loop_simps)

lemma AggMax_eq: "xs \<noteq> [] \<Longrightarrow> AggMax xs = Max (set xs)"
  by (cases xs) (simp_all add: AggMax_def loop_simps)

lemma sum_list_bounds:
  fixes xs :: "real list"
  assumes "\<forall>x \<in> set xs. lo \<le> x \<and> x \<le> hi"
  shows "lo * real (length xs) \<le> sum_list xs" and "sum_list xs \<le> hi * real (length xs)"
  using assms by (induction xs) (auto simp: algebra_simps)

lemma AggMean_bounds:
  assumes "xs \<noteq> []" and "\<forall>x \<in> set xs. lo \<le> x \<and> x \<le> hi"
  shows "lo \<le> AggMean xs \<and> AggMean xs \<le> hi"
  using assms(1) sum_list_bounds [OF assms(2)] by (simp add: AggMean_eq pos_le_divide_eq pos_divide_le_eq)

lemma sort_nth_in: "i < length xs \<Longrightarrow> sort xs ! i \<in> set xs"
  by (metis length_sort nth_mem set_sort)

lemma AggMedian_bounds:
  assumes "xs \<noteq> []" and "\<forall>x \<in> set xs. lo \<le> x \<and> x \<le> hi"
  shows "lo \<le> AggMedian xs \<and> AggMedian xs \<le> hi"
proof -
  let ?n = "length xs"
  have "0 < ?n" using assms(1) by simp
  then have "?n div 2 < ?n" "?n div 2 - 1 < ?n" by linarith+
  then have "sort xs ! (?n div 2) \<in> set xs" "sort xs ! (?n div 2 - 1) \<in> set xs"
    by (simp_all only: sort_nth_in)
  with assms(2) have "lo \<le> sort xs ! (?n div 2) \<and> sort xs ! (?n div 2) \<le> hi"
    "lo \<le> sort xs ! (?n div 2 - 1) \<and> sort xs ! (?n div 2 - 1) \<le> hi" by blast+
  with assms(1) show ?thesis by (simp add: AggMedian_def Let_def)
qed

lemma agg_perm:
  assumes "mset xs = mset ys"
  shows "AggMean xs = AggMean ys" and "AggMax xs = AggMax ys" and "AggMedian xs = AggMedian ys"
    and "AggSum xs = AggSum ys"
proof -
  have len: "length xs = length ys" and sets: "set xs = set ys" and sums: "sum_list xs = sum_list ys"
    using assms by (metis size_mset, metis set_mset_mset, metis sum_mset_sum_list)
  have "sort xs = sort ys"
    using assms by (metis mset_sort properties_for_sort sorted_sort)
  with len show "AggMedian xs = AggMedian ys" by (auto simp: AggMedian_def)
  show "AggMax xs = AggMax ys"
    using len sets by (cases "xs = []"; cases "ys = []") (simp_all add: AggMax_eq)
  show "AggMean xs = AggMean ys" "AggSum xs = AggSum ys"
    using len sums by (simp_all add: AggMean_eq AggSum_eq)
qed

text \<open>At least half of the values are at most the median, and at least half are at least it.\<close>

lemma sorted_prefix_le:
  "sorted s \<Longrightarrow> m < length s \<Longrightarrow> s ! m \<le> v \<Longrightarrow> Suc m \<le> length (filter (\<lambda>x. x \<le> v) s)"
proof -
  assume s: "sorted s" "m < length s" "s ! m \<le> v"
  then have "\<forall>x \<in> set (take (Suc m) s). x \<le> v"
    by (auto simp: in_set_conv_nth) (meson less_Suc_eq_le order.trans sorted_nth_mono)
  then have "filter (\<lambda>x. x \<le> v) (take (Suc m) s) = take (Suc m) s" by simp
  moreover have "filter (\<lambda>x. x \<le> v) s = filter (\<lambda>x. x \<le> v) (take (Suc m) s) @ filter (\<lambda>x. x \<le> v) (drop (Suc m) s)"
    by (metis append_take_drop_id filter_append)
  ultimately show ?thesis using s(2) by simp
qed

lemma sorted_suffix_ge:
  "sorted s \<Longrightarrow> m < length s \<Longrightarrow> v \<le> s ! m \<Longrightarrow> length s - m \<le> length (filter (\<lambda>x. v \<le> x) s)"
proof -
  assume s: "sorted s" "m < length s" "v \<le> s ! m"
  then have "\<forall>x \<in> set (drop m s). v \<le> x"
    by (auto simp: in_set_conv_nth) (metis le_add1 order.trans add.commute less_diff_conv sorted_nth_mono)
  then have "filter (\<lambda>x. v \<le> x) (drop m s) = drop m s" by simp
  moreover have "filter (\<lambda>x. v \<le> x) s = filter (\<lambda>x. v \<le> x) (take m s) @ filter (\<lambda>x. v \<le> x) (drop m s)"
    by (metis append_take_drop_id filter_append)
  ultimately show ?thesis by simp
qed

lemma AggMedian_splits:
  assumes "xs \<noteq> []"
  shows "length xs \<le> 2 * length (filter (\<lambda>x. x \<le> AggMedian xs) xs)"
    and "length xs \<le> 2 * length (filter (\<lambda>x. AggMedian xs \<le> x) xs)"
proof -
  let ?s = "sort xs" and ?n = "length xs"
  have filt: "length (filter P xs) = length (filter P ?s)" for P
    by (metis mset_filter mset_sort size_mset)
  have n: "0 < ?n" using assms by simp
  have mid: "?s ! ((?n - 1) div 2) \<le> AggMedian xs \<and> AggMedian xs \<le> ?s ! (?n div 2)"
  proof (cases "?n mod 2 = 0")
    case True
    then have "(?n - 1) div 2 = ?n div 2 - 1" by presburger
    moreover have "?s ! (?n div 2 - 1) \<le> ?s ! (?n div 2)" using n by (intro sorted_nth_mono) auto
    ultimately show ?thesis using True assms by (simp add: AggMedian_def Let_def)
  next
    case False
    then have "(?n - 1) div 2 = ?n div 2" by presburger
    with False assms show ?thesis by (simp add: AggMedian_def Let_def)
  qed
  have low: "(?n - 1) div 2 < length ?s" and high: "?n div 2 < length ?s"
    unfolding length_sort using n by linarith+
  show "?n \<le> 2 * length (filter (\<lambda>x. AggMedian xs \<le> x) xs)"
    using sorted_suffix_ge [OF sorted_sort high conjunct2 [OF mid]] unfolding filt by (simp, linarith?)
  show "?n \<le> 2 * length (filter (\<lambda>x. x \<le> AggMedian xs) xs)"
    using sorted_prefix_le [OF sorted_sort low conjunct1 [OF mid]] unfolding filt by (simp, linarith?)
qed

section \<open>Properties\<close>

text \<open>
  C4. The order in which tensions are collected (a \<open>range\<close> over a Go map) does not change any
  built-in aggregate, and on a non-empty region mean, median and maximum lie between the
  smallest and the largest tension, the median splitting the tensions in half.
\<close>

theorem aggregation_order_and_bounds:
  assumes "tensions \<noteq> []" and "mset other = mset tensions"
  shows "map (\<lambda>agg. agg other) [AggMean, AggMax, AggMedian, AggSum] =
         map (\<lambda>agg. agg tensions) [AggMean, AggMax, AggMedian, AggSum] \<and>
       list_all (\<lambda>agg. Min (set tensions) \<le> agg tensions \<and> agg tensions \<le> Max (set tensions))
         [AggMean, AggMax, AggMedian] \<and>
       length tensions \<le> 2 * length (filter (\<lambda>t. t \<le> AggMedian tensions) tensions) \<and>
       length tensions \<le> 2 * length (filter (\<lambda>t. AggMedian tensions \<le> t) tensions)"
proof -
  have b: "\<forall>x \<in> set tensions. Min (set tensions) \<le> x \<and> x \<le> Max (set tensions)" by simp
  with assms(1) show ?thesis
    using agg_perm [OF assms(2)] AggMean_bounds [OF assms(1) b] AggMedian_bounds [OF assms(1) b]
      AggMedian_splits [OF assms(1)]
    by (simp add: AggMax_eq)
qed

theorem aggregation_order_and_bounds_witness:
  "AggMedian [5, 1, 3] = AggMedian [1, 3, 5 :: real] \<and> AggMedian [1, 3, 5] \<le> (5 :: real)"
  using aggregation_order_and_bounds [of "[1, 3, 5]" "[5, 1, 3]"] by simp

text \<open>
  Normalising an event that validates (with a clock that is not the zero time) gives an
  event that validates, has a positive weight and a timestamp, keeps the endpoints and type,
  and is left unchanged by a second normalisation.
\<close>

theorem Normalize_valid:
  assumes "Validate e = None" and "now \<noteq> 0"
  shows "Validate (Normalize now e) = None \<and> 0 < ev_Weight (Normalize now e) \<and>
       ev_Timestamp (Normalize now e) \<noteq> 0 \<and> ev_Source (Normalize now e) = ev_Source e \<and>
       ev_Target (Normalize now e) = ev_Target e \<and> ev_Type (Normalize now e) = ev_Type e \<and>
       Normalize later (Normalize now e) = Normalize now e"
  using assms by (auto simp: Validate_def Normalize_def Let_def split: if_splits)

definition sample_event :: Event where
  "sample_event = \<lparr>ev_Source = ''a'', ev_Target = ''b'', ev_Type = ''call'', ev_Weight = 0, ev_Timestamp = 0,
     ev_Metadata = []\<rparr>"

theorem Normalize_valid_witness:
  "Validate sample_event = None \<and> 0 < ev_Weight (Normalize 7 sample_event)"
  using Normalize_valid [of sample_event 7] by (simp add: Validate_def sample_event_def)

end
