(* ===== verification/Graph_Store.thy ===== *)
theory Graph_Store
  imports Prelude
begin

text \<open>
  \<open>graph/graph.go\<close>: the mutable directed weighted graph. \<open>NodeData\<close>, \<open>EdgeData\<close> and
  \<open>Graph\<close> are the code's structs; the pointers its maps hold are private to the graph, so a
  map of pointers is a map of values. An operation that can panic (a nil map assigned to, a
  nil pointer dereferenced) returns an option; the theorems show that it never does on a
  well-formed graph. The well-formedness invariant \<open>wf_graph\<close> ties the two adjacency maps
  to the edge map; \<open>degrees_ok\<close> ties the degree counters to the adjacency maps.
\<close>

section \<open>Data\<close>

record NodeData =
  n_ID :: string
  n_Type :: string
  n_Degree :: int
  n_InDegree :: int
  n_OutDegree :: int
  n_Attributes :: "(string, real) gomap option"
  n_FirstSeen :: time
  n_LastSeen :: time

record EdgeData =
  e_From :: string
  e_To :: string
  e_Weight :: real
  e_Type :: string
  e_Count :: int
  e_FirstSeen :: time
  e_LastSeen :: time

definition edgeKey :: "string \<Rightarrow> string \<Rightarrow> string" where
  "edgeKey from to = from @ [CHR 0x00] @ to"

record Graph =
  g_nodes :: "(string, NodeData) gomap"
  g_edges :: "(string, EdgeData) gomap"
  g_out :: "(string, (string, bool) gomap) gomap"
  g_in :: "(string, (string, bool) gomap) gomap"

definition New :: Graph where
  "New = \<lparr>g_nodes = [], g_edges = [], g_out = [], g_in = []\<rparr>"

section \<open>Operations\<close>

text \<open>The composite literal \<open>NodeData{ID: id, FirstSeen: ts, LastSeen: ts}\<close>.\<close>

definition fresh_node :: "string \<Rightarrow> time \<Rightarrow> NodeData" where
  "fresh_node nid ts = \<lparr>n_ID = nid, n_Type = [], n_Degree = 0, n_InDegree = 0, n_OutDegree = 0,
     n_Attributes = None, n_FirstSeen = ts, n_LastSeen = ts\<rparr>"

text \<open>\<open>if m[id] == nil { m[id] = make(map[string]bool) }\<close>\<close>

definition ensure_adjacency ::
  "string \<Rightarrow> (string, (string, bool) gomap) gomap \<Rightarrow> (string, (string, bool) gomap) gomap" where
  "ensure_adjacency nid m = (case map_of m nid of None \<Rightarrow> AList.update nid [] m | Some _ \<Rightarrow> m)"

definition AddNode :: "NodeData \<Rightarrow> Graph \<Rightarrow> Graph" where
  "AddNode n g = (case map_of (g_nodes g) (n_ID n) of
     Some existing \<Rightarrow>
       (let retyped = existing\<lparr>n_Type := n_Type n\<rparr>;
            seen = (if n_LastSeen n \<noteq> 0 then retyped\<lparr>n_LastSeen := n_LastSeen n\<rparr> else retyped)
        in g\<lparr>g_nodes := AList.update (n_ID n) seen (g_nodes g)\<rparr>)
   | None \<Rightarrow>
       g\<lparr>g_nodes := AList.update (n_ID n) n (g_nodes g),
         g_out := ensure_adjacency (n_ID n) (g_out g),
         g_in := ensure_adjacency (n_ID n) (g_in g)\<rparr>)"

definition GetNode :: "string \<Rightarrow> Graph \<Rightarrow> NodeData option" where
  "GetNode nid g = map_of (g_nodes g) nid"

definition fresh_edge :: "string \<Rightarrow> string \<Rightarrow> real \<Rightarrow> string \<Rightarrow> time \<Rightarrow> EdgeData" where
  "fresh_edge from to weight edgeType ts = \<lparr>e_From = from, e_To = to, e_Weight = weight,
     e_Type = edgeType, e_Count = 1, e_FirstSeen = ts, e_LastSeen = ts\<rparr>"

text \<open>The update of an edge that exists: the weight accumulates, the time span widens.\<close>

definition bump_edge :: "real \<Rightarrow> time \<Rightarrow> EdgeData \<Rightarrow> EdgeData" where
  "bump_edge weight ts e =
     (let e1 = e\<lparr>e_Weight := e_Weight e + weight, e_Count := e_Count e + 1\<rparr>;
          e2 = (if ts > e_LastSeen e1 then e1\<lparr>e_LastSeen := ts\<rparr> else e1)
      in if ts < e_FirstSeen e2 then e2\<lparr>e_FirstSeen := ts\<rparr> else e2)"

definition ensure_node :: "string \<Rightarrow> time \<Rightarrow> Graph \<Rightarrow> Graph" where
  "ensure_node nid ts g = (case map_of (g_nodes g) nid of None \<Rightarrow> AddNode (fresh_node nid ts) g | Some _ \<Rightarrow> g)"

text \<open>
  The insertion of a new edge: the edge map, the two adjacency maps (a nil inner map
  panics), then the degree counters of the source and of the target.
\<close>

definition link_edge :: "string \<Rightarrow> string \<Rightarrow> EdgeData \<Rightarrow> Graph \<Rightarrow> Graph option" where
  "link_edge from to e g = do {
     out \<leftarrow> gmodify from (AList.update to True) (g_out g);
     inn \<leftarrow> gmodify to (AList.update from True) (g_in g);
     ns1 \<leftarrow> gmodify from (\<lambda>n. n\<lparr>n_OutDegree := n_OutDegree n + 1, n_Degree := n_Degree n + 1\<rparr>) (g_nodes g);
     ns2 \<leftarrow> gmodify to (\<lambda>n. n\<lparr>n_InDegree := n_InDegree n + 1, n_Degree := n_Degree n + 1\<rparr>) ns1;
     Some (g\<lparr>g_nodes := ns2, g_edges := AList.update (edgeKey from to) e (g_edges g),
             g_out := out, g_in := inn\<rparr>)
   }"

definition AddEdge :: "string \<Rightarrow> string \<Rightarrow> real \<Rightarrow> string \<Rightarrow> time \<Rightarrow> Graph \<Rightarrow> Graph option" where
  "AddEdge from to weight edgeType ts g0 =
     (let g = ensure_node to ts (ensure_node from ts g0); key = edgeKey from to
      in case map_of (g_edges g) key of
           Some e \<Rightarrow> Some (g\<lparr>g_edges := AList.update key (bump_edge weight ts e) (g_edges g)\<rparr>)
         | None \<Rightarrow> link_edge from to (fresh_edge from to weight edgeType ts) g)"

definition GetEdge :: "string \<Rightarrow> string \<Rightarrow> Graph \<Rightarrow> EdgeData option" where
  "GetEdge from to g = map_of (g_edges g) (edgeKey from to)"

text \<open>The keys of an inner adjacency map; ranging over a nil map visits nothing.\<close>

definition adjacent :: "(string, (string, bool) gomap) gomap \<Rightarrow> string \<Rightarrow> string list" where
  "adjacent m nid = (case map_of m nid of None \<Rightarrow> [] | Some inner \<Rightarrow> gkeys inner)"

definition Neighbors :: "string \<Rightarrow> Graph \<Rightarrow> string list" where
  "Neighbors nid g =
     snd (fold visit_unseen (adjacent (g_in g) nid) (fold visit_unseen (adjacent (g_out g) nid) ([], [])))"

definition OutNeighbors :: "string \<Rightarrow> Graph \<Rightarrow> string list" where
  "OutNeighbors nid g = adjacent (g_out g) nid"

definition InNeighbors :: "string \<Rightarrow> Graph \<Rightarrow> string list" where
  "InNeighbors nid g = adjacent (g_in g) nid"

definition NodeCount :: "Graph \<Rightarrow> nat" where
  "NodeCount g = length (g_nodes g)"

definition EdgeCount :: "Graph \<Rightarrow> nat" where
  "EdgeCount g = length (g_edges g)"

definition ForEachNode :: "(NodeData \<Rightarrow> 's \<Rightarrow> 's \<times> bool) \<Rightarrow> Graph \<Rightarrow> 's \<Rightarrow> 's" where
  "ForEachNode fn g = go_range fn (map snd (g_nodes g))"

definition ForEachEdge :: "(EdgeData \<Rightarrow> 's \<Rightarrow> 's \<times> bool) \<Rightarrow> Graph \<Rightarrow> 's \<Rightarrow> 's" where
  "ForEachEdge fn g = go_range fn (map snd (g_edges g))"

section \<open>Well-formed graphs\<close>

definition edge_pairs :: "Graph \<Rightarrow> (string \<times> string) set" where
  "edge_pairs g = (\<lambda>(k, e). (e_From e, e_To e)) ` set (g_edges g)"

definition wf_adjacency :: "(string, (string, bool) gomap) gomap \<Rightarrow> (string \<times> string) set \<Rightarrow> bool" where
  "wf_adjacency adj ps \<longleftrightarrow> wf_gomap adj \<and>
     (\<forall>(u, inner) \<in> set adj. wf_gomap inner \<and> (\<forall>(v, b) \<in> set inner. b) \<and>
        fst ` set inner = snd ` {p \<in> ps. fst p = u})"

definition wf_attributes :: "NodeData \<Rightarrow> bool" where
  "wf_attributes n = (case n_Attributes n of None \<Rightarrow> True | Some attrs \<Rightarrow> wf_gomap attrs)"

definition wf_graph :: "Graph \<Rightarrow> bool" where
  "wf_graph g \<longleftrightarrow> wf_gomap (g_nodes g) \<and> wf_gomap (g_edges g) \<and>
     (\<forall>(k, n) \<in> set (g_nodes g). n_ID n = k \<and> wf_attributes n) \<and>
     (\<forall>(k, e) \<in> set (g_edges g). k = edgeKey (e_From e) (e_To e) \<and>
        e_From e \<in> fst ` set (g_nodes g) \<and> e_To e \<in> fst ` set (g_nodes g)) \<and>
     fst ` set (g_out g) = fst ` set (g_nodes g) \<and> fst ` set (g_in g) = fst ` set (g_nodes g) \<and>
     wf_adjacency (g_out g) (edge_pairs g) \<and>
     wf_adjacency (g_in g) (prod.swap ` edge_pairs g)"

definition degrees_ok :: "Graph \<Rightarrow> bool" where
  "degrees_ok g \<longleftrightarrow> (\<forall>(k, n) \<in> set (g_nodes g).
     n_OutDegree n = int (length (OutNeighbors k g)) \<and>
     n_InDegree n = int (length (InNeighbors k g)) \<and>
     n_Degree n = n_OutDegree n + n_InDegree n)"

text \<open>
  The edge map is keyed by \<open>from + NUL + to\<close>: distinct pairs have distinct keys only when the
  source identifiers hold no NUL byte.
\<close>

definition nul_free :: "string \<Rightarrow> bool" where
  "nul_free s \<longleftrightarrow> CHR 0x00 \<notin> set s"

definition ids_nul_free :: "Graph \<Rightarrow> bool" where
  "ids_nul_free g \<longleftrightarrow> (\<forall>k \<in> fst ` set (g_nodes g). nul_free k)"

lemma edgeKey_inject:
  assumes "nul_free a" and "nul_free c"
  shows "edgeKey a b = edgeKey c d \<longleftrightarrow> a = c \<and> b = d"
proof -
  have split: "takeWhile (\<lambda>x. x \<noteq> CHR 0x00) (edgeKey s t) = s" if "nul_free s" for s t
    using that by (simp add: edgeKey_def nul_free_def) (subst takeWhile_append2; auto)
  show ?thesis
  proof
    assume eq: "edgeKey a b = edgeKey c d"
    with assms split have "a = c" by metis
    with eq show "a = c \<and> b = d" by (simp add: edgeKey_def)
  qed simp
qed

subsection \<open>The invariant in terms of lookups\<close>

lemma true_entries_iff:
  assumes "wf_gomap m"
  shows "(\<forall>(v, b) \<in> set m. b) \<and> fst ` set m = S \<longleftrightarrow> (\<forall>v. map_of m v = (if v \<in> S then Some True else None))"
proof -
  have "(\<forall>v b. map_of m v = Some b \<longrightarrow> b) \<and> (\<forall>v. v \<in> S \<longleftrightarrow> map_of m v \<noteq> None) \<longleftrightarrow>
      (\<forall>v. map_of m v = (if v \<in> S then Some True else None))"
    (is "?l \<longleftrightarrow> ?r")
  proof
    assume ?l
    show ?r
    proof
      fix v
      show "map_of m v = (if v \<in> S then Some True else None)"
        using \<open>?l\<close> by (cases "map_of m v"; cases "v \<in> S"; auto simp del: split_paired_All)
    qed
  qed (auto split: if_splits)
  moreover have "fst ` set m = S \<longleftrightarrow> (\<forall>v. v \<in> S \<longleftrightarrow> map_of m v \<noteq> None)"
    by (auto simp: set_eq_iff in_keys_iff simp del: not_None_eq)
  ultimately show ?thesis by (simp only: ball_entries_iff [OF assms])
qed

lemma wf_adjacency_iff:
  "wf_adjacency adj ps \<longleftrightarrow> wf_gomap adj \<and>
     (\<forall>u inner. map_of adj u = Some inner \<longrightarrow> wf_gomap inner \<and>
        (\<forall>v. map_of inner v = (if (u, v) \<in> ps then Some True else None)))"
proof (cases "wf_gomap adj")
  case True
  have img: "snd ` {p \<in> ps. fst p = u} = {v. (u, v) \<in> ps}" for u by force
  have "wf_gomap inner \<and> (\<forall>(v, b) \<in> set inner. b) \<and> fst ` set inner = {v. (u, v) \<in> ps} \<longleftrightarrow>
      wf_gomap inner \<and> (\<forall>v. map_of inner v = (if (u, v) \<in> ps then Some True else None))" for u inner
    using true_entries_iff [of inner "{v. (u, v) \<in> ps}"] by (simp only: mem_Collect_eq cong: conj_cong)
  with True show ?thesis
    unfolding wf_adjacency_def img ball_entries_iff [OF True] by simp
qed (simp add: wf_adjacency_def)

lemma wf_adjacencyD:
  "wf_adjacency adj ps \<Longrightarrow> u \<in> dom (map_of adj) \<Longrightarrow> v \<in> set (adjacent adj u) \<longleftrightarrow> (u, v) \<in> ps"
  "wf_adjacency adj ps \<Longrightarrow> distinct (adjacent adj u)"
proof -
  assume wf: "wf_adjacency adj ps"
  then show "distinct (adjacent adj u)"
    by (auto simp: wf_adjacency_iff adjacent_def split: option.split)
  assume "u \<in> dom (map_of adj)"
  then obtain inner where inner: "map_of adj u = Some inner" by auto
  with wf have "map_of inner v = (if (u, v) \<in> ps then Some True else None)"
    by (simp add: wf_adjacency_iff)
  then show "v \<in> set (adjacent adj u) \<longleftrightarrow> (u, v) \<in> ps"
    by (simp add: adjacent_def inner in_keys_iff del: not_None_eq)
qed

lemma edge_pairs_iff:
  "wf_gomap (g_edges g) \<Longrightarrow>
   (u, v) \<in> edge_pairs g \<longleftrightarrow> (\<exists>k e. map_of (g_edges g) k = Some e \<and> e_From e = u \<and> e_To e = v)"
  by (force simp: edge_pairs_def simp flip: entry_iff_lookup)

lemma edge_pairs_ran:
  "wf_gomap (g_edges g) \<Longrightarrow> edge_pairs g = (\<lambda>e. (e_From e, e_To e)) ` ran (map_of (g_edges g))"
  by (force simp: edge_pairs_def ran_distinct)

lemma image_ran_upd:
  assumes "m a = Some old" and "f b = f old"
  shows "f ` ran (m(a \<mapsto> b)) = f ` ran m"
proof -
  have "f ` ran (m(a \<mapsto> b)) = insert (f b) (f ` ran (m(a := None)))"
    by (metis fun_upd_same fun_upd_upd image_insert ran_map_upd)
  moreover have "f ` ran (m(a \<mapsto> old)) = insert (f old) (f ` ran (m(a := None)))"
    by (metis fun_upd_same fun_upd_upd image_insert ran_map_upd)
  moreover have "m(a \<mapsto> old) = m" using assms(1) by auto
  ultimately show ?thesis using assms(2) by simp
qed

lemma edge_pairs_update:
  assumes "wf_gomap (g_edges g)" and "g_edges g' = AList.update k e (g_edges g)"
    and "\<And>old. map_of (g_edges g) k = Some old \<Longrightarrow> e_From old = e_From e \<and> e_To old = e_To e"
  shows "edge_pairs g' = insert (e_From e, e_To e) (edge_pairs g)"
proof (cases "map_of (g_edges g) k")
  case None
  with assms show ?thesis by (simp add: edge_pairs_ran ran_map_upd)
next
  case (Some old)
  with assms have "(e_From e, e_To e) \<in> edge_pairs g" by (auto simp: edge_pairs_iff)
  moreover from Some assms have "edge_pairs g' = edge_pairs g"
    by (simp add: edge_pairs_ran image_ran_upd)
  ultimately show ?thesis by auto
qed

lemma wf_graph_iff:
  "wf_graph g \<longleftrightarrow> wf_gomap (g_nodes g) \<and> wf_gomap (g_edges g) \<and>
     (\<forall>k n. map_of (g_nodes g) k = Some n \<longrightarrow> n_ID n = k \<and> wf_attributes n) \<and>
     (\<forall>k e. map_of (g_edges g) k = Some e \<longrightarrow> k = edgeKey (e_From e) (e_To e) \<and>
        e_From e \<in> dom (map_of (g_nodes g)) \<and> e_To e \<in> dom (map_of (g_nodes g))) \<and>
     dom (map_of (g_out g)) = dom (map_of (g_nodes g)) \<and>
     dom (map_of (g_in g)) = dom (map_of (g_nodes g)) \<and>
     wf_adjacency (g_out g) (edge_pairs g) \<and> wf_adjacency (g_in g) (prod.swap ` edge_pairs g)"
  by (simp only: wf_graph_def keys_eq_dom ball_entries_iff cong: conj_cong)

lemma wf_graphD:
  "wf_graph g \<Longrightarrow> wf_gomap (g_nodes g)" "wf_graph g \<Longrightarrow> wf_gomap (g_edges g)"
  "wf_graph g \<Longrightarrow> map_of (g_edges g) k = Some e \<Longrightarrow> edgeKey (e_From e) (e_To e) = k"
  "wf_graph g \<Longrightarrow> map_of (g_edges g) k = Some e \<Longrightarrow>
     e_From e \<in> dom (map_of (g_nodes g)) \<and> e_To e \<in> dom (map_of (g_nodes g))"
  "wf_graph g \<Longrightarrow> map_of (g_nodes g) nid = Some n \<Longrightarrow> n_ID n = nid"
  "wf_graph g \<Longrightarrow> map_of (g_nodes g) nid = Some n \<Longrightarrow> wf_attributes n"
  unfolding wf_graph_iff by blast+

lemma degrees_ok_iff:
  "wf_gomap (g_nodes g) \<Longrightarrow> degrees_ok g \<longleftrightarrow> (\<forall>k n. map_of (g_nodes g) k = Some n \<longrightarrow>
     n_OutDegree n = int (length (OutNeighbors k g)) \<and> n_InDegree n = int (length (InNeighbors k g)) \<and>
     n_Degree n = n_OutDegree n + n_InDegree n)"
  by (simp only: degrees_ok_def ball_entries_iff)

lemma edge_pairs_nodes:
  "wf_graph g \<Longrightarrow> (u, v) \<in> edge_pairs g \<Longrightarrow> u \<in> dom (map_of (g_nodes g)) \<and> v \<in> dom (map_of (g_nodes g))"
  by (auto simp: wf_graph_iff edge_pairs_iff)

lemma edge_pairs_key:
  "wf_graph g \<Longrightarrow> (u, v) \<in> edge_pairs g \<longleftrightarrow>
     (\<exists>e. map_of (g_edges g) (edgeKey u v) = Some e \<and> e_From e = u \<and> e_To e = v)"
  by (auto simp: wf_graph_iff edge_pairs_iff)

lemma wf_New [simp, intro]: "wf_graph New" "degrees_ok New" "ids_nul_free New"
  by (auto simp: New_def wf_graph_def degrees_ok_def ids_nul_free_def wf_adjacency_def edge_pairs_def)

section \<open>AddNode\<close>

lemma map_of_ensure_adjacency:
  "map_of (ensure_adjacency nid adj) u =
     (if u = nid \<and> map_of adj nid = None then Some [] else map_of adj u)"
  by (auto simp: ensure_adjacency_def split: option.split)

lemma adjacent_ensure [simp]: "adjacent (ensure_adjacency nid adj) u = adjacent adj u"
  by (auto simp: adjacent_def map_of_ensure_adjacency split: option.split)

lemma wf_ensure_adjacency:
  assumes "wf_adjacency adj ps" and "\<And>v. map_of adj nid = None \<Longrightarrow> (nid, v) \<notin> ps"
  shows "wf_adjacency (ensure_adjacency nid adj) ps"
  using assms by (auto simp: wf_adjacency_iff ensure_adjacency_def split: option.split)

lemma neighbors_edges_update [simp]:
  "OutNeighbors k (g\<lparr>g_edges := es\<rparr>) = OutNeighbors k g"
  "InNeighbors k (g\<lparr>g_edges := es\<rparr>) = InNeighbors k g"
  by (simp_all add: OutNeighbors_def InNeighbors_def)

lemma AddNode_frame:
  "g_edges (AddNode n g) = g_edges g"
  "edge_pairs (AddNode n g) = edge_pairs g"
  "OutNeighbors u (AddNode n g) = OutNeighbors u g"
  "InNeighbors u (AddNode n g) = InNeighbors u g"
  by (auto simp: AddNode_def edge_pairs_def OutNeighbors_def InNeighbors_def Let_def split: option.split)

lemma map_of_AddNode:
  "map_of (g_nodes (AddNode n g)) k =
     (if k = n_ID n then
        (case map_of (g_nodes g) k of
           None \<Rightarrow> Some n
         | Some old \<Rightarrow> Some (old\<lparr>n_Type := n_Type n,
             n_LastSeen := if n_LastSeen n \<noteq> 0 then n_LastSeen n else n_LastSeen old\<rparr>))
      else map_of (g_nodes g) k)"
  by (auto simp: AddNode_def Let_def split: option.split)

lemma dom_AddNode: "dom (map_of (g_nodes (AddNode n g))) = insert (n_ID n) (dom (map_of (g_nodes g)))"
  by (auto simp: map_of_AddNode split: option.splits if_splits)

lemma wf_attributes_update [simp]:
  "wf_attributes (n\<lparr>n_Type := ty\<rparr>) = wf_attributes n"
  "wf_attributes (n\<lparr>n_FirstSeen := t\<rparr>) = wf_attributes n"
  "wf_attributes (n\<lparr>n_LastSeen := t\<rparr>) = wf_attributes n"
  "wf_attributes (fresh_node nid t)"
  by (simp_all add: wf_attributes_def fresh_node_def)

text \<open>Replacing a node's record, as an assignment through its pointer does.\<close>

lemma wf_update_node:
  assumes "wf_graph g" and "map_of (g_nodes g) nid = Some n" and "n_ID n' = nid" and "wf_attributes n'"
  shows "wf_graph (g\<lparr>g_nodes := AList.update nid n' (g_nodes g)\<rparr>)"
    and "degrees_ok g \<Longrightarrow> n_Degree n' = n_Degree n \<Longrightarrow> n_InDegree n' = n_InDegree n \<Longrightarrow>
         n_OutDegree n' = n_OutDegree n \<Longrightarrow> degrees_ok (g\<lparr>g_nodes := AList.update nid n' (g_nodes g)\<rparr>)"
proof -
  have pairs: "edge_pairs (g\<lparr>g_nodes := AList.update nid n' (g_nodes g)\<rparr>) = edge_pairs g"
    by (simp add: edge_pairs_def)
  from assms show wf: "wf_graph (g\<lparr>g_nodes := AList.update nid n' (g_nodes g)\<rparr>)"
    unfolding wf_graph_iff pairs by auto
  assume "degrees_ok g" "n_Degree n' = n_Degree n" "n_InDegree n' = n_InDegree n" "n_OutDegree n' = n_OutDegree n"
  with assms show "degrees_ok (g\<lparr>g_nodes := AList.update nid n' (g_nodes g)\<rparr>)"
    by (auto simp: degrees_ok_iff wf_graphD OutNeighbors_def InNeighbors_def)
qed

lemma wf_AddNode:
  assumes "wf_graph g" and "wf_attributes n"
  shows "wf_graph (AddNode n g)"
proof (cases "map_of (g_nodes g) (n_ID n)")
  case None
  with assms have "(n_ID n, v) \<notin> edge_pairs g" "(v, n_ID n) \<notin> edge_pairs g" for v
    by (auto dest: edge_pairs_nodes)
  moreover have "g_nodes (AddNode n g) = AList.update (n_ID n) n (g_nodes g)"
    and "g_out (AddNode n g) = ensure_adjacency (n_ID n) (g_out g)"
    and "g_in (AddNode n g) = ensure_adjacency (n_ID n) (g_in g)"
    by (simp_all add: AddNode_def None)
  moreover from assms None have "map_of (g_out g) (n_ID n) = None" "map_of (g_in g) (n_ID n) = None"
    by (auto simp: wf_graph_iff dom_def set_eq_iff simp del: not_None_eq)
  ultimately show ?thesis
    using assms None
    by (auto simp: wf_graph_iff AddNode_frame ensure_adjacency_def wf_adjacency_iff)
next
  case (Some old)
  with assms show ?thesis
    by (auto simp: wf_graph_iff AddNode_frame AddNode_def Let_def edge_pairs_def)
qed

section \<open>AddEdge\<close>

lemma link_adjacency:
  assumes "wf_adjacency adj ps" and "u \<in> dom (map_of adj)"
  obtains adj' where "gmodify u (AList.update v True) adj = Some adj'"
    and "wf_adjacency adj' (insert (u, v) ps)" and "dom (map_of adj') = dom (map_of adj)"
    and "\<And>w. w \<noteq> u \<Longrightarrow> adjacent adj' w = adjacent adj w"
    and "(u, v) \<notin> ps \<Longrightarrow> length (adjacent adj' u) = Suc (length (adjacent adj u))"
proof -
  from assms(2) obtain inner where inner: "map_of adj u = Some inner" by auto
  with assms(1) have lookup: "map_of inner w = (if (u, w) \<in> ps then Some True else None)" for w
    by (simp add: wf_adjacency_iff)
  show thesis
  proof (rule that)
    show "gmodify u (AList.update v True) adj = Some (AList.update u (AList.update v True inner) adj)"
      using inner by (rule gmodify_Some)
    show "wf_adjacency (AList.update u (AList.update v True inner) adj) (insert (u, v) ps)"
      using assms(1) inner lookup by (auto simp: wf_adjacency_iff)
    show "dom (map_of (AList.update u (AList.update v True inner) adj)) = dom (map_of adj)"
      using inner by auto
    show "adjacent (AList.update u (AList.update v True inner) adj) w = adjacent adj w" if "w \<noteq> u" for w
      using that by (simp add: adjacent_def)
    show "length (adjacent (AList.update u (AList.update v True inner) adj) u) = Suc (length (adjacent adj u))"
      if "(u, v) \<notin> ps"
      using that lookup [of v] by (simp add: adjacent_def inner length_update)
  qed
qed

text \<open>What linking the edge \<open>(from, to)\<close> does to the counters of the node \<open>k\<close>.\<close>

definition count_link :: "string \<Rightarrow> string \<Rightarrow> string \<Rightarrow> NodeData \<Rightarrow> NodeData" where
  "count_link from to k n = n\<lparr>
     n_OutDegree := n_OutDegree n + (if k = from then 1 else 0),
     n_InDegree := n_InDegree n + (if k = to then 1 else 0),
     n_Degree := n_Degree n + (if k = from then 1 else 0) + (if k = to then 1 else 0)\<rparr>"

lemma count_link_frame [simp]:
  "n_ID (count_link from to k n) = n_ID n" "n_Type (count_link from to k n) = n_Type n"
  "n_Attributes (count_link from to k n) = n_Attributes n"
  "n_FirstSeen (count_link from to k n) = n_FirstSeen n" "n_LastSeen (count_link from to k n) = n_LastSeen n"
  "wf_attributes (count_link from to k n) = wf_attributes n"
  by (simp_all add: count_link_def wf_attributes_def)

lemma count_link_other [simp]: "k \<noteq> from \<Longrightarrow> k \<noteq> to \<Longrightarrow> count_link from to k = (\<lambda>n. n)"
  by (auto simp: count_link_def)

text \<open>
  Adding an edge to the edge map and both of its directions to the adjacency maps keeps the
  invariant, whatever happens to the node records meanwhile.
\<close>

lemma wf_link:
  assumes wf: "wf_graph g" and nodes: "from \<in> dom (map_of (g_nodes g))" "to \<in> dom (map_of (g_nodes g))"
    and fresh: "map_of (g_edges g) (edgeKey from to) = None" and e: "e_From e = from" "e_To e = to"
    and ns: "wf_gomap ns" "dom (map_of ns) = dom (map_of (g_nodes g))"
      "\<And>k n. map_of ns k = Some n \<Longrightarrow> n_ID n = k \<and> wf_attributes n"
  obtains out' in' where "gmodify from (AList.update to True) (g_out g) = Some out'"
    and "gmodify to (AList.update from True) (g_in g) = Some in'"
    and "\<And>g'. g' = g\<lparr>g_nodes := ns, g_edges := AList.update (edgeKey from to) e (g_edges g),
           g_out := out', g_in := in'\<rparr> \<Longrightarrow> wf_graph g' \<and>
           (\<forall>k. length (OutNeighbors k g') = length (OutNeighbors k g) + (if k = from then 1 else 0)) \<and>
           (\<forall>k. length (InNeighbors k g') = length (InNeighbors k g) + (if k = to then 1 else 0))"
proof -
  from wf fresh have new: "(from, to) \<notin> edge_pairs g" by (simp add: edge_pairs_key)
  then have new': "(to, from) \<notin> prod.swap ` edge_pairs g" by auto
  from wf nodes have adj: "wf_adjacency (g_out g) (edge_pairs g)" "from \<in> dom (map_of (g_out g))"
      "wf_adjacency (g_in g) (prod.swap ` edge_pairs g)" "to \<in> dom (map_of (g_in g))"
    by (auto simp: wf_graph_iff)
  from link_adjacency [OF adj(1,2), of to] obtain out' where out':
      "gmodify from (AList.update to True) (g_out g) = Some out'"
      "wf_adjacency out' (insert (from, to) (edge_pairs g))" "dom (map_of out') = dom (map_of (g_out g))"
      "\<And>w. w \<noteq> from \<Longrightarrow> adjacent out' w = adjacent (g_out g) w"
      "length (adjacent out' from) = Suc (length (adjacent (g_out g) from))"
    using new by metis
  from link_adjacency [OF adj(3,4), of "from"] obtain in' where in':
      "gmodify to (AList.update from True) (g_in g) = Some in'"
      "wf_adjacency in' (insert (to, from) (prod.swap ` edge_pairs g))" "dom (map_of in') = dom (map_of (g_in g))"
      "\<And>w. w \<noteq> to \<Longrightarrow> adjacent in' w = adjacent (g_in g) w"
      "length (adjacent in' to) = Suc (length (adjacent (g_in g) to))"
    using new' by metis
  let ?g = "g\<lparr>g_nodes := ns, g_edges := AList.update (edgeKey from to) e (g_edges g), g_out := out', g_in := in'\<rparr>"
  have pairs: "edge_pairs ?g = insert (from, to) (edge_pairs g)"
    using wf fresh e edge_pairs_update [of g ?g "edgeKey from to" e] by (simp add: wf_graph_iff)
  have "wf_graph ?g"
    unfolding wf_graph_iff pairs
    using wf out'(2,3) in'(2,3) e nodes ns fresh
    by (auto simp: wf_graph_iff split: if_splits)
  moreover have "length (OutNeighbors k ?g) = length (OutNeighbors k g) + (if k = from then 1 else 0)" for k
    using out'(4,5) by (simp add: OutNeighbors_def)
  moreover have "length (InNeighbors k ?g) = length (InNeighbors k g) + (if k = to then 1 else 0)" for k
    using in'(4,5) by (simp add: InNeighbors_def)
  ultimately show thesis using out'(1) in'(1) by (intro that) auto
qed

lemma link_edge_correct:
  assumes wf: "wf_graph g" and nodes: "from \<in> dom (map_of (g_nodes g))" "to \<in> dom (map_of (g_nodes g))"
    and fresh: "map_of (g_edges g) (edgeKey from to) = None" and e: "e_From e = from" "e_To e = to"
  obtains g' where "link_edge from to e g = Some g'" and "wf_graph g'"
    and "map_of (g_edges g') = (map_of (g_edges g))(edgeKey from to \<mapsto> e)"
    and "\<And>k. map_of (g_nodes g') k = map_option (count_link from to k) (map_of (g_nodes g) k)"
    and "\<And>k. length (OutNeighbors k g') = length (OutNeighbors k g) + (if k = from then 1 else 0)"
    and "\<And>k. length (InNeighbors k g') = length (InNeighbors k g) + (if k = to then 1 else 0)"
proof -
  from nodes obtain a b where ab: "map_of (g_nodes g) from = Some a" "map_of (g_nodes g) to = Some b" by auto
  let ?bump_out = "\<lambda>n. n\<lparr>n_OutDegree := n_OutDegree n + 1, n_Degree := n_Degree n + 1\<rparr>"
  let ?bump_in = "\<lambda>n. n\<lparr>n_InDegree := n_InDegree n + 1, n_Degree := n_Degree n + 1\<rparr>"
  let ?ns1 = "AList.update from (?bump_out a) (g_nodes g)"
  obtain b1 where b1: "map_of ?ns1 to = Some b1" using ab by (cases "to = from") auto
  let ?ns2 = "AList.update to (?bump_in b1) ?ns1"
  have look: "map_of ?ns2 k = map_option (count_link from to k) (map_of (g_nodes g) k)" for k
    using ab b1 by (cases "k = from \<or> k = to") (auto simp: count_link_def option.map_ident split: if_splits)
  have ns: "wf_gomap ?ns2" "dom (map_of ?ns2) = dom (map_of (g_nodes g))"
    using wf look by (auto simp: wf_graph_iff dom_def)
  have ids: "n_ID n = k \<and> wf_attributes n" if "map_of ?ns2 k = Some n" for k n
    using that wf look by (auto simp: wf_graph_iff)
  obtain out' in' where link: "gmodify from (AList.update to True) (g_out g) = Some out'"
    "gmodify to (AList.update from True) (g_in g) = Some in'"
    and wf': "\<And>g'. g' = g\<lparr>g_nodes := ?ns2, g_edges := AList.update (edgeKey from to) e (g_edges g),
           g_out := out', g_in := in'\<rparr> \<Longrightarrow> wf_graph g' \<and>
           (\<forall>k. length (OutNeighbors k g') = length (OutNeighbors k g) + (if k = from then 1 else 0)) \<and>
           (\<forall>k. length (InNeighbors k g') = length (InNeighbors k g) + (if k = to then 1 else 0))"
    by (rule wf_link [OF wf nodes fresh e ns ids]) blast+
  let ?g = "g\<lparr>g_nodes := ?ns2, g_edges := AList.update (edgeKey from to) e (g_edges g), g_out := out', g_in := in'\<rparr>"
  show thesis
  proof (rule that [of ?g])
    show "link_edge from to e g = Some ?g"
      by (simp add: link_edge_def link gmodify_Some [OF ab(1)] gmodify_Some [OF b1])
    show "map_of (g_nodes ?g) k = map_option (count_link from to k) (map_of (g_nodes g) k)" for k
      using look by simp
  qed (use wf' [OF refl] in auto)
qed

lemma map_of_ensure_node:
  "map_of (g_nodes (ensure_node nid ts g)) k =
     (if k = nid \<and> map_of (g_nodes g) nid = None then Some (fresh_node nid ts) else map_of (g_nodes g) k)"
  by (auto simp: ensure_node_def map_of_AddNode fresh_node_def split: option.split)

lemma ensure_node_frame:
  "g_edges (ensure_node nid ts g) = g_edges g"
  "edge_pairs (ensure_node nid ts g) = edge_pairs g"
  "OutNeighbors u (ensure_node nid ts g) = OutNeighbors u g"
  "InNeighbors u (ensure_node nid ts g) = InNeighbors u g"
  by (auto simp: ensure_node_def AddNode_frame split: option.split)

lemma wf_ensure_node [intro]: "wf_graph g \<Longrightarrow> wf_graph (ensure_node nid ts g)"
  by (auto simp: ensure_node_def wf_AddNode split: option.split)

lemma bump_edge_fields [simp]:
  "e_From (bump_edge w ts e) = e_From e" "e_To (bump_edge w ts e) = e_To e"
  "e_Type (bump_edge w ts e) = e_Type e" "e_Weight (bump_edge w ts e) = e_Weight e + w"
  "e_Count (bump_edge w ts e) = e_Count e + 1"
  "e_LastSeen (bump_edge w ts e) = max (e_LastSeen e) ts"
  "e_FirstSeen (bump_edge w ts e) = min (e_FirstSeen e) ts"
  by (auto simp: bump_edge_def Let_def)

lemma fresh_edge_fields [simp]:
  "e_From (fresh_edge u v w ty ts) = u" "e_To (fresh_edge u v w ty ts) = v"
  "e_Type (fresh_edge u v w ty ts) = ty" "e_Weight (fresh_edge u v w ty ts) = w"
  "e_Count (fresh_edge u v w ty ts) = 1"
  "e_LastSeen (fresh_edge u v w ty ts) = ts" "e_FirstSeen (fresh_edge u v w ty ts) = ts"
  by (auto simp: fresh_edge_def)

lemma EdgeData_eqI:
  fixes a b :: EdgeData
  assumes "e_From a = e_From b" and "e_To a = e_To b" and "e_Weight a = e_Weight b" and "e_Type a = e_Type b"
    and "e_Count a = e_Count b" and "e_FirstSeen a = e_FirstSeen b" and "e_LastSeen a = e_LastSeen b"
  shows "a = b"
  using assms by simp

text \<open>What \<open>AddEdge\<close> stores under the edge's key, and what it makes of the node \<open>k\<close>.\<close>

definition edge_after :: "string \<Rightarrow> string \<Rightarrow> real \<Rightarrow> string \<Rightarrow> time \<Rightarrow> EdgeData option \<Rightarrow> EdgeData" where
  "edge_after from to w ty ts old =
     (case old of None \<Rightarrow> fresh_edge from to w ty ts | Some e \<Rightarrow> bump_edge w ts e)"

definition node_after ::
  "string \<Rightarrow> string \<Rightarrow> time \<Rightarrow> bool \<Rightarrow> string \<Rightarrow> NodeData option \<Rightarrow> NodeData option" where
  "node_after from to ts new k old =
     (let present = (case old of Some n \<Rightarrow> Some n
                     | None \<Rightarrow> if k = from \<or> k = to then Some (fresh_node k ts) else None)
      in if new then map_option (count_link from to k) present else present)"

lemma AddEdge_correct:
  assumes wf: "wf_graph g"
  obtains g' where "AddEdge from to w ty ts g = Some g'" and "wf_graph g'"
    and "map_of (g_edges g') = (map_of (g_edges g))
           (edgeKey from to \<mapsto> edge_after from to w ty ts (map_of (g_edges g) (edgeKey from to)))"
    and "\<And>k. map_of (g_nodes g') k =
           node_after from to ts (map_of (g_edges g) (edgeKey from to) = None) k (map_of (g_nodes g) k)"
    and "\<And>k. length (OutNeighbors k g') = length (OutNeighbors k g) +
           (if k = from \<and> map_of (g_edges g) (edgeKey from to) = None then 1 else 0)"
    and "\<And>k. length (InNeighbors k g') = length (InNeighbors k g) +
           (if k = to \<and> map_of (g_edges g) (edgeKey from to) = None then 1 else 0)"
proof -
  let ?g = "ensure_node to ts (ensure_node from ts g)"
  have wf': "wf_graph ?g" using wf by blast
  have edges: "g_edges ?g = g_edges g" by (simp add: ensure_node_frame)
  have look: "map_of (g_nodes ?g) k = node_after from to ts False k (map_of (g_nodes g) k)" for k
    by (auto simp: map_of_ensure_node node_after_def split: option.splits)
  show thesis
  proof (cases "map_of (g_edges g) (edgeKey from to)")
    case None
    have ends: "from \<in> dom (map_of (g_nodes ?g))" "to \<in> dom (map_of (g_nodes ?g))"
      by (auto simp: map_of_ensure_node)
    have fresh: "map_of (g_edges ?g) (edgeKey from to) = None" using None edges by simp
    obtain g' where g': "link_edge from to (fresh_edge from to w ty ts) ?g = Some g'" "wf_graph g'"
      "map_of (g_edges g') = (map_of (g_edges ?g))(edgeKey from to \<mapsto> fresh_edge from to w ty ts)"
      "\<And>k. map_of (g_nodes g') k = map_option (count_link from to k) (map_of (g_nodes ?g) k)"
      "\<And>k. length (OutNeighbors k g') = length (OutNeighbors k ?g) + (if k = from then 1 else 0)"
      "\<And>k. length (InNeighbors k g') = length (InNeighbors k ?g) + (if k = to then 1 else 0)"
      by (rule link_edge_correct [OF wf' ends fresh fresh_edge_fields(1,2) [of "from" to w ty ts]]) blast
    show thesis
    proof (rule that [of g'])
      show "map_of (g_nodes g') k = node_after from to ts (map_of (g_edges g) (edgeKey from to) = None) k
          (map_of (g_nodes g) k)" for k
        by (simp add: g'(4) look None node_after_def)
    qed (use g' None edges in \<open>auto simp: AddEdge_def edge_after_def ensure_node_frame Let_def\<close>)
  next
    case (Some e)
    let ?g' = "?g\<lparr>g_edges := AList.update (edgeKey from to) (bump_edge w ts e) (g_edges ?g)\<rparr>"
    have stored: "(e_From e, e_To e) \<in> edge_pairs ?g" "wf_gomap (g_edges ?g)"
      using wf' Some edges by (auto simp: edge_pairs_iff wf_graph_iff)
    have pairs: "edge_pairs ?g' = edge_pairs ?g"
      using edge_pairs_update [of ?g ?g' "edgeKey from to" "bump_edge w ts e"] stored Some edges
      by (simp add: insert_absorb)
    have wf'': "wf_graph ?g'"
      using wf' Some edges unfolding wf_graph_iff pairs by auto
    show thesis
      by (rule that [of ?g'])
        (use wf'' Some edges look in \<open>auto simp: AddEdge_def edge_after_def ensure_node_frame Let_def\<close>)
  qed
qed

subsection \<open>What AddEdge preserves\<close>

lemma AddEdge_total: "wf_graph g \<Longrightarrow> AddEdge from to w ty ts g \<noteq> None"
  by (rule AddEdge_correct [of g "from" to w ty ts]) auto

lemma AddEdge_wf: "AddEdge from to w ty ts g = Some g' \<Longrightarrow> wf_graph g \<Longrightarrow> wf_graph g'"
  by (rule AddEdge_correct [of g "from" to w ty ts]) auto

lemma AddEdge_edges:
  "AddEdge from to w ty ts g = Some g' \<Longrightarrow> wf_graph g \<Longrightarrow>
   map_of (g_edges g') = (map_of (g_edges g))
     (edgeKey from to \<mapsto> edge_after from to w ty ts (map_of (g_edges g) (edgeKey from to)))"
  by (rule AddEdge_correct [of g "from" to w ty ts]) auto

lemma AddEdge_nodes:
  "AddEdge from to w ty ts g = Some g' \<Longrightarrow> wf_graph g \<Longrightarrow>
   map_of (g_nodes g') k =
     node_after from to ts (map_of (g_edges g) (edgeKey from to) = None) k (map_of (g_nodes g) k)"
  by (rule AddEdge_correct [of g "from" to w ty ts]) auto

lemma AddEdge_dom:
  "AddEdge from to w ty ts g = Some g' \<Longrightarrow> wf_graph g \<Longrightarrow>
   dom (map_of (g_nodes g')) = dom (map_of (g_nodes g)) \<union> {from, to}"
  by (auto simp: dom_def AddEdge_nodes node_after_def Let_def split: option.splits if_splits)

lemma AddEdge_neighbour_counts:
  assumes "AddEdge from to w ty ts g = Some g'" and "wf_graph g"
  shows "length (OutNeighbors k g') = length (OutNeighbors k g) +
           (if k = from \<and> map_of (g_edges g) (edgeKey from to) = None then 1 else 0)"
    and "length (InNeighbors k g') = length (InNeighbors k g) +
           (if k = to \<and> map_of (g_edges g) (edgeKey from to) = None then 1 else 0)"
  using assms by - (rule AddEdge_correct [of g "from" to w ty ts]; simp)+

lemma AddEdge_ids_nul_free:
  "AddEdge from to w ty ts g = Some g' \<Longrightarrow> wf_graph g \<Longrightarrow> ids_nul_free g \<Longrightarrow>
   nul_free from \<Longrightarrow> nul_free to \<Longrightarrow> ids_nul_free g'"
  by (auto simp: ids_nul_free_def keys_eq_dom AddEdge_dom)

lemma no_neighbors_of_absent:
  "wf_graph g \<Longrightarrow> map_of (g_nodes g) k = None \<Longrightarrow> OutNeighbors k g = [] \<and> InNeighbors k g = []"
  by (auto simp: wf_graph_iff OutNeighbors_def InNeighbors_def adjacent_def dom_def set_eq_iff
      split: option.split simp del: not_None_eq)
    (metis option.distinct(1))+

lemma AddEdge_degrees_ok:
  assumes add: "AddEdge from to w ty ts g = Some g'" and wf: "wf_graph g" and deg: "degrees_ok g"
  shows "degrees_ok g'"
proof -
  have "wf_gomap (g_nodes g)" "wf_gomap (g_nodes g')"
    using wf AddEdge_wf [OF add wf] by (auto simp: wf_graph_iff)
  with deg show ?thesis
    by (auto simp: degrees_ok_iff AddEdge_nodes [OF add wf] AddEdge_neighbour_counts [OF add wf]
        node_after_def Let_def count_link_def fresh_node_def no_neighbors_of_absent [OF wf]
        split: option.splits if_splits)
qed

lemma GetEdge_endpoints:
  assumes "wf_graph g" and "ids_nul_free g" and "nul_free u" and "GetEdge u v g = Some e"
  shows "e_From e = u" and "e_To e = v"
proof -
  from assms have "edgeKey u v = edgeKey (e_From e) (e_To e)" "nul_free (e_From e)"
    by (auto simp: GetEdge_def wf_graph_iff ids_nul_free_def keys_eq_dom)
  with assms(3) show "e_From e = u" and "e_To e = v" by (simp_all add: edgeKey_inject)
qed

lemma GetEdge_AddEdge:
  assumes add: "AddEdge from to w ty ts g = Some g'" and wf: "wf_graph g" and nul: "nul_free from" "nul_free u"
  shows "GetEdge u v g' = (if u = from \<and> v = to then Some (edge_after from to w ty ts (GetEdge from to g))
                           else GetEdge u v g)"
  using nul by (simp add: GetEdge_def AddEdge_edges [OF add wf] edgeKey_inject)

section \<open>Neighbour queries\<close>

lemma OutNeighbors_pairs: "wf_graph g \<Longrightarrow> v \<in> set (OutNeighbors u g) \<longleftrightarrow> (u, v) \<in> edge_pairs g"
  using wf_adjacencyD(1) [of "g_out g" "edge_pairs g" u v] no_neighbors_of_absent [of g u] edge_pairs_nodes [of g u v]
  by (cases "map_of (g_nodes g) u") (auto simp: wf_graph_iff OutNeighbors_def)

lemma InNeighbors_pairs: "wf_graph g \<Longrightarrow> v \<in> set (InNeighbors u g) \<longleftrightarrow> (v, u) \<in> edge_pairs g"
  using wf_adjacencyD(1) [of "g_in g" "prod.swap ` edge_pairs g" u v] no_neighbors_of_absent [of g u]
    edge_pairs_nodes [of g v u]
  by (cases "map_of (g_nodes g) u") (auto simp: wf_graph_iff InNeighbors_def)

lemma distinct_neighbors:
  "wf_graph g \<Longrightarrow> distinct (OutNeighbors u g)" "wf_graph g \<Longrightarrow> distinct (InNeighbors u g)"
  by (auto simp: wf_graph_iff OutNeighbors_def InNeighbors_def dest: wf_adjacencyD(2))

lemma Neighbors_correct:
  "set (Neighbors u g) = set (OutNeighbors u g) \<union> set (InNeighbors u g)" "distinct (Neighbors u g)"
proof -
  let ?s = "fold visit_unseen (OutNeighbors u g) ([], [])"
  have s: "seen_agrees ?s \<and> set (snd ?s) = set (OutNeighbors u g)"
    using visit_unseen_loop [OF seen_agrees_start, of "OutNeighbors u g"] by simp
  with visit_unseen_loop [of ?s "InNeighbors u g"]
  show "set (Neighbors u g) = set (OutNeighbors u g) \<union> set (InNeighbors u g)" "distinct (Neighbors u g)"
    by (auto simp: Neighbors_def OutNeighbors_def InNeighbors_def seen_agrees_def)
qed

lemma OutNeighbors_GetEdge:
  assumes "wf_graph g" and "ids_nul_free g" and "nul_free u"
  shows "v \<in> set (OutNeighbors u g) \<longleftrightarrow> GetEdge u v g \<noteq> None"
  using assms GetEdge_endpoints [OF assms]
  by (auto simp: OutNeighbors_pairs edge_pairs_key GetEdge_def)

lemma card_edge_pairs:
  assumes "wf_graph g"
  shows "card (edge_pairs g) = EdgeCount g"
proof -
  have "inj_on (\<lambda>(k, e). (e_From e, e_To e)) (set (g_edges g))"
  proof (rule inj_onI, clarify)
    fix k e k' e'
    assume "(k, e) \<in> set (g_edges g)" and "(k', e') \<in> set (g_edges g)"
      and same: "e_From e = e_From e'" "e_To e = e_To e'"
    with assms have look: "map_of (g_edges g) k = Some e" "map_of (g_edges g) k' = Some e'"
      by (simp_all add: wf_graphD entry_iff_lookup)
    with wf_graphD(3) [OF assms look(1)] wf_graphD(3) [OF assms look(2)] same have "k = k'" by simp
    with look show "k = k' \<and> e = e'" by simp
  qed
  then have "card (edge_pairs g) = card (set (g_edges g))"
    by (simp add: edge_pairs_def card_image)
  also have "\<dots> = EdgeCount g"
    using wf_graphD(2) [OF assms] distinct_card [of "g_edges g"] by (simp add: EdgeCount_def distinct_map)
  finally show ?thesis .
qed

section \<open>Graphs built by the operations\<close>

text \<open>The graphs callers can build: nodes are inserted with zero degrees, edges through \<open>AddEdge\<close>.\<close>

inductive built :: "Graph \<Rightarrow> bool" where
  built_New: "built New"
| built_AddNode: "built g \<Longrightarrow> wf_attributes n \<Longrightarrow> n_Degree n = 0 \<Longrightarrow> n_InDegree n = 0 \<Longrightarrow> n_OutDegree n = 0 \<Longrightarrow>
    built (AddNode n g)"
| built_AddEdge: "built g \<Longrightarrow> AddEdge from to w ty ts g = Some g' \<Longrightarrow> built g'"

lemma AddNode_degrees_ok:
  assumes "wf_graph g" and "degrees_ok g" and "wf_attributes n"
    and "n_Degree n = 0" and "n_InDegree n = 0" and "n_OutDegree n = 0"
  shows "degrees_ok (AddNode n g)"
proof -
  have "wf_gomap (g_nodes g)" "wf_gomap (g_nodes (AddNode n g))"
    using assms wf_AddNode [OF assms(1,3)] by (auto simp: wf_graph_iff)
  with assms show ?thesis
    by (auto simp: degrees_ok_iff map_of_AddNode AddNode_frame no_neighbors_of_absent [OF assms(1)]
        split: option.splits if_splits)
qed

lemma built_invariant: "built g \<Longrightarrow> wf_graph g \<and> degrees_ok g"
proof (induction rule: built.induct)
  case built_New
  show ?case by (simp add: wf_New)
next
  case (built_AddNode g n)
  then show ?case by (simp add: wf_AddNode AddNode_degrees_ok)
next
  case (built_AddEdge g "from" to w ty ts g')
  then show ?case using AddEdge_wf AddEdge_degrees_ok by blast
qed

lemma sum_over_nodes:
  "wf_gomap m \<Longrightarrow> sum_list (map (f \<circ> snd) m) = (\<Sum>k \<in> dom (map_of m). f (the (map_of m k)))"
proof (induction m)
  case (Cons x m)
  obtain k v where x: "x = (k, v)" by force
  with Cons.prems have k: "k \<notin> dom (map_of m)" by (simp add: dom_map_of_conv_image_fst)
  then have "(\<Sum>j \<in> dom (map_of m). f (the (((map_of m)(k \<mapsto> v)) j))) = (\<Sum>j \<in> dom (map_of m). f (the (map_of m j)))"
    by (intro sum.cong) auto
  then have "(\<Sum>j \<in> insert k (dom (map_of m)). f (the (((map_of m)(k \<mapsto> v)) j))) =
      f v + (\<Sum>j \<in> dom (map_of m). f (the (map_of m j)))"
    using k by (simp add: finite_dom_map_of)
  moreover have "map_of (x # m) = (map_of m)(k \<mapsto> v)" by (auto simp: x)
  ultimately show ?case using Cons x by (simp del: fun_upd_apply)
qed simp

lemma sum_card_fibres:
  assumes "finite K" and "finite ps" and "fst ` ps \<subseteq> K"
  shows "(\<Sum>k \<in> K. card {v. (k, v) \<in> ps}) = card ps"
proof -
  have fin: "finite {v. (k, v) \<in> ps}" for k
    by (rule finite_subset [of _ "snd ` ps"]) (use assms(2) in force)+
  have "ps = (SIGMA k:K. {v. (k, v) \<in> ps})" using assms(3) by force
  moreover have "card (SIGMA k:K. {v. (k, v) \<in> ps}) = (\<Sum>k \<in> K. card {v. (k, v) \<in> ps})"
    using fin by (intro card_SigmaI [OF assms(1)]) blast
  ultimately show ?thesis by simp
qed

lemma handshake:
  assumes "wf_graph g" and "degrees_ok g"
  shows "sum_list (map (n_OutDegree \<circ> snd) (g_nodes g)) = int (EdgeCount g)"
    and "sum_list (map (n_InDegree \<circ> snd) (g_nodes g)) = int (EdgeCount g)"
    and "sum_list (map (n_Degree \<circ> snd) (g_nodes g)) = 2 * int (EdgeCount g)"
proof -
  let ?K = "dom (map_of (g_nodes g))" and ?ps = "edge_pairs g"
  note wf = assms(1)
  have deg: "n_OutDegree n = int (length (OutNeighbors k g)) \<and> n_InDegree n = int (length (InNeighbors k g)) \<and>
      n_Degree n = n_OutDegree n + n_InDegree n" if "map_of (g_nodes g) k = Some n" for k n
    using assms(2) that unfolding degrees_ok_iff [OF wf_graphD(1) [OF wf]] by blast
  have out: "length (OutNeighbors k g) = card {v. (k, v) \<in> ?ps}" for k
    using distinct_card [OF distinct_neighbors(1) [OF wf]] OutNeighbors_pairs [OF wf]
    by (metis (no_types, lifting) Collect_cong Collect_mem_eq)
  have inn: "length (InNeighbors k g) = card {v. (k, v) \<in> prod.swap ` ?ps}" for k
  proof -
    have "set (InNeighbors k g) = {v. (k, v) \<in> prod.swap ` ?ps}"
      using InNeighbors_pairs [OF wf] by (auto simp: set_eq_iff)
    then show ?thesis using distinct_card [OF distinct_neighbors(2) [OF wf]] by metis
  qed
  have fin: "finite ?ps" "finite (prod.swap ` ?ps)" by (simp_all add: edge_pairs_def)
  have sub: "fst ` ?ps \<subseteq> ?K" "fst ` prod.swap ` ?ps \<subseteq> ?K"
    using edge_pairs_nodes [OF wf] by force+
  have cardswap: "card (prod.swap ` ?ps) = card ?ps" by (simp add: card_image)
  show o: "sum_list (map (n_OutDegree \<circ> snd) (g_nodes g)) = int (EdgeCount g)"
  proof -
    have "(\<Sum>k \<in> ?K. n_OutDegree (the (map_of (g_nodes g) k))) = (\<Sum>k \<in> ?K. int (card {v. (k, v) \<in> ?ps}))"
      using deg out by (intro sum.cong) auto
    with sum_card_fibres [OF finite_dom_map_of fin(1) sub(1)] card_edge_pairs [OF wf]
    show ?thesis by (simp add: sum_over_nodes wf_graphD(1) [OF wf] flip: of_nat_sum)
  qed
  show i: "sum_list (map (n_InDegree \<circ> snd) (g_nodes g)) = int (EdgeCount g)"
  proof -
    have "(\<Sum>k \<in> ?K. n_InDegree (the (map_of (g_nodes g) k))) =
        (\<Sum>k \<in> ?K. int (card {v. (k, v) \<in> prod.swap ` ?ps}))"
      using deg inn by (intro sum.cong) auto
    with sum_card_fibres [OF finite_dom_map_of fin(2) sub(2)] card_edge_pairs [OF wf] cardswap
    show ?thesis by (simp add: sum_over_nodes wf_graphD(1) [OF wf] flip: of_nat_sum)
  qed
  have "(\<Sum>k \<in> ?K. n_Degree (the (map_of (g_nodes g) k))) =
      (\<Sum>k \<in> ?K. n_OutDegree (the (map_of (g_nodes g) k)) + n_InDegree (the (map_of (g_nodes g) k)))"
    using deg by (intro sum.cong) auto
  with o i show "sum_list (map (n_Degree \<circ> snd) (g_nodes g)) = 2 * int (EdgeCount g)"
    by (simp add: sum_over_nodes wf_graphD(1) [OF wf] sum.distrib)
qed

section \<open>Properties\<close>

text \<open>
  C1. Every graph built from \<open>New\<close> by \<open>AddNode\<close> (with zero degrees) and \<open>AddEdge\<close> is well formed: the
  adjacency maps mirror the edge map, the degree counters count the neighbours, the degrees sum
  to the number of edges (handshake), and the next \<open>AddEdge\<close> does not panic.
\<close>

theorem built_graphs_consistent:
  assumes "built g"
  shows "wf_graph g \<and> degrees_ok g \<and> AddEdge from to w ty ts g \<noteq> None \<and>
       sum_list (map (n_OutDegree \<circ> snd) (g_nodes g)) = int (EdgeCount g) \<and>
       sum_list (map (n_InDegree \<circ> snd) (g_nodes g)) = int (EdgeCount g) \<and>
       sum_list (map (n_Degree \<circ> snd) (g_nodes g)) = 2 * int (EdgeCount g)"
  using built_invariant [OF assms] by (simp only: handshake AddEdge_total simp_thms not_False_eq_True)

definition sample_graph :: Graph where
  "sample_graph = the (Option.bind (AddEdge ''a'' ''b'' 2 [] 5 New) (AddEdge ''b'' ''a'' 3 [] 6))"

lemma sample_graph_built: "built sample_graph" and sample_graph_nul_free: "ids_nul_free sample_graph"
proof -
  obtain g where g: "AddEdge ''a'' ''b'' 2 [] 5 New = Some g"
    using AddEdge_total [OF wf_New(1)] by fastforce
  then have b: "built g" using built_AddEdge [OF built_New] by blast
  obtain g' where g': "AddEdge ''b'' ''a'' 3 [] 6 g = Some g'"
    using AddEdge_total built_invariant [OF b] by fastforce
  have "nul_free ''a''" "nul_free ''b''" by (simp_all add: nul_free_def)
  with g g' b built_AddEdge [OF b] show "built sample_graph" "ids_nul_free sample_graph"
    by (auto simp: sample_graph_def built_invariant dest!: AddEdge_ids_nul_free)
qed

lemmas sample_graph_ok = built_invariant [OF sample_graph_built] sample_graph_nul_free

theorem built_graphs_consistent_witness:
  "built sample_graph \<and> sum_list (map (n_OutDegree \<circ> snd) (g_nodes sample_graph)) = int (EdgeCount sample_graph)"
  using built_graphs_consistent [OF sample_graph_built] sample_graph_built by simp

text \<open>
  C2. \<open>AddEdge\<close> on a well-formed graph, the new source holding no NUL byte: the edge from \<open>from\<close> to \<open>to\<close>
  is created with count 1, or has the weight added, the count incremented and the time span
  widened while its type stays; every edge looked up with a NUL-free source is otherwise
  unchanged; exactly the two endpoints are present afterwards in addition.
\<close>

theorem AddEdge_lookup:
  assumes "wf_graph g" and "nul_free from" and "nul_free u"
  shows "\<exists>g'. AddEdge from to w ty ts g = Some g' \<and>
       GetEdge u v g' =
         (if u = from \<and> v = to then
            Some (case GetEdge from to g of
                    None \<Rightarrow> \<lparr>e_From = from, e_To = to, e_Weight = w, e_Type = ty, e_Count = 1,
                             e_FirstSeen = ts, e_LastSeen = ts\<rparr>
                  | Some e \<Rightarrow> e\<lparr>e_Weight := e_Weight e + w, e_Count := e_Count e + 1,
                                 e_FirstSeen := min (e_FirstSeen e) ts, e_LastSeen := max (e_LastSeen e) ts\<rparr>)
          else GetEdge u v g) \<and>
       (GetNode u g' \<noteq> None \<longleftrightarrow> GetNode u g \<noteq> None \<or> u = from \<or> u = to)"
proof -
  obtain g' where add: "AddEdge from to w ty ts g = Some g'" using AddEdge_total [OF assms(1)] by fastforce
  have bump: "bump_edge w ts e = e\<lparr>e_Weight := e_Weight e + w, e_Count := e_Count e + 1,
      e_FirstSeen := min (e_FirstSeen e) ts, e_LastSeen := max (e_LastSeen e) ts\<rparr>" for e
    by (rule EdgeData_eqI) simp_all
  have "u \<in> dom (map_of (g_nodes g')) \<longleftrightarrow> u \<in> dom (map_of (g_nodes g)) \<union> {from, to}"
    using AddEdge_dom [OF add assms(1)] by simp
  with GetEdge_AddEdge [OF add assms] add show ?thesis
    by (auto simp: GetNode_def edge_after_def bump fresh_edge_def dom_def split: option.split)
qed

theorem AddEdge_lookup_witness:
  "\<exists>g'. AddEdge ''a'' ''b'' 2 [] 5 New = Some g' \<and> GetEdge ''b'' ''a'' g' = None"
  using AddEdge_lookup [OF wf_New(1), of "''a''" "''b''" "''b''" 2 "[]" 5 "''a''"]
  by (auto simp: nul_free_def GetEdge_def New_def)

text \<open>
  Identifiers that hold a NUL byte collide in the edge map: after adding an edge from
  \<open>x NUL y\<close> to \<open>z\<close> to the empty graph, adding an edge from \<open>x\<close> to \<open>y NUL z\<close> is taken for the same
  edge. There is one edge, with the summed weight and the first edge's endpoints, although
  four nodes exist, and \<open>x\<close> has no neighbour.
\<close>

theorem AddEdge_nul_collision:
  assumes "y \<noteq> []"
  shows "\<exists>g1 g2. AddEdge (x @ CHR 0x00 # y) z w ty ts New = Some g1 \<and>
       AddEdge x (y @ CHR 0x00 # z) w' ty' ts' g1 = Some g2 \<and> EdgeCount g2 = 1 \<and>
       GetEdge x (y @ CHR 0x00 # z) g2 = Some \<lparr>e_From = x @ CHR 0x00 # y, e_To = z, e_Weight = w + w', e_Type = ty,
         e_Count = 2, e_FirstSeen = min ts ts', e_LastSeen = max ts ts'\<rparr> \<and>
       GetNode x g2 \<noteq> None \<and> GetNode (y @ CHR 0x00 # z) g2 \<noteq> None \<and> OutNeighbors x g2 = []"
proof -
  let ?a = "x @ CHR 0x00 # y" and ?b = "y @ CHR 0x00 # z"
  have key: "edgeKey ?a z = edgeKey x ?b" by (simp add: edgeKey_def)
  obtain g1 where g1: "AddEdge ?a z w ty ts New = Some g1" using AddEdge_total [OF wf_New(1)] by fastforce
  note wf1 = AddEdge_wf [OF g1 wf_New(1)]
  obtain g2 where g2: "AddEdge x ?b w' ty' ts' g1 = Some g2" using AddEdge_total [OF wf1] by fastforce
  note wf2 = AddEdge_wf [OF g2 wf1]
  have e1: "map_of (g_edges g1) = [edgeKey x ?b \<mapsto> fresh_edge ?a z w ty ts]"
    by (simp add: AddEdge_edges [OF g1 wf_New(1)] edge_after_def key New_def)
  then have e2: "map_of (g_edges g2) = [edgeKey x ?b \<mapsto> bump_edge w' ts' (fresh_edge ?a z w ty ts)]"
    by (simp add: AddEdge_edges [OF g2 wf1] edge_after_def)
  have "EdgeCount g2 = 1"
    using length_gomap_card [OF wf_graphD(2) [OF wf2]] by (simp add: EdgeCount_def e2)
  moreover have "edge_pairs g2 = {(?a, z)}"
    by (simp add: edge_pairs_ran wf_graphD(2) [OF wf2] e2)
  then have "v \<notin> set (OutNeighbors x g2)" for v
    by (simp add: OutNeighbors_pairs [OF wf2])
  then have "OutNeighbors x g2 = []" by (cases "OutNeighbors x g2") (simp, metis list.set_intros(1))
  moreover have "x \<in> dom (map_of (g_nodes g2))" "?b \<in> dom (map_of (g_nodes g2))"
    by (simp_all add: AddEdge_dom [OF g2 wf1])
  moreover have "bump_edge w' ts' (fresh_edge ?a z w ty ts) = \<lparr>e_From = ?a, e_To = z, e_Weight = w + w',
      e_Type = ty, e_Count = 2, e_FirstSeen = min ts ts', e_LastSeen = max ts ts'\<rparr>"
    by (rule EdgeData_eqI) simp_all
  ultimately show ?thesis using g1 g2 e2 by (auto simp: GetEdge_def GetNode_def)
qed

theorem AddEdge_nul_collision_witness:
  "\<exists>g1 g2. AddEdge [CHR ''a'', CHR 0x00, CHR ''b''] ''c'' 1 [] 5 New = Some g1 \<and>
     AddEdge ''a'' [CHR ''b'', CHR 0x00, CHR ''c''] 2 [] 6 g1 = Some g2 \<and> EdgeCount g2 = 1"
  using AddEdge_nul_collision [of "''b''" "''a''" "''c''" 1 "[]" 5 2 "[]" 6] by auto

end
