(* ===== verification/Graph_Immutable.thy ===== *)
theory Graph_Immutable
  imports Graph_Store
begin

text \<open>
  \<open>graph/immutable.go\<close>: the copy-on-write graph. \<open>deepCopyGraph\<close> rebuilds the four maps of its
  argument (and panics if an edge has an endpoint without a node); \<open>WithEvent\<close> copies, adds the
  event's edge and widens the seen interval of its two nodes. The theorems show that the copy
  is the same graph, and give \<open>WithEvent\<close> in terms of the lookups of its argument.
\<close>

section \<open>Operations\<close>

text \<open>The copy of a node: field by field, with a fresh map for the attributes.\<close>

definition copy_node :: "NodeData \<Rightarrow> NodeData" where
  "copy_node n = \<lparr>n_ID = n_ID n, n_Type = n_Type n, n_Degree = n_Degree n, n_InDegree = n_InDegree n,
     n_OutDegree = n_OutDegree n,
     n_Attributes = (case n_Attributes n of None \<Rightarrow> None
                     | Some attrs \<Rightarrow> Some (fold (\<lambda>(k, v). AList.update k v) attrs [])),
     n_FirstSeen = n_FirstSeen n, n_LastSeen = n_LastSeen n\<rparr>"

definition copy_node_into :: "NodeData \<Rightarrow> Graph \<Rightarrow> Graph" where
  "copy_node_into n dst = (let cp = copy_node n in
     dst\<lparr>g_nodes := AList.update (n_ID cp) cp (g_nodes dst),
         g_out := ensure_adjacency (n_ID cp) (g_out dst),
         g_in := ensure_adjacency (n_ID cp) (g_in dst)\<rparr>)"

definition copy_edge :: "EdgeData \<Rightarrow> EdgeData" where
  "copy_edge e = \<lparr>e_From = e_From e, e_To = e_To e, e_Weight = e_Weight e, e_Type = e_Type e,
     e_Count = e_Count e, e_FirstSeen = e_FirstSeen e, e_LastSeen = e_LastSeen e\<rparr>"

definition copy_edge_into :: "EdgeData \<Rightarrow> Graph \<Rightarrow> Graph option" where
  "copy_edge_into e dst = (let cp = copy_edge e in do {
     out \<leftarrow> gmodify (e_From cp) (AList.update (e_To cp) True) (g_out dst);
     inn \<leftarrow> gmodify (e_To cp) (AList.update (e_From cp) True) (g_in dst);
     Some (dst\<lparr>g_edges := AList.update (edgeKey (e_From cp) (e_To cp)) cp (g_edges dst),
               g_out := out, g_in := inn\<rparr>)
   })"

definition deepCopyGraph :: "Graph \<Rightarrow> Graph option" where
  "deepCopyGraph src =
     (let dst = ForEachNode (\<lambda>n dst. (copy_node_into n dst, True)) src New
      in ForEachEdge (\<lambda>e dst. (Option.bind dst (copy_edge_into e), True)) src (Some dst))"

record ImmutableGraph =
  inner :: Graph

definition NewImmutable :: "Graph \<Rightarrow> ImmutableGraph option" where
  "NewImmutable src = map_option (\<lambda>g. \<lparr>inner = g\<rparr>) (deepCopyGraph src)"

definition NewImmutableEmpty :: ImmutableGraph where
  "NewImmutableEmpty = \<lparr>inner = New\<rparr>"

text \<open>The widening of a node's seen interval, through the pointer \<open>GetNode\<close> returns.\<close>

definition widen_seen :: "time \<Rightarrow> NodeData \<Rightarrow> NodeData" where
  "widen_seen ts n =
     (let n1 = (if ts < n_FirstSeen n \<or> n_FirstSeen n = 0 then n\<lparr>n_FirstSeen := ts\<rparr> else n)
      in if ts > n_LastSeen n1 then n1\<lparr>n_LastSeen := ts\<rparr> else n1)"

definition touch_node :: "string \<Rightarrow> time \<Rightarrow> Graph \<Rightarrow> Graph" where
  "touch_node nid ts g = (case GetNode nid g of
     Some n \<Rightarrow> g\<lparr>g_nodes := AList.update nid (widen_seen ts n) (g_nodes g)\<rparr> | None \<Rightarrow> g)"

definition WithEvent ::
  "string \<Rightarrow> string \<Rightarrow> real \<Rightarrow> string \<Rightarrow> time \<Rightarrow> ImmutableGraph \<Rightarrow> ImmutableGraph option" where
  "WithEvent from to weight edgeType ts ig = do {
     cp \<leftarrow> deepCopyGraph (inner ig);
     cp1 \<leftarrow> AddEdge from to weight edgeType ts cp;
     Some \<lparr>inner = touch_node to ts (touch_node from ts cp1)\<rparr>
   }"

text \<open>The read methods delegate to the inner graph.\<close>

definition IG_GetNode :: "string \<Rightarrow> ImmutableGraph \<Rightarrow> NodeData option" where
  "IG_GetNode nid ig = GetNode nid (inner ig)"

definition IG_GetEdge :: "string \<Rightarrow> string \<Rightarrow> ImmutableGraph \<Rightarrow> EdgeData option" where
  "IG_GetEdge from to ig = GetEdge from to (inner ig)"

definition IG_Neighbors :: "string \<Rightarrow> ImmutableGraph \<Rightarrow> string list" where
  "IG_Neighbors nid ig = Neighbors nid (inner ig)"

definition IG_OutNeighbors :: "string \<Rightarrow> ImmutableGraph \<Rightarrow> string list" where
  "IG_OutNeighbors nid ig = OutNeighbors nid (inner ig)"

definition IG_InNeighbors :: "string \<Rightarrow> ImmutableGraph \<Rightarrow> string list" where
  "IG_InNeighbors nid ig = InNeighbors nid (inner ig)"

definition IG_NodeCount :: "ImmutableGraph \<Rightarrow> nat" where
  "IG_NodeCount ig = NodeCount (inner ig)"

definition IG_EdgeCount :: "ImmutableGraph \<Rightarrow> nat" where
  "IG_EdgeCount ig = EdgeCount (inner ig)"

definition IG_ForEachNode :: "(NodeData \<Rightarrow> 's \<Rightarrow> 's \<times> bool) \<Rightarrow> ImmutableGraph \<Rightarrow> 's \<Rightarrow> 's" where
  "IG_ForEachNode fn ig = ForEachNode fn (inner ig)"

definition IG_ForEachEdge :: "(EdgeData \<Rightarrow> 's \<Rightarrow> 's \<times> bool) \<Rightarrow> ImmutableGraph \<Rightarrow> 's \<Rightarrow> 's" where
  "IG_ForEachEdge fn ig = ForEachEdge fn (inner ig)"

lemmas IG_defs = IG_GetNode_def IG_GetEdge_def IG_Neighbors_def IG_OutNeighbors_def IG_InNeighbors_def
  IG_NodeCount_def IG_EdgeCount_def IG_ForEachNode_def IG_ForEachEdge_def

section \<open>The deep copy\<close>

lemma copy_edge_id [simp]: "copy_edge e = e"
  by (simp add: copy_edge_def)

lemma copy_node_id [simp]: "wf_attributes n \<Longrightarrow> copy_node n = n"
  by (auto simp: copy_node_def wf_attributes_def fold_update_fresh split: option.splits)

lemma copy_nodes_loop:
  assumes "\<forall>n \<in> set ns. wf_attributes n" and "wf_graph g" and "g_edges g = []"
    and "distinct (map n_ID ns)" and "n_ID ` set ns \<inter> fst ` set (g_nodes g) = {}"
  shows "wf_graph (fold copy_node_into ns g) \<and> g_edges (fold copy_node_into ns g) = [] \<and>
    g_nodes (fold copy_node_into ns g) = g_nodes g @ map (\<lambda>n. (n_ID n, n)) ns"
  using assms
proof (induction ns arbitrary: g)
  case (Cons n ns)
  then have absent: "map_of (g_nodes g) (n_ID n) = None" by (auto simp: map_of_eq_None_iff)
  with Cons.prems have step: "copy_node_into n g = AddNode n g"
    by (simp add: copy_node_into_def AddNode_def)
  from absent have nodes: "g_nodes (AddNode n g) = g_nodes g @ [(n_ID n, n)]"
    by (simp add: AddNode_def update_absent)
  with Cons.IH [of "AddNode n g"] Cons.prems step show ?case
    by (auto simp: AddNode_frame wf_AddNode)
qed simp

lemma copy_edge_into_correct:
  assumes wf: "wf_graph g" and nodes: "e_From e \<in> dom (map_of (g_nodes g))" "e_To e \<in> dom (map_of (g_nodes g))"
    and fresh: "map_of (g_edges g) (edgeKey (e_From e) (e_To e)) = None"
  shows "\<exists>g'. copy_edge_into e g = Some g' \<and> wf_graph g' \<and> g_nodes g' = g_nodes g \<and>
    g_edges g' = g_edges g @ [(edgeKey (e_From e) (e_To e), e)]"
proof (rule wf_link [OF wf nodes fresh refl refl, of "g_nodes g"])
  fix out' in'
  assume "gmodify (e_From e) (AList.update (e_To e) True) (g_out g) = Some out'"
    and "gmodify (e_To e) (AList.update (e_From e) True) (g_in g) = Some in'"
    and "\<And>g'. g' = g\<lparr>g_nodes := g_nodes g, g_edges := AList.update (edgeKey (e_From e) (e_To e)) e (g_edges g),
           g_out := out', g_in := in'\<rparr> \<Longrightarrow> wf_graph g' \<and>
           (\<forall>k. length (OutNeighbors k g') = length (OutNeighbors k g) + (if k = e_From e then 1 else 0)) \<and>
           (\<forall>k. length (InNeighbors k g') = length (InNeighbors k g) + (if k = e_To e then 1 else 0))"
  with fresh show ?thesis
    by (auto simp: copy_edge_into_def Let_def update_absent)
qed (use wf in \<open>auto simp: wf_graph_iff\<close>)

text \<open>
  The copy of a well-formed graph has the same node map and the same edge map; the adjacency
  maps are determined by them.
\<close>

lemma deepCopyGraph_correct:
  assumes "wf_graph src"
  obtains dst where "deepCopyGraph src = Some dst" and "wf_graph dst"
    and "g_nodes dst = g_nodes src" and "g_edges dst = g_edges src"
proof -
  let ?ns = "map snd (g_nodes src)" and ?es = "map snd (g_edges src)"
  have ids: "map (\<lambda>n. (n_ID n, n)) ?ns = g_nodes src"
    using assms by (auto simp: wf_graph_def intro!: map_idI)
  have keys: "map (\<lambda>e. (edgeKey (e_From e) (e_To e), e)) ?es = g_edges src"
    using assms by (auto simp: wf_graph_def intro!: map_idI)
  have id_list: "map n_ID ?ns = gkeys (g_nodes src)"
    using assms by (auto simp: wf_graph_def)
  have "distinct (map n_ID ?ns)" "\<forall>n \<in> set ?ns. wf_attributes n"
    unfolding id_list using assms by (auto simp: wf_graph_def)
  from copy_nodes_loop [OF this(2) wf_New(1) _ this(1)] ids
  have copied: "wf_graph (fold copy_node_into ?ns New)" "g_edges (fold copy_node_into ?ns New) = []"
      "g_nodes (fold copy_node_into ?ns New) = g_nodes src"
    by (auto simp: New_def)
  let ?P = "\<lambda>done g. wf_graph g \<and> g_nodes g = g_nodes src \<and>
    g_edges g = map (\<lambda>e. (edgeKey (e_From e) (e_To e), e)) done"
  have "\<exists>g. ofold copy_edge_into ?es (fold copy_node_into ?ns New) = Some g \<and> ?P ?es g"
  proof (rule ofold_rule)
    fix "done" e rest g
    assume split: "?es = done @ e # rest" and P: "?P done g"
    let ?key = "\<lambda>e. (edgeKey (e_From e) (e_To e), e)"
    have "g_edges src = map ?key done @ ?key e # map ?key rest"
      using arg_cong [OF split, of "map ?key"] keys by simp
    with wf_graphD(2) [OF assms] have new: "map_of (map ?key done) (edgeKey (e_From e) (e_To e)) = None"
      by (auto simp: map_of_eq_None_iff)
    with \<open>g_edges src = _\<close> have "map_of (g_edges src) (edgeKey (e_From e) (e_To e)) = Some e"
      by (simp add: map_add_def)
    with assms P have ends: "e_From e \<in> dom (map_of (g_nodes g))" "e_To e \<in> dom (map_of (g_nodes g))"
      using wf_graphD(4) by fastforce+
    from P new copy_edge_into_correct [OF _ ends]
    show "\<exists>g'. copy_edge_into e g = Some g' \<and> ?P (done @ [e]) g'" by auto
  qed (use copied in simp)
  then obtain g where g: "ofold copy_edge_into ?es (fold copy_node_into ?ns New) = Some g" "?P ?es g" by blast
  have "deepCopyGraph src = ofold copy_edge_into ?es (fold copy_node_into ?ns New)"
    unfolding deepCopyGraph_def ForEachNode_def ForEachEdge_def go_range_ofold Let_def
    by (simp add: go_range_fold)
  with g keys show thesis by (intro that [of g]) auto
qed

section \<open>WithEvent\<close>

lemma widen_seen_fields [simp]:
  "n_ID (widen_seen ts n) = n_ID n" "n_Type (widen_seen ts n) = n_Type n"
  "n_Degree (widen_seen ts n) = n_Degree n" "n_InDegree (widen_seen ts n) = n_InDegree n"
  "n_OutDegree (widen_seen ts n) = n_OutDegree n" "n_Attributes (widen_seen ts n) = n_Attributes n"
  "wf_attributes (widen_seen ts n) = wf_attributes n"
  "n_LastSeen (widen_seen ts n) = max (n_LastSeen n) ts"
  "n_FirstSeen (widen_seen ts n) = (if n_FirstSeen n = 0 then ts else min (n_FirstSeen n) ts)"
  by (auto simp: widen_seen_def Let_def wf_attributes_def)

lemma touch_node_frame:
  "g_edges (touch_node nid ts g) = g_edges g"
  "OutNeighbors k (touch_node nid ts g) = OutNeighbors k g"
  "InNeighbors k (touch_node nid ts g) = InNeighbors k g"
  by (auto simp: touch_node_def OutNeighbors_def InNeighbors_def split: option.split)

lemma map_of_touch_node:
  "map_of (g_nodes (touch_node nid ts g)) k =
     (if k = nid then map_option (widen_seen ts) (map_of (g_nodes g) k) else map_of (g_nodes g) k)"
  by (auto simp: touch_node_def GetNode_def split: option.split)

lemma touch_node_wf:
  "wf_graph g \<Longrightarrow> wf_graph (touch_node nid ts g)"
  "wf_graph g \<Longrightarrow> degrees_ok g \<Longrightarrow> degrees_ok (touch_node nid ts g)"
  by (auto simp: touch_node_def GetNode_def wf_graphD intro!: wf_update_node split: option.split)

text \<open>What \<open>WithEvent\<close> makes of the node \<open>k\<close>.\<close>

definition node_after_event ::
  "string \<Rightarrow> string \<Rightarrow> time \<Rightarrow> bool \<Rightarrow> string \<Rightarrow> NodeData option \<Rightarrow> NodeData option" where
  "node_after_event from to ts new k old =
     (if k = from \<or> k = to then map_option (widen_seen ts) (node_after from to ts new k old) else old)"

lemma widen_seen_idem [simp]: "widen_seen ts (widen_seen ts n) = widen_seen ts n"
  by (auto simp: widen_seen_def Let_def)

lemma node_after_other: "k \<noteq> from \<Longrightarrow> k \<noteq> to \<Longrightarrow> node_after from to ts new k old = old"
  by (auto simp: node_after_def Let_def option.map_ident split: option.split)

lemma deepCopyGraph_neighbours:
  assumes "wf_graph g" and "wf_graph dst" and "g_edges dst = g_edges g"
  shows "length (OutNeighbors k dst) = length (OutNeighbors k g)"
    and "length (InNeighbors k dst) = length (InNeighbors k g)"
proof -
  have "edge_pairs dst = edge_pairs g" by (simp add: edge_pairs_def assms(3))
  then have "set (OutNeighbors k dst) = set (OutNeighbors k g)" "set (InNeighbors k dst) = set (InNeighbors k g)"
    using assms(1,2) by (auto simp: set_eq_iff OutNeighbors_pairs InNeighbors_pairs)
  then show "length (OutNeighbors k dst) = length (OutNeighbors k g)"
    and "length (InNeighbors k dst) = length (InNeighbors k g)"
    using assms(1,2) by (metis distinct_card distinct_neighbors)+
qed

lemma deepCopyGraph_degrees_ok:
  assumes "wf_graph g" and "deepCopyGraph g = Some dst" and "degrees_ok g"
  shows "degrees_ok dst"
proof -
  from assms(1,2) have "wf_graph dst" "g_nodes dst = g_nodes g" "g_edges dst = g_edges g"
    by (auto elim: deepCopyGraph_correct)
  with assms(1,3) deepCopyGraph_neighbours [OF assms(1) this(1) this(3)] show ?thesis
    by (simp add: degrees_ok_def)
qed

lemma WithEvent_correct:
  assumes wf: "wf_graph (inner ig)"
  obtains ig' where "WithEvent from to w ty ts ig = Some ig'" and "wf_graph (inner ig')"
    and "map_of (g_edges (inner ig')) = (map_of (g_edges (inner ig)))
           (edgeKey from to \<mapsto> edge_after from to w ty ts (map_of (g_edges (inner ig)) (edgeKey from to)))"
    and "\<And>k. map_of (g_nodes (inner ig')) k = node_after_event from to ts
           (map_of (g_edges (inner ig)) (edgeKey from to) = None) k (map_of (g_nodes (inner ig)) k)"
    and "degrees_ok (inner ig) \<Longrightarrow> degrees_ok (inner ig')"
proof -
  obtain cp where cp: "deepCopyGraph (inner ig) = Some cp" "wf_graph cp"
    "g_nodes cp = g_nodes (inner ig)" "g_edges cp = g_edges (inner ig)"
    by (rule deepCopyGraph_correct [OF wf]) blast
  obtain cp1 where add: "AddEdge from to w ty ts cp = Some cp1"
    using AddEdge_total [OF cp(2)] by fastforce
  let ?g = "touch_node to ts (touch_node from ts cp1)"
  show thesis
  proof (rule that [of "\<lparr>inner = ?g\<rparr>"])
    show "WithEvent from to w ty ts ig = Some \<lparr>inner = ?g\<rparr>"
      by (simp add: WithEvent_def cp(1) add)
    show "wf_graph (inner \<lparr>inner = ?g\<rparr>)"
      using AddEdge_wf [OF add cp(2)] by (simp add: touch_node_wf)
    show "map_of (g_edges (inner \<lparr>inner = ?g\<rparr>)) = (map_of (g_edges (inner ig)))
           (edgeKey from to \<mapsto> edge_after from to w ty ts (map_of (g_edges (inner ig)) (edgeKey from to)))"
      by (simp add: touch_node_frame AddEdge_edges [OF add cp(2)] cp(4))
    show "map_of (g_nodes (inner \<lparr>inner = ?g\<rparr>)) k = node_after_event from to ts
           (map_of (g_edges (inner ig)) (edgeKey from to) = None) k (map_of (g_nodes (inner ig)) k)" for k
      by (auto simp: map_of_touch_node AddEdge_nodes [OF add cp(2)] cp(3,4) node_after_event_def node_after_other
          option.map_comp comp_def)
    show "degrees_ok (inner \<lparr>inner = ?g\<rparr>)" if "degrees_ok (inner ig)"
      using AddEdge_degrees_ok [OF add cp(2)] deepCopyGraph_degrees_ok [OF wf cp(1) that] AddEdge_wf [OF add cp(2)]
      by (simp add: touch_node_wf)
  qed
qed

end
