(* ===== verification/Event_Log.thy ===== *)
theory Event_Log
  imports Types Graph_Immutable
begin

text \<open>
  What a graph says of the events it was given. The engine's writer applies one event after
  the other to an immutable graph (\<open>WithEvent\<close>); here the graph after a list of events is
  compared with an abstract specification, the list itself: the edge between two nodes sums
  up the matching events, a node's seen interval spans the events that touch it.
\<close>

section \<open>Applying events\<close>

definition apply_event :: "Event \<Rightarrow> ImmutableGraph \<Rightarrow> ImmutableGraph option" where
  "apply_event e = WithEvent (ev_Source e) (ev_Target e) (ev_Weight e) (ev_Type e) (ev_Timestamp e)"

definition apply_events :: "Event list \<Rightarrow> ImmutableGraph \<Rightarrow> ImmutableGraph option" where
  "apply_events es ig = ofold apply_event es ig"

section \<open>The specification\<close>

definition matching :: "string \<Rightarrow> string \<Rightarrow> Event list \<Rightarrow> Event list" where
  "matching u v es = filter (\<lambda>e. ev_Source e = u \<and> ev_Target e = v) es"

definition edge_summary :: "string \<Rightarrow> string \<Rightarrow> Event list \<Rightarrow> EdgeData option" where
  "edge_summary u v es = (case matching u v es of [] \<Rightarrow> None
     | e # es' \<Rightarrow> Some \<lparr>e_From = u, e_To = v, e_Weight = sum_list (map ev_Weight (e # es')), e_Type = ev_Type e,
         e_Count = int (length (e # es')), e_FirstSeen = Min (ev_Timestamp ` set (e # es')),
         e_LastSeen = Max (ev_Timestamp ` set (e # es'))\<rparr>)"

definition touching :: "string \<Rightarrow> Event list \<Rightarrow> Event list" where
  "touching u es = filter (\<lambda>e. ev_Source e = u \<or> ev_Target e = u) es"

definition seen_summary :: "string \<Rightarrow> Event list \<Rightarrow> (time \<times> time) option" where
  "seen_summary u es = (case touching u es of [] \<Rightarrow> None
     | e # es' \<Rightarrow> Some (Min (ev_Timestamp ` set (e # es')), Max (ev_Timestamp ` set (e # es'))))"

definition seen_interval :: "NodeData \<Rightarrow> time \<times> time" where
  "seen_interval n = (n_FirstSeen n, n_LastSeen n)"

text \<open>The events the engine accepts: no NUL byte in an endpoint, a timestamp after the zero time.\<close>

definition clean_event :: "Event \<Rightarrow> bool" where
  "clean_event e \<longleftrightarrow> nul_free (ev_Source e) \<and> nul_free (ev_Target e) \<and> 0 < ev_Timestamp e"

section \<open>One event\<close>

lemma apply_event_correct:
  assumes wf: "wf_graph (inner ig)"
  obtains ig' where "apply_event e ig = Some ig'" and "wf_graph (inner ig')"
    and "degrees_ok (inner ig) \<Longrightarrow> degrees_ok (inner ig')"
    and "map_of (g_edges (inner ig')) = (map_of (g_edges (inner ig)))
           (edgeKey (ev_Source e) (ev_Target e) \<mapsto> edge_after (ev_Source e) (ev_Target e) (ev_Weight e) (ev_Type e)
              (ev_Timestamp e) (map_of (g_edges (inner ig)) (edgeKey (ev_Source e) (ev_Target e))))"
    and "\<And>k. map_of (g_nodes (inner ig')) k = node_after_event (ev_Source e) (ev_Target e) (ev_Timestamp e)
           (map_of (g_edges (inner ig)) (edgeKey (ev_Source e) (ev_Target e)) = None) k
           (map_of (g_nodes (inner ig)) k)"
  by (rule WithEvent_correct [OF wf, of "ev_Source e" "ev_Target e" "ev_Weight e" "ev_Type e" "ev_Timestamp e"])
    (simp add: apply_event_def that)

lemma node_after_event_dom [simp]:
  "node_after_event from to ts new k old = None \<longleftrightarrow> old = None \<and> k \<noteq> from \<and> k \<noteq> to"
  by (auto simp: node_after_event_def node_after_def Let_def split: option.split)

lemma count_link_seen [simp]:
  "n_FirstSeen (count_link from to k n) = n_FirstSeen n" "n_LastSeen (count_link from to k n) = n_LastSeen n"
  by (simp_all add: count_link_def)

lemma node_after_event_seen:
  "0 < ts \<Longrightarrow> map_option seen_interval (node_after_event from to ts new k old) =
     (if k = from \<or> k = to then
        Some (case old of None \<Rightarrow> (ts, ts)
              | Some n \<Rightarrow> (if n_FirstSeen n = 0 then ts else min (n_FirstSeen n) ts, max (n_LastSeen n) ts))
      else map_option seen_interval old)"
  by (auto simp: node_after_event_def node_after_def fresh_node_def seen_interval_def Let_def split: option.split)

lemma Min_snoc: "xs \<noteq> [] \<Longrightarrow> Min (f ` set (xs @ [x])) = min (Min (f ` set xs)) (f x :: int)"
  by (simp add: min.commute)

lemma Max_snoc: "xs \<noteq> [] \<Longrightarrow> Max (f ` set (xs @ [x])) = max (Max (f ` set xs)) (f x :: int)"
  by (simp add: max.commute)

lemma edge_summary_snoc:
  "edge_summary u v (es @ [e]) =
     (if ev_Source e = u \<and> ev_Target e = v
      then Some (edge_after u v (ev_Weight e) (ev_Type e) (ev_Timestamp e) (edge_summary u v es))
      else edge_summary u v es)"
proof (cases "matching u v es")
  case Nil
  then show ?thesis
    by (auto simp: edge_summary_def edge_after_def fresh_edge_def matching_def)
next
  case (Cons a as)
  have "Min (ev_Timestamp ` set ((a # as) @ [e])) = min (Min (ev_Timestamp ` set (a # as))) (ev_Timestamp e)"
    and "Max (ev_Timestamp ` set ((a # as) @ [e])) = max (Max (ev_Timestamp ` set (a # as))) (ev_Timestamp e)"
    by (rule Min_snoc Max_snoc, simp)+
  with Cons show ?thesis
    by (auto simp: edge_summary_def matching_def edge_after_def intro!: EdgeData_eqI)
qed

lemma seen_summary_snoc:
  "seen_summary u (es @ [e]) =
     (if ev_Source e = u \<or> ev_Target e = u
      then Some (case seen_summary u es of None \<Rightarrow> (ev_Timestamp e, ev_Timestamp e)
                 | Some (a, b) \<Rightarrow> (min a (ev_Timestamp e), max b (ev_Timestamp e)))
      else seen_summary u es)"
proof (cases "touching u es")
  case Nil
  then show ?thesis by (auto simp: seen_summary_def touching_def)
next
  case (Cons a as)
  have "Min (ev_Timestamp ` set ((a # as) @ [e])) = min (Min (ev_Timestamp ` set (a # as))) (ev_Timestamp e)"
    and "Max (ev_Timestamp ` set ((a # as) @ [e])) = max (Max (ev_Timestamp ` set (a # as))) (ev_Timestamp e)"
    by (rule Min_snoc Max_snoc, simp)+
  with Cons show ?thesis by (auto simp: seen_summary_def touching_def)
qed

lemma seen_summary_positive:
  "\<forall>e \<in> set es. 0 < ev_Timestamp e \<Longrightarrow> seen_summary u es = Some (a, b) \<Longrightarrow> 0 < a"
proof (cases "touching u es")
  case (Cons e es')
  assume pos: "\<forall>e \<in> set es. 0 < ev_Timestamp e" and s: "seen_summary u es = Some (a, b)"
  have "set (e # es') \<subseteq> set es" by (simp only: Cons [symmetric]) (simp add: touching_def)
  have "Min (ev_Timestamp ` set (e # es')) \<in> ev_Timestamp ` set (e # es')" by (rule Min_in) simp_all
  with s Cons have "a \<in> ev_Timestamp ` set (e # es')" by (simp add: seen_summary_def)
  with \<open>set (e # es') \<subseteq> set es\<close> pos show "0 < a" by auto
qed (simp add: seen_summary_def)

section \<open>A list of events\<close>

definition agrees_with_log :: "Event list \<Rightarrow> ImmutableGraph \<Rightarrow> bool" where
  "agrees_with_log es ig \<longleftrightarrow> wf_graph (inner ig) \<and> degrees_ok (inner ig) \<and> ids_nul_free (inner ig) \<and>
     (\<forall>u v. nul_free u \<longrightarrow> GetEdge u v (inner ig) = edge_summary u v es) \<and>
     (\<forall>u. map_option seen_interval (GetNode u (inner ig)) = seen_summary u es)"

lemma agrees_step:
  assumes log: "agrees_with_log es ig" and clean: "clean_event e" and pos: "\<forall>e \<in> set es. 0 < ev_Timestamp e"
  shows "\<exists>ig'. apply_event e ig = Some ig' \<and> agrees_with_log (es @ [e]) ig'"
proof -
  let ?s = "ev_Source e" and ?t = "ev_Target e"
  have wf: "wf_graph (inner ig)" and deg: "degrees_ok (inner ig)" and nul: "ids_nul_free (inner ig)"
    and edge: "\<And>u v. nul_free u \<Longrightarrow> GetEdge u v (inner ig) = edge_summary u v es"
    and seen: "\<And>u. map_option seen_interval (GetNode u (inner ig)) = seen_summary u es"
    using log by (auto simp: agrees_with_log_def)
  have st: "nul_free ?s" "nul_free ?t" "0 < ev_Timestamp e" using clean by (auto simp: clean_event_def)
  obtain ig' where ig': "apply_event e ig = Some ig'" "wf_graph (inner ig')" "degrees_ok (inner ig')"
    and edges: "map_of (g_edges (inner ig')) = (map_of (g_edges (inner ig))) (edgeKey ?s ?t \<mapsto> edge_after ?s ?t
          (ev_Weight e) (ev_Type e) (ev_Timestamp e) (map_of (g_edges (inner ig)) (edgeKey ?s ?t)))"
    and nodes: "\<And>k. map_of (g_nodes (inner ig')) k = node_after_event ?s ?t (ev_Timestamp e)
          (map_of (g_edges (inner ig)) (edgeKey ?s ?t) = None) k (map_of (g_nodes (inner ig)) k)"
    by (rule apply_event_correct [OF wf, of e]) (use deg in blast)
  have "dom (map_of (g_nodes (inner ig'))) = dom (map_of (g_nodes (inner ig))) \<union> {?s, ?t}"
    by (auto simp: dom_def nodes node_after_event_dom simp del: not_None_eq)
  with nul st have "ids_nul_free (inner ig')" by (simp add: ids_nul_free_def keys_eq_dom ball_Un)
  moreover have "GetEdge u v (inner ig') = edge_summary u v (es @ [e])" if "nul_free u" for u v
    using edge [OF that, of v] edge [OF st(1), of ?t] that st
    by (auto simp: GetEdge_def edges edge_summary_snoc edgeKey_inject)
  moreover have "map_option seen_interval (GetNode u (inner ig')) = seen_summary u (es @ [e])" for u
  proof (cases "GetNode u (inner ig)")
    case None
    with seen [of u] show ?thesis
      by (auto simp: GetNode_def nodes node_after_event_seen [OF st(3)] seen_summary_snoc)
  next
    case (Some n)
    with seen [of u] have s: "seen_summary u es = Some (n_FirstSeen n, n_LastSeen n)"
      by (simp add: seen_interval_def)
    from seen_summary_positive [OF pos this] Some s show ?thesis
      by (auto simp: GetNode_def nodes node_after_event_seen [OF st(3)] seen_summary_snoc seen_interval_def)
  qed
  ultimately show ?thesis using ig' by (auto simp: agrees_with_log_def)
qed

lemma agrees_empty: "agrees_with_log [] NewImmutableEmpty"
  by (simp add: agrees_with_log_def NewImmutableEmpty_def GetEdge_def GetNode_def edge_summary_def seen_summary_def
      matching_def touching_def) (simp add: New_def)

lemma apply_events_agrees:
  assumes "\<forall>e \<in> set es. clean_event e"
  shows "\<exists>ig. apply_events es NewImmutableEmpty = Some ig \<and> agrees_with_log es ig"
  unfolding apply_events_def
proof (rule ofold_rule [where P = agrees_with_log])
  fix "done" x rest ig
  assume "es = done @ x # rest" and "agrees_with_log done ig"
  with assms show "\<exists>ig'. apply_event x ig = Some ig' \<and> agrees_with_log (done @ [x]) ig'"
    by (intro agrees_step) (auto simp: clean_event_def)
qed (rule agrees_empty)

section \<open>Properties\<close>

text \<open>
  C3. The copy-on-write graph refines the event log. Applying any list of events (endpoints
  without NUL bytes, positive timestamps) to the empty graph with \<open>WithEvent\<close> never panics; the
  edge between two nodes then carries the sum of the weights, the number, the first type and
  the earliest and latest time of exactly the matching events (no edge when there is none),
  a node exists exactly when an event touches it and has seen the interval of those events,
  and the graph is well formed with consistent degrees.
\<close>

theorem event_log_refinement:
  assumes "\<forall>e \<in> set es. clean_event e" and "nul_free u"
  shows "\<exists>ig. apply_events es NewImmutableEmpty = Some ig \<and> wf_graph (inner ig) \<and> degrees_ok (inner ig) \<and>
       IG_GetEdge u v ig = edge_summary u v es \<and>
       map_option seen_interval (IG_GetNode u ig) = seen_summary u es"
  using apply_events_agrees [OF assms(1)] assms(2) by (auto simp: agrees_with_log_def IG_defs)

theorem event_log_refinement_witness:
  "\<exists>ig. apply_events [sample_event\<lparr>ev_Weight := 2, ev_Timestamp := 5\<rparr>, sample_event\<lparr>ev_Weight := 3, ev_Timestamp := 4\<rparr>]
       NewImmutableEmpty = Some ig \<and>
     IG_GetEdge ''a'' ''b'' ig = Some \<lparr>e_From = ''a'', e_To = ''b'', e_Weight = 5, e_Type = ''call'', e_Count = 2,
       e_FirstSeen = 4, e_LastSeen = 5\<rparr>"
  using event_log_refinement [of "[sample_event\<lparr>ev_Weight := 2, ev_Timestamp := 5\<rparr>,
      sample_event\<lparr>ev_Weight := 3, ev_Timestamp := 4\<rparr>]" "''a''" "''b''"]
  by (auto simp: clean_event_def sample_event_def nul_free_def edge_summary_def matching_def)

end
