(* ===== verification/Graph_View.thy ===== *)
theory Graph_View
  imports Event_Log
begin

text \<open>
  The read-only graph interface and its two providers. \<open>GraphView\<close> is the interface the
  analysis and gpu packages declare (\<open>analysis/tension.go\<close>, \<open>gpu/backend.go\<close>): a value of it is a
  record of its methods, the two \<open>ForEach\<close> methods given by the sequences they visit when the
  callback always continues, which is how every client in the repository calls them. The
  locale \<open>graph_view\<close> states what the clients rely on; it is interpreted on \<open>ImmutableGraph\<close> and on
  \<open>graph/view.go\<close>'s \<open>UnifiedView\<close>, the overlay merged with the base.
\<close>

section \<open>UnifiedView\<close>

record UnifiedView =
  uv_base :: ImmutableGraph
  uv_overlay :: ImmutableGraph

definition NewUnifiedView :: "ImmutableGraph \<Rightarrow> ImmutableGraph \<Rightarrow> UnifiedView" where
  "NewUnifiedView base overlay = \<lparr>uv_base = base, uv_overlay = overlay\<rparr>"

definition mergeEdges :: "EdgeData \<Rightarrow> EdgeData \<Rightarrow> EdgeData" where
  "mergeEdges base overlay = \<lparr>e_From = e_From overlay, e_To = e_To overlay,
     e_Weight = e_Weight base + e_Weight overlay, e_Type = e_Type overlay,
     e_Count = e_Count base + e_Count overlay,
     e_FirstSeen = (if e_FirstSeen base < e_FirstSeen overlay then e_FirstSeen base else e_FirstSeen overlay),
     e_LastSeen = (if e_LastSeen base > e_LastSeen overlay then e_LastSeen base else e_LastSeen overlay)\<rparr>"

definition UV_GetNode :: "string \<Rightarrow> UnifiedView \<Rightarrow> NodeData option" where
  "UV_GetNode nid v = (case IG_GetNode nid (uv_overlay v) of Some n \<Rightarrow> Some n | None \<Rightarrow> IG_GetNode nid (uv_base v))"

definition UV_GetEdge :: "string \<Rightarrow> string \<Rightarrow> UnifiedView \<Rightarrow> EdgeData option" where
  "UV_GetEdge from to v =
     (case (IG_GetEdge from to (uv_base v), IG_GetEdge from to (uv_overlay v)) of
        (Some be, Some oe) \<Rightarrow> Some (mergeEdges be oe)
      | (None, Some oe) \<Rightarrow> Some oe
      | (Some be, None) \<Rightarrow> Some be
      | (None, None) \<Rightarrow> None)"

definition UV_Neighbors :: "string \<Rightarrow> UnifiedView \<Rightarrow> string list" where
  "UV_Neighbors nid v = snd (fold visit_unseen (IG_Neighbors nid (uv_base v))
     (fold visit_unseen (IG_Neighbors nid (uv_overlay v)) ([], [])))"

definition UV_OutNeighbors :: "string \<Rightarrow> UnifiedView \<Rightarrow> string list" where
  "UV_OutNeighbors nid v = snd (fold visit_unseen (IG_OutNeighbors nid (uv_base v))
     (fold visit_unseen (IG_OutNeighbors nid (uv_overlay v)) ([], [])))"

definition UV_InNeighbors :: "string \<Rightarrow> UnifiedView \<Rightarrow> string list" where
  "UV_InNeighbors nid v = snd (fold visit_unseen (IG_InNeighbors nid (uv_base v))
     (fold visit_unseen (IG_InNeighbors nid (uv_overlay v)) ([], [])))"

definition UV_NodeCount :: "UnifiedView \<Rightarrow> nat" where
  "UV_NodeCount v =
     (let seen1 = IG_ForEachNode (\<lambda>n seen. (AList.update (n_ID n) True seen, True)) (uv_overlay v) [];
          seen2 = IG_ForEachNode (\<lambda>n seen. (AList.update (n_ID n) True seen, True)) (uv_base v) seen1
      in length seen2)"

definition UV_EdgeCount :: "UnifiedView \<Rightarrow> nat" where
  "UV_EdgeCount v =
     (let seen1 = IG_ForEachEdge (\<lambda>e seen. (AList.update (edgeKey (e_From e) (e_To e)) True seen, True)) (uv_overlay v) [];
          seen2 = IG_ForEachEdge (\<lambda>e seen. (AList.update (edgeKey (e_From e) (e_To e)) True seen, True)) (uv_base v) seen1
      in length seen2)"

text \<open>
  The callbacks \<open>ForEachNode\<close> and \<open>ForEachEdge\<close> hand to the two layers: the overlay's marks the key
  as seen, the base's skips a key that is marked. Both return what the caller's \<open>fn\<close> returns.
\<close>

definition mark_and_visit ::
  "('x \<Rightarrow> string) \<Rightarrow> ('x \<Rightarrow> 's \<Rightarrow> 's \<times> bool) \<Rightarrow> 'x \<Rightarrow> (string, bool) gomap \<times> 's \<Rightarrow> ((string, bool) gomap \<times> 's) \<times> bool" where
  "mark_and_visit key fn x = (\<lambda>(seen, s).
     let (s', continue) = fn x s in ((AList.update (key x) True seen, s'), continue))"

definition visit_unmarked ::
  "('x \<Rightarrow> string) \<Rightarrow> ('x \<Rightarrow> 's \<Rightarrow> 's \<times> bool) \<Rightarrow> 'x \<Rightarrow> (string, bool) gomap \<times> 's \<Rightarrow> ((string, bool) gomap \<times> 's) \<times> bool" where
  "visit_unmarked key fn x = (\<lambda>(seen, s).
     if has_key seen (key x) then ((seen, s), True)
     else let (s', continue) = fn x s in ((seen, s'), continue))"

definition UV_ForEachNode :: "(NodeData \<Rightarrow> 's \<Rightarrow> 's \<times> bool) \<Rightarrow> UnifiedView \<Rightarrow> 's \<Rightarrow> 's" where
  "UV_ForEachNode fn v s =
     snd (IG_ForEachNode (visit_unmarked n_ID fn) (uv_base v)
            (IG_ForEachNode (mark_and_visit n_ID fn) (uv_overlay v) ([], s)))"

definition UV_ForEachEdge :: "(EdgeData \<Rightarrow> 's \<Rightarrow> 's \<times> bool) \<Rightarrow> UnifiedView \<Rightarrow> 's \<Rightarrow> 's" where
  "UV_ForEachEdge fn v s =
     snd (IG_ForEachEdge (visit_unmarked (\<lambda>e. edgeKey (e_From e) (e_To e)) fn) (uv_base v)
            (IG_ForEachEdge (mark_and_visit (\<lambda>e. edgeKey (e_From e) (e_To e))
                (\<lambda>oe. case IG_GetEdge (e_From oe) (e_To oe) (uv_base v) of
                        Some be \<Rightarrow> fn (mergeEdges be oe) | None \<Rightarrow> fn oe))
              (uv_overlay v) ([], s)))"

section \<open>The interface\<close>

record GraphView =
  gv_GetNode :: "string \<Rightarrow> NodeData option"
  gv_GetEdge :: "string \<Rightarrow> string \<Rightarrow> EdgeData option"
  gv_Neighbors :: "string \<Rightarrow> string list"
  gv_OutNeighbors :: "string \<Rightarrow> string list"
  gv_InNeighbors :: "string \<Rightarrow> string list"
  gv_NodeCount :: nat
  gv_EdgeCount :: nat
  gv_nodes :: "NodeData list"
  gv_edges :: "EdgeData list"

definition edge_ends :: "EdgeData \<Rightarrow> string \<times> string" where
  "edge_ends e = (e_From e, e_To e)"

locale graph_view =
  fixes view :: "'g \<Rightarrow> GraphView"
    and invar :: "'g \<Rightarrow> bool"
  assumes node_ids_distinct: "invar g \<Longrightarrow> distinct (map n_ID (gv_nodes (view g)))"
    and GetNode_iff: "invar g \<Longrightarrow>
      gv_GetNode (view g) u = Some n \<longleftrightarrow> n \<in> set (gv_nodes (view g)) \<and> n_ID n = u"
    and NodeCount_visited: "invar g \<Longrightarrow> gv_NodeCount (view g) = length (gv_nodes (view g))"
    and edge_ends_distinct: "invar g \<Longrightarrow> distinct (map edge_ends (gv_edges (view g)))"
    and GetEdge_iff: "invar g \<Longrightarrow>
      gv_GetEdge (view g) u v = Some e \<longleftrightarrow> e \<in> set (gv_edges (view g)) \<and> edge_ends e = (u, v)"
    and EdgeCount_visited: "invar g \<Longrightarrow> gv_EdgeCount (view g) = length (gv_edges (view g))"
    and endpoints_present: "invar g \<Longrightarrow> e \<in> set (gv_edges (view g)) \<Longrightarrow>
      gv_GetNode (view g) (e_From e) \<noteq> None \<and> gv_GetNode (view g) (e_To e) \<noteq> None"
    and OutNeighbors_law: "invar g \<Longrightarrow> distinct (gv_OutNeighbors (view g) u) \<and>
      set (gv_OutNeighbors (view g) u) = {v. gv_GetEdge (view g) u v \<noteq> None}"
    and InNeighbors_law: "invar g \<Longrightarrow> distinct (gv_InNeighbors (view g) u) \<and>
      set (gv_InNeighbors (view g) u) = {v. gv_GetEdge (view g) v u \<noteq> None}"
    and Neighbors_law: "invar g \<Longrightarrow> distinct (gv_Neighbors (view g) u) \<and>
      set (gv_Neighbors (view g) u) = set (gv_OutNeighbors (view g) u) \<union> set (gv_InNeighbors (view g) u)"
begin

lemma GetNode_visited: "invar g \<Longrightarrow> gv_GetNode (view g) u \<noteq> None \<longleftrightarrow> u \<in> n_ID ` set (gv_nodes (view g))"
  using GetNode_iff [of g u] by auto

lemma Neighbors_symmetric:
  "invar g \<Longrightarrow> v \<in> set (gv_Neighbors (view g) u) \<longleftrightarrow> u \<in> set (gv_Neighbors (view g) v)"
  by (auto simp: Neighbors_law OutNeighbors_law InNeighbors_law)

lemma neighbour_present:
  assumes "invar g" and "v \<in> set (gv_Neighbors (view g) u)"
  shows "gv_GetNode (view g) v \<noteq> None \<and> gv_GetNode (view g) u \<noteq> None"
proof -
  from assms have "(\<exists>e. gv_GetEdge (view g) u v = Some e) \<or> (\<exists>e. gv_GetEdge (view g) v u = Some e)"
    by (auto simp: Neighbors_law OutNeighbors_law InNeighbors_law)
  then obtain e where "e \<in> set (gv_edges (view g))" "edge_ends e = (u, v) \<or> edge_ends e = (v, u)"
    using GetEdge_iff [OF assms(1)] by blast
  with endpoints_present [OF assms(1), of e] show ?thesis by (auto simp: edge_ends_def)
qed

lemma visited_edges_neighbours:
  "invar g \<Longrightarrow> edge_ends ` set (gv_edges (view g)) = {(u, v). v \<in> set (gv_OutNeighbors (view g) u)}"
  by (auto simp: OutNeighbors_law GetEdge_iff) (metis image_eqI)

lemma NodeCount_card:
  assumes "invar g"
  shows "gv_NodeCount (view g) = card {u. gv_GetNode (view g) u \<noteq> None}"
  using distinct_card [OF node_ids_distinct [OF assms]] GetNode_visited [OF assms]
  by (simp add: NodeCount_visited [OF assms])

lemma EdgeCount_card:
  assumes "invar g"
  shows "gv_EdgeCount (view g) = card {(u, v). gv_GetEdge (view g) u v \<noteq> None}"
proof -
  have "{(u, v). gv_GetEdge (view g) u v \<noteq> None} = set (map edge_ends (gv_edges (view g)))"
    using visited_edges_neighbours [OF assms] OutNeighbors_law [OF assms] by simp
  with distinct_card [OF edge_ends_distinct [OF assms]] show ?thesis
    by (simp add: EdgeCount_visited [OF assms])
qed

lemma EdgeCount_out_degrees:
  assumes "invar g"
  shows "gv_EdgeCount (view g) = (\<Sum>n \<leftarrow> gv_nodes (view g). length (gv_OutNeighbors (view g) (n_ID n)))"
proof -
  let ?ps = "edge_ends ` set (gv_edges (view g))" and ?K = "n_ID ` set (gv_nodes (view g))"
  have "fst ` ?ps \<subseteq> ?K"
    using endpoints_present [OF assms] GetNode_visited [OF assms] by (fastforce simp: edge_ends_def)
  then have "(\<Sum>u \<in> ?K. card {v. (u, v) \<in> ?ps}) = card ?ps" by (intro sum_card_fibres) auto
  moreover have "card {v. (u, v) \<in> ?ps} = length (gv_OutNeighbors (view g) u)" for u
    unfolding visited_edges_neighbours [OF assms]
    using OutNeighbors_law [OF assms, of u] distinct_card by fastforce
  moreover have "card ?ps = gv_EdgeCount (view g)"
    using distinct_card [OF edge_ends_distinct [OF assms]] by (simp add: EdgeCount_visited [OF assms])
  ultimately have "gv_EdgeCount (view g) = (\<Sum>u \<in> ?K. length (gv_OutNeighbors (view g) u))" by simp
  also have "\<dots> = (\<Sum>u \<leftarrow> map n_ID (gv_nodes (view g)). length (gv_OutNeighbors (view g) u))"
    by (subst sum_list_distinct_conv_sum_set [OF node_ids_distinct [OF assms]]) simp
  finally show ?thesis by (simp add: comp_def)
qed

end

section \<open>The provider ImmutableGraph\<close>

definition ig_nodes :: "ImmutableGraph \<Rightarrow> NodeData list" where
  "ig_nodes ig = map snd (g_nodes (inner ig))"

definition ig_edges :: "ImmutableGraph \<Rightarrow> EdgeData list" where
  "ig_edges ig = map snd (g_edges (inner ig))"

definition immutable_view :: "ImmutableGraph \<Rightarrow> GraphView" where
  "immutable_view ig = \<lparr>gv_GetNode = \<lambda>u. IG_GetNode u ig, gv_GetEdge = \<lambda>u v. IG_GetEdge u v ig,
     gv_Neighbors = \<lambda>u. IG_Neighbors u ig, gv_OutNeighbors = \<lambda>u. IG_OutNeighbors u ig,
     gv_InNeighbors = \<lambda>u. IG_InNeighbors u ig, gv_NodeCount = IG_NodeCount ig, gv_EdgeCount = IG_EdgeCount ig,
     gv_nodes = ig_nodes ig, gv_edges = ig_edges ig\<rparr>"

definition ig_ok :: "ImmutableGraph \<Rightarrow> bool" where
  "ig_ok ig \<longleftrightarrow> wf_graph (inner ig) \<and> ids_nul_free (inner ig)"

lemma edgeKey_nul_free_inject:
  assumes "nul_free a" and "nul_free b"
  shows "edgeKey c d = edgeKey a b \<longleftrightarrow> c = a \<and> d = b"
proof (cases "nul_free c")
  case False
  have "count_list (edgeKey a b) (CHR 0x00) = 1"
    using assms by (simp add: edgeKey_def nul_free_def count_list_0_iff)
  moreover have "1 < count_list (edgeKey c d) (CHR 0x00)"
    using False by (simp add: edgeKey_def nul_free_def count_list_0_iff [symmetric])
  ultimately have "edgeKey c d \<noteq> edgeKey a b" by auto
  with False assms show ?thesis by auto
qed (simp add: edgeKey_inject assms)

lemma GetEdge_stored:
  assumes "wf_graph g" and "ids_nul_free g"
  shows "GetEdge u v g = Some e \<longleftrightarrow> e \<in> snd ` set (g_edges g) \<and> edge_ends e = (u, v)"
proof
  assume e: "GetEdge u v g = Some e"
  with wf_graphD(3,4) [OF assms(1)] assms(2) have "edgeKey u v = edgeKey (e_From e) (e_To e)" "nul_free (e_From e)" "nul_free (e_To e)"
    by (fastforce simp: GetEdge_def ids_nul_free_def keys_eq_dom)+
  then have "edge_ends e = (u, v)" by (simp add: edgeKey_nul_free_inject edge_ends_def)
  with e show "e \<in> snd ` set (g_edges g) \<and> edge_ends e = (u, v)"
    by (force simp: GetEdge_def dest: map_of_SomeD)
next
  assume "e \<in> snd ` set (g_edges g) \<and> edge_ends e = (u, v)"
  then obtain k where "map_of (g_edges g) k = Some e" "edge_ends e = (u, v)"
    using wf_graphD(2) [OF assms(1)] by (force simp: entry_iff_lookup)
  with wf_graphD(3) [OF assms(1)] show "GetEdge u v g = Some e"
    by (auto simp: GetEdge_def edge_ends_def)
qed

lemma stored_nodes:
  assumes "wf_graph g"
  shows "map_of (g_nodes g) u = Some n \<longleftrightarrow> n \<in> snd ` set (g_nodes g) \<and> n_ID n = u"
    and "map n_ID (map snd (g_nodes g)) = gkeys (g_nodes g)"
proof -
  show "map n_ID (map snd (g_nodes g)) = gkeys (g_nodes g)"
    using assms by (auto simp: wf_graph_def)
  show "map_of (g_nodes g) u = Some n \<longleftrightarrow> n \<in> snd ` set (g_nodes g) \<and> n_ID n = u"
    using wf_graphD(5) [OF assms] by (auto simp: in_values_iff [OF wf_graphD(1) [OF assms]])
qed

lemma stored_edge_ends:
  assumes "wf_graph g"
  shows "distinct (map edge_ends (map snd (g_edges g)))"
proof -
  have "map (\<lambda>p. edgeKey (fst p) (snd p)) (map edge_ends (map snd (g_edges g))) = gkeys (g_edges g)"
    using assms by (auto simp: wf_graph_def edge_ends_def)
  with wf_graphD(2) [OF assms] show ?thesis by (metis distinct_map)
qed

lemma edge_pairs_ends: "edge_pairs g = edge_ends ` (snd ` set (g_edges g))"
  by (simp add: edge_pairs_def edge_ends_def image_image case_prod_beta)

lemma stored_neighbours:
  assumes "wf_graph g" and "ids_nul_free g"
  shows "set (OutNeighbors u g) = {v. GetEdge u v g \<noteq> None}"
    and "set (InNeighbors u g) = {v. GetEdge v u g \<noteq> None}"
proof -
  have "GetEdge a b g \<noteq> None \<longleftrightarrow> (a, b) \<in> edge_pairs g" for a b
    using GetEdge_stored [OF assms, of a b] by (simp add: edge_pairs_ends image_iff) metis
  then show "set (OutNeighbors u g) = {v. GetEdge u v g \<noteq> None}"
    and "set (InNeighbors u g) = {v. GetEdge v u g \<noteq> None}"
    by (simp_all only: set_eq_iff mem_Collect_eq OutNeighbors_pairs [OF assms(1)] InNeighbors_pairs [OF assms(1)]
        simp_thms)
qed

lemma stored_endpoints:
  assumes "wf_graph g" and "e \<in> snd ` set (g_edges g)"
  shows "GetNode (e_From e) g \<noteq> None \<and> GetNode (e_To e) g \<noteq> None"
proof -
  from assms obtain k where "map_of (g_edges g) k = Some e"
    using entry_iff_lookup [OF wf_graphD(2) [OF assms(1)]] by force
  from wf_graphD(4) [OF assms(1) this] show ?thesis by (auto simp: GetNode_def)
qed

lemmas ig_view_defs = immutable_view_def IG_defs ig_ok_def ig_nodes_def ig_edges_def

interpretation ig_view: graph_view immutable_view ig_ok
proof (unfold_locales, goal_cases)
  case (1 ig)
  then show ?case by (simp only: ig_ok_def ig_nodes_def ig_edges_def immutable_view_def GraphView.select_convs stored_nodes wf_graphD)
next
  case (2 ig u n)
  then show ?case by (simp add: ig_view_defs GetNode_def stored_nodes)
next
  case (4 ig)
  then show ?case by (simp only: ig_ok_def ig_nodes_def ig_edges_def immutable_view_def GraphView.select_convs stored_edge_ends)
next
  case (5 ig u v e)
  then show ?case by (simp add: ig_view_defs GetEdge_stored)
next
  case (7 ig e)
  then show ?case using stored_endpoints [of "inner ig" e] by (simp add: ig_view_defs)
next
  case (8 ig u)
  then show ?case by (simp add: ig_view_defs distinct_neighbors stored_neighbours)
next
  case (9 ig u)
  then show ?case by (simp add: ig_view_defs distinct_neighbors stored_neighbours)
qed (simp_all add: ig_view_defs NodeCount_def EdgeCount_def Neighbors_correct)

section \<open>The provider UnifiedView\<close>

text \<open>The sequences its two \<open>ForEach\<close> methods visit.\<close>

definition emit_edge :: "UnifiedView \<Rightarrow> EdgeData \<Rightarrow> EdgeData" where
  "emit_edge v oe = (case IG_GetEdge (e_From oe) (e_To oe) (uv_base v) of
     Some be \<Rightarrow> mergeEdges be oe | None \<Rightarrow> oe)"

definition unmarked :: "('x \<Rightarrow> 'k) \<Rightarrow> 'x list \<Rightarrow> 'x list \<Rightarrow> 'x list" where
  "unmarked key over base = filter (\<lambda>x. key x \<notin> key ` set over) base"

definition unified_view :: "UnifiedView \<Rightarrow> GraphView" where
  "unified_view v = \<lparr>gv_GetNode = \<lambda>u. UV_GetNode u v, gv_GetEdge = \<lambda>u w. UV_GetEdge u w v,
     gv_Neighbors = \<lambda>u. UV_Neighbors u v, gv_OutNeighbors = \<lambda>u. UV_OutNeighbors u v,
     gv_InNeighbors = \<lambda>u. UV_InNeighbors u v, gv_NodeCount = UV_NodeCount v, gv_EdgeCount = UV_EdgeCount v,
     gv_nodes = ig_nodes (uv_overlay v) @ unmarked n_ID (ig_nodes (uv_overlay v)) (ig_nodes (uv_base v)),
     gv_edges = map (emit_edge v) (ig_edges (uv_overlay v)) @
       unmarked (\<lambda>e. edgeKey (e_From e) (e_To e)) (ig_edges (uv_overlay v)) (ig_edges (uv_base v))\<rparr>"

lemma unified_view_sel [simp]:
  "gv_GetNode (unified_view v) u = UV_GetNode u v" "gv_GetEdge (unified_view v) u w = UV_GetEdge u w v"
  "gv_Neighbors (unified_view v) u = UV_Neighbors u v" "gv_OutNeighbors (unified_view v) u = UV_OutNeighbors u v"
  "gv_InNeighbors (unified_view v) u = UV_InNeighbors u v"
  "gv_NodeCount (unified_view v) = UV_NodeCount v" "gv_EdgeCount (unified_view v) = UV_EdgeCount v"
  by (simp_all add: unified_view_def)

lemma gv_nodes_unified: "gv_nodes (unified_view v) = ig_nodes (uv_overlay v) @
    unmarked n_ID (ig_nodes (uv_overlay v)) (ig_nodes (uv_base v))"
  by (simp add: unified_view_def)

definition uv_ok :: "UnifiedView \<Rightarrow> bool" where
  "uv_ok v \<longleftrightarrow> ig_ok (uv_base v) \<and> ig_ok (uv_overlay v)"

definition mark_all :: "('x \<Rightarrow> string) \<Rightarrow> 'x list \<Rightarrow> (string, bool) gomap \<Rightarrow> (string, bool) gomap" where
  "mark_all key xs seen = fold (\<lambda>x. AList.update (key x) True) xs seen"

lemma mark_all_Cons [simp]: "mark_all key (x # xs) seen = mark_all key xs (AList.update (key x) True seen)"
  by (simp add: mark_all_def)

lemma mark_all_Nil [simp]: "mark_all key [] seen = seen"
  by (simp add: mark_all_def)

lemma has_key_mark_all: "has_key (mark_all key xs seen) k \<longleftrightarrow> k \<in> key ` set xs \<or> has_key seen k"
  by (induction xs arbitrary: seen) auto

lemma wf_mark_all: "wf_gomap seen \<Longrightarrow> wf_gomap (mark_all key xs seen)"
  by (induction xs arbitrary: seen) simp_all

lemma dom_mark_all: "dom (map_of (mark_all key xs seen)) = key ` set xs \<union> dom (map_of seen)"
  by (induction xs arbitrary: seen) auto

lemma length_mark_all: "length (mark_all key ys (mark_all key xs [])) = card (key ` set xs \<union> key ` set ys)"
  by (simp add: length_gomap_card wf_mark_all dom_mark_all Un_commute)

lemma mark_loop [loop_simps]:
  "go_range (mark_and_visit key (\<lambda>x s. (f x s, True))) xs (seen, s) = (mark_all key xs seen, fold f xs s)"
  by (induction xs arbitrary: seen s) (simp_all add: mark_and_visit_def)

lemma unmarked_loop [loop_simps]:
  "go_range (visit_unmarked key (\<lambda>x s. (f x s, True))) xs (seen, s) =
     (seen, fold f (filter (\<lambda>x. \<not> has_key seen (key x)) xs) s)"
  by (induction xs arbitrary: s) (simp_all add: visit_unmarked_def)

lemma UV_ForEachNode_visits:
  "UV_ForEachNode (\<lambda>n s. (f n s, True)) v s = fold f (gv_nodes (unified_view v)) s"
  by (simp add: UV_ForEachNode_def IG_defs ForEachNode_def ig_nodes_def [symmetric] loop_simps gv_nodes_unified unmarked_def has_key_mark_all)

lemma UV_ForEachEdge_visits:
  "UV_ForEachEdge (\<lambda>e s. (f e s, True)) v s = fold f (gv_edges (unified_view v)) s"
proof -
  have fn: "(\<lambda>oe. case IG_GetEdge (e_From oe) (e_To oe) (uv_base v) of
      Some be \<Rightarrow> (\<lambda>s. (f (mergeEdges be oe) s, True)) | None \<Rightarrow> (\<lambda>s. (f oe s, True))) =
      (\<lambda>oe s. (f (emit_edge v oe) s, True))"
    by (auto simp: fun_eq_iff emit_edge_def split: option.split)
  show ?thesis
    unfolding UV_ForEachEdge_def fn
    by (simp add: IG_ForEachEdge_def ForEachEdge_def ig_edges_def [symmetric] loop_simps unified_view_def unmarked_def has_key_mark_all
        fold_map comp_def)
qed

lemma UV_NodeCount_eq: "UV_NodeCount v = card (n_ID ` set (ig_nodes (uv_overlay v)) \<union>
    n_ID ` set (ig_nodes (uv_base v)))"
proof -
  have "UV_NodeCount v = length (mark_all n_ID (ig_nodes (uv_base v))
      (mark_all n_ID (ig_nodes (uv_overlay v)) []))"
    by (simp only: UV_NodeCount_def IG_defs ForEachNode_def ig_nodes_def go_range_fold mark_all_def Let_def)
  then show ?thesis by (simp only: length_mark_all)
qed

lemma UV_EdgeCount_eq: "UV_EdgeCount v =
    card ((\<lambda>e. edgeKey (e_From e) (e_To e)) ` set (ig_edges (uv_overlay v)) \<union>
          (\<lambda>e. edgeKey (e_From e) (e_To e)) ` set (ig_edges (uv_base v)))"
proof -
  have "UV_EdgeCount v = length (mark_all (\<lambda>e. edgeKey (e_From e) (e_To e)) (ig_edges (uv_base v))
      (mark_all (\<lambda>e. edgeKey (e_From e) (e_To e)) (ig_edges (uv_overlay v)) []))"
    by (simp only: UV_EdgeCount_def IG_defs ForEachEdge_def ig_edges_def go_range_fold mark_all_def Let_def)
  then show ?thesis by (simp only: length_mark_all)
qed

lemma unmarked_distinct:
  "distinct (map key over) \<Longrightarrow> distinct (map key base) \<Longrightarrow> distinct (map key (over @ unmarked key over base))"
  by (auto simp: unmarked_def distinct_map_filter) (metis image_eqI)

lemma length_unmarked:
  assumes "distinct (map key over)" and "distinct (map key base)"
  shows "length (over @ unmarked key over base) = card (key ` set over \<union> key ` set base)"
proof -
  have "set (map key (over @ unmarked key over base)) = key ` set over \<union> key ` set base"
    by (auto simp: unmarked_def)
  with distinct_card [OF unmarked_distinct [OF assms]] show ?thesis by simp
qed

lemma mergeEdges_fields [simp]:
  "e_From (mergeEdges b e) = e_From e" "e_To (mergeEdges b e) = e_To e"
  "e_Weight (mergeEdges b e) = e_Weight b + e_Weight e" "e_Count (mergeEdges b e) = e_Count b + e_Count e"
  "e_Type (mergeEdges b e) = e_Type e"
  "e_FirstSeen (mergeEdges b e) = min (e_FirstSeen b) (e_FirstSeen e)"
  "e_LastSeen (mergeEdges b e) = max (e_LastSeen b) (e_LastSeen e)"
  by (auto simp: mergeEdges_def)

lemma emit_edge_ends [simp]: "edge_ends (emit_edge v e) = edge_ends e"
  by (simp add: emit_edge_def edge_ends_def split: option.split)

lemma key_ends: "nul_free (e_From e) \<Longrightarrow> nul_free (e_To e) \<Longrightarrow>
    edgeKey (e_From e') (e_To e') = edgeKey (e_From e) (e_To e) \<longleftrightarrow> edge_ends e' = edge_ends e"
  by (auto simp: edgeKey_nul_free_inject edge_ends_def)

lemma stored_nul_free:
  assumes "ig_ok ig" and "e \<in> set (ig_edges ig)"
  shows "nul_free (e_From e)" and "nul_free (e_To e)"
  using stored_endpoints [of "inner ig" e] assms
  by (auto simp: ig_ok_def ig_edges_def GetNode_def ids_nul_free_def keys_eq_dom dom_def)

text \<open>On stored edges the key map may be read as the pair of endpoints.\<close>

lemma unmarked_by_ends:
  assumes "uv_ok v"
  shows "unmarked (\<lambda>e. edgeKey (e_From e) (e_To e)) (ig_edges (uv_overlay v))
      (ig_edges (uv_base v)) =
    unmarked edge_ends (ig_edges (uv_overlay v)) (ig_edges (uv_base v))"
proof -
  have "(\<exists>o' \<in> set (ig_edges (uv_overlay v)). edgeKey (e_From e) (e_To e) = edgeKey (e_From o') (e_To o')) \<longleftrightarrow>
      (\<exists>o' \<in> set (ig_edges (uv_overlay v)). edge_ends e = edge_ends o')" for e
    using assms stored_nul_free [of "uv_overlay v"] by (intro bex_cong refl) (auto simp: uv_ok_def key_ends)
  then show ?thesis
    unfolding unmarked_def by (intro filter_cong refl) (simp add: image_iff)
qed

lemma card_keys_by_ends:
  assumes "uv_ok v"
  shows "UV_EdgeCount v = card (edge_ends ` set (ig_edges (uv_overlay v)) \<union>
      edge_ends ` set (ig_edges (uv_base v)))"
proof -
  let ?E = "set (ig_edges (uv_overlay v)) \<union> set (ig_edges (uv_base v))"
  have nf: "nul_free (e_From e) \<and> nul_free (e_To e)" if "e \<in> ?E" for e
    using that stored_nul_free [of "uv_overlay v" e] stored_nul_free [of "uv_base v" e] assms
    by (auto simp: uv_ok_def)
  have "inj_on (\<lambda>(a, b). edgeKey a b) (edge_ends ` ?E)"
  proof (rule inj_onI)
    fix p q
    assume "p \<in> edge_ends ` ?E" "q \<in> edge_ends ` ?E" "(\<lambda>(a, b). edgeKey a b) p = (\<lambda>(a, b). edgeKey a b) q"
    then obtain e e' where "p = edge_ends e" "q = edge_ends e'" "e' \<in> ?E"
      "edgeKey (e_From e) (e_To e) = edgeKey (e_From e') (e_To e')"
      unfolding edge_ends_def by auto
    with nf [of e'] key_ends [of e' e] show "p = q" by simp
  qed
  then have "card ((\<lambda>(a, b). edgeKey a b) ` edge_ends ` ?E) = card (edge_ends ` ?E)" by (rule card_image)
  then show ?thesis by (simp add: UV_EdgeCount_eq image_image image_Un edge_ends_def)
qed

lemma visit_two_layers:
  "set (snd (fold visit_unseen ys (fold visit_unseen xs ([], [])))) = set xs \<union> set ys"
  "distinct (snd (fold visit_unseen ys (fold visit_unseen xs ([], []))))"
proof -
  note first = visit_unseen_loop [OF seen_agrees_start, of xs]
  with visit_unseen_loop [of "fold visit_unseen xs ([], [])" ys]
  show "set (snd (fold visit_unseen ys (fold visit_unseen xs ([], [])))) = set xs \<union> set ys"
    "distinct (snd (fold visit_unseen ys (fold visit_unseen xs ([], []))))"
    by (auto simp: seen_agrees_def)
qed

lemma layer_laws:
  assumes "ig_ok ig"
  shows "distinct (map n_ID (ig_nodes ig))"
    and "IG_GetNode u ig = Some n \<longleftrightarrow> n \<in> set (ig_nodes ig) \<and> n_ID n = u"
    and "distinct (map edge_ends (ig_edges ig))"
    and "IG_GetEdge u w ig = Some e \<longleftrightarrow> e \<in> set (ig_edges ig) \<and> edge_ends e = (u, w)"
    and "e \<in> set (ig_edges ig) \<Longrightarrow> IG_GetNode (e_From e) ig \<noteq> None \<and> IG_GetNode (e_To e) ig \<noteq> None"
    and "set (IG_OutNeighbors u ig) = {w. IG_GetEdge u w ig \<noteq> None}"
    and "set (IG_InNeighbors u ig) = {w. IG_GetEdge w u ig \<noteq> None}"
    and "set (IG_Neighbors u ig) = set (IG_OutNeighbors u ig) \<union> set (IG_InNeighbors u ig)"
  using ig_view.node_ids_distinct [OF assms] ig_view.GetNode_iff [OF assms, of u n]
    ig_view.edge_ends_distinct [OF assms] ig_view.GetEdge_iff [OF assms, of u w e]
    ig_view.endpoints_present [OF assms, of e] ig_view.OutNeighbors_law [OF assms, of u]
    ig_view.InNeighbors_law [OF assms, of u] ig_view.Neighbors_law [OF assms, of u]
  unfolding immutable_view_def GraphView.select_convs by blast+

lemma UV_GetNode_iff:
  assumes "uv_ok v"
  shows "UV_GetNode u v = Some n \<longleftrightarrow> n \<in> set (gv_nodes (unified_view v)) \<and> n_ID n = u"
proof (cases "IG_GetNode u (uv_overlay v)")
  case None
  with assms have "u \<notin> n_ID ` set (ig_nodes (uv_overlay v))"
    using layer_laws(2) [of "uv_overlay v" u] by (auto simp: uv_ok_def)
  with None layer_laws(2) [of "uv_base v" u n] assms show ?thesis
    by (auto simp: UV_GetNode_def gv_nodes_unified unmarked_def uv_ok_def)
next
  case (Some m)
  with assms have m: "m \<in> set (ig_nodes (uv_overlay v))" "n_ID m = u"
    using layer_laws(2) [of "uv_overlay v" u m] by (auto simp: uv_ok_def)
  have "n = m" if "n \<in> set (ig_nodes (uv_overlay v))" "n_ID n = u"
    using layer_laws(2) [of "uv_overlay v" u n] Some assms that by (simp add: uv_ok_def)
  with Some m show ?thesis
    by (auto simp: UV_GetNode_def gv_nodes_unified unmarked_def)
qed

lemma UV_GetNode_present: "UV_GetNode u v \<noteq> None \<longleftrightarrow> IG_GetNode u (uv_overlay v) \<noteq> None \<or> IG_GetNode u (uv_base v) \<noteq> None"
  by (auto simp: UV_GetNode_def split: option.split)

lemma UV_GetEdge_present: "UV_GetEdge u w v \<noteq> None \<longleftrightarrow> IG_GetEdge u w (uv_overlay v) \<noteq> None \<or> IG_GetEdge u w (uv_base v) \<noteq> None"
  by (auto simp: UV_GetEdge_def split: option.split)

lemma emit_edge_lookup:
  assumes "uv_ok v" and "e \<in> set (ig_edges (uv_overlay v))"
  shows "UV_GetEdge (e_From e) (e_To e) v = Some (emit_edge v e)"
proof -
  have "IG_GetEdge (e_From e) (e_To e) (uv_overlay v) = Some e"
    using assms layer_laws(4) [of "uv_overlay v" "e_From e" "e_To e" e] by (auto simp: uv_ok_def edge_ends_def)
  then show ?thesis by (simp add: UV_GetEdge_def emit_edge_def split: option.split)
qed

lemma gv_edges_unified:
  assumes "uv_ok v"
  shows "gv_edges (unified_view v) = map (emit_edge v) (ig_edges (uv_overlay v)) @
    unmarked edge_ends (ig_edges (uv_overlay v)) (ig_edges (uv_base v))"
  using unmarked_by_ends [OF assms] by (simp add: unified_view_def del: map_map)

lemma UV_GetEdge_iff:
  assumes ok: "uv_ok v"
  shows "UV_GetEdge u w v = Some e \<longleftrightarrow> e \<in> set (gv_edges (unified_view v)) \<and> edge_ends e = (u, w)"
proof (cases "IG_GetEdge u w (uv_overlay v)")
  case None
  with ok have none: "edge_ends x \<noteq> (u, w)" if "x \<in> set (ig_edges (uv_overlay v))" for x
    using that layer_laws(4) [of "uv_overlay v" u w x] by (auto simp: uv_ok_def)
  then have "e \<in> set (gv_edges (unified_view v)) \<and> edge_ends e = (u, w) \<longleftrightarrow>
      e \<in> set (ig_edges (uv_base v)) \<and> edge_ends e = (u, w)"
    unfolding gv_edges_unified [OF ok] unmarked_def by fastforce
  moreover have "UV_GetEdge u w v = IG_GetEdge u w (uv_base v)"
    by (simp add: UV_GetEdge_def None split: option.split)
  ultimately show ?thesis using layer_laws(4) [of "uv_base v" u w e] ok by (simp add: uv_ok_def)
next
  case (Some oe)
  with ok have oe: "oe \<in> set (ig_edges (uv_overlay v))" "edge_ends oe = (u, w)"
    using layer_laws(4) [of "uv_overlay v" u w oe] by (auto simp: uv_ok_def)
  have only: "x = oe" if "x \<in> set (ig_edges (uv_overlay v))" "edge_ends x = (u, w)" for x
    using layer_laws(4) [of "uv_overlay v" u w x] Some ok that by (simp add: uv_ok_def)
  have "e \<in> set (gv_edges (unified_view v)) \<and> edge_ends e = (u, w) \<longleftrightarrow> e = emit_edge v oe"
  proof
    assume e: "e \<in> set (gv_edges (unified_view v)) \<and> edge_ends e = (u, w)"
    with oe have "e \<notin> set (unmarked edge_ends (ig_edges (uv_overlay v)) (ig_edges (uv_base v)))"
      by (force simp: unmarked_def)
    with e obtain x where "x \<in> set (ig_edges (uv_overlay v))" "e = emit_edge v x"
      unfolding gv_edges_unified [OF ok] by auto
    with e only show "e = emit_edge v oe" by auto
  qed (use oe in \<open>simp add: gv_edges_unified [OF ok]\<close>)
  moreover have "UV_GetEdge u w v = Some (emit_edge v oe)"
    using emit_edge_lookup [OF ok oe(1)] oe(2) by (simp add: edge_ends_def)
  ultimately show ?thesis by auto
qed

lemma distinct_emitted:
  assumes "uv_ok v"
  shows "distinct (map edge_ends (gv_edges (unified_view v)))"
  using unmarked_distinct [OF layer_laws(3) layer_laws(3), of "uv_overlay v" "uv_base v"] assms
  by (simp add: gv_edges_unified comp_def uv_ok_def)

interpretation uv_view: graph_view unified_view uv_ok
proof (unfold_locales, goal_cases)
  case (1 v)
  then show ?case
    using unmarked_distinct [OF layer_laws(1) layer_laws(1), of "uv_overlay v" "uv_base v"]
    by (simp add: gv_nodes_unified uv_ok_def del: map_map)
next
  case (2 v u n)
  then show ?case using UV_GetNode_iff by simp
next
  case (3 v)
  then show ?case
    using length_unmarked [OF layer_laws(1) layer_laws(1), of "uv_overlay v" "uv_base v"]
    by (simp add: gv_nodes_unified uv_ok_def UV_NodeCount_eq del: map_map)
next
  case (4 v)
  then show ?case by (rule distinct_emitted)
next
  case (5 v u w e)
  then show ?case using UV_GetEdge_iff by simp
next
  case (6 v)
  then show ?case
    using length_unmarked [OF layer_laws(3) layer_laws(3), of "uv_overlay v" "uv_base v"] card_keys_by_ends [OF 6]
    by (simp add: gv_edges_unified uv_ok_def del: map_map)
next
  case (7 v e)
  then have "UV_GetEdge (e_From e) (e_To e) v \<noteq> None" using UV_GetEdge_iff by (auto simp: edge_ends_def)
  then obtain e' ig where "IG_GetEdge (e_From e) (e_To e) ig = Some e'" "ig = uv_base v \<or> ig = uv_overlay v"
    unfolding UV_GetEdge_present by blast
  with 7 layer_laws(4) [of ig "e_From e" "e_To e" e'] layer_laws(5) [of ig e']
  have "IG_GetNode (e_From e) ig \<noteq> None \<and> IG_GetNode (e_To e) ig \<noteq> None" "ig = uv_base v \<or> ig = uv_overlay v"
    by (auto simp: uv_ok_def edge_ends_def)
  then have "UV_GetNode (e_From e) v \<noteq> None \<and> UV_GetNode (e_To e) v \<noteq> None"
    unfolding UV_GetNode_present by blast
  then show ?case by simp
next
  case (8 v u)
  then show ?case
    by (simp add: UV_OutNeighbors_def visit_two_layers layer_laws(6) uv_ok_def)
      (auto simp: UV_GetEdge_def split: option.splits)
next
  case (9 v u)
  then show ?case
    by (simp add: UV_InNeighbors_def visit_two_layers layer_laws(7) uv_ok_def)
      (auto simp: UV_GetEdge_def split: option.splits)
next
  case (10 v u)
  then show ?case
    by (auto simp: UV_Neighbors_def UV_OutNeighbors_def UV_InNeighbors_def visit_two_layers
        layer_laws(8) uv_ok_def)
qed

section \<open>Properties\<close>

text \<open>
  C5. The unified view of two consistent layers is one graph. \<open>ForEachNode\<close> and \<open>ForEachEdge\<close> with a
  callback that always continues visit exactly the nodes \<open>GetNode\<close> finds and the edges \<open>GetEdge\<close>
  finds, each once, \<open>NodeCount\<close> and \<open>EdgeCount\<close> count those visits, the neighbour queries answer
  as \<open>GetEdge\<close> does without duplicates, and the edge of two layers carries the sum of the
  weights and counts and the union of the time spans.
\<close>

theorem unified_view_is_one_graph:
  assumes "uv_ok v"
  shows "\<exists>ns es.
     (\<forall>f (s :: 's). UV_ForEachNode (\<lambda>n s. (f n s, True)) v s = fold f ns s) \<and>
     distinct (map n_ID ns) \<and> length ns = UV_NodeCount v \<and>
     (\<forall>u n. UV_GetNode u v = Some n \<longleftrightarrow> n \<in> set ns \<and> n_ID n = u) \<and>
     (\<forall>f (s :: 's). UV_ForEachEdge (\<lambda>e s. (f e s, True)) v s = fold f es s) \<and>
     distinct (map edge_ends es) \<and> length es = UV_EdgeCount v \<and>
     (\<forall>u w e. UV_GetEdge u w v = Some e \<longleftrightarrow> e \<in> set es \<and> edge_ends e = (u, w)) \<and>
     (\<forall>u. distinct (UV_OutNeighbors u v) \<and> set (UV_OutNeighbors u v) = {w. UV_GetEdge u w v \<noteq> None}) \<and>
     (\<forall>u. distinct (UV_InNeighbors u v) \<and> set (UV_InNeighbors u v) = {w. UV_GetEdge w u v \<noteq> None}) \<and>
     (\<forall>u. distinct (UV_Neighbors u v) \<and>
          set (UV_Neighbors u v) = set (UV_OutNeighbors u v) \<union> set (UV_InNeighbors u v))"
  using
    uv_view.node_ids_distinct [OF assms] uv_view.NodeCount_visited [OF assms] uv_view.GetNode_iff [OF assms]
    uv_view.edge_ends_distinct [OF assms] uv_view.EdgeCount_visited [OF assms] uv_view.GetEdge_iff [OF assms]
    uv_view.OutNeighbors_law [OF assms] uv_view.InNeighbors_law [OF assms] uv_view.Neighbors_law [OF assms]
  unfolding unified_view_sel
  by (intro exI [of _ "gv_nodes (unified_view v)"] exI [of _ "gv_edges (unified_view v)"])
    (simp add: UV_ForEachNode_visits UV_ForEachEdge_visits)

definition sample_view :: UnifiedView where
  "sample_view = NewUnifiedView \<lparr>inner = sample_graph\<rparr> \<lparr>inner = sample_graph\<rparr>"

lemma sample_view_ok: "uv_ok sample_view"
  using sample_graph_ok by (simp add: uv_ok_def ig_ok_def sample_view_def NewUnifiedView_def)

theorem unified_view_is_one_graph_witness:
  "\<exists>ns :: NodeData list. distinct (map n_ID ns) \<and> length ns = UV_NodeCount sample_view"
proof -
  from unified_view_is_one_graph [OF sample_view_ok]
  obtain ns :: "NodeData list" where "distinct (map n_ID ns)" "length ns = UV_NodeCount sample_view"
    by (elim exE conjE) (rule that, assumption+)
  then show ?thesis by blast
qed

lemma has_key_singleton: "has_key [(k, True)] y \<longleftrightarrow> y = k"
  by (simp add: has_key_def)

lemma go_range_stop:
  "go_range (mark_and_visit key (\<lambda>x s. (s @ [x], False))) (x # xs) ([], []) = ([(key x, True)], [x])"
  "go_range (visit_unmarked key (\<lambda>x s. (s @ [x], False))) ys (seen, s) =
     (seen, s @ take 1 (filter (\<lambda>y. \<not> has_key seen (key y)) ys))"
  by (simp add: mark_and_visit_def) (induction ys arbitrary: s, simp_all add: visit_unmarked_def)

text \<open>
  A callback that asks to stop is not obeyed across the layers: called with a callback that
  records its node and always returns \<open>false\<close>, \<open>ForEachNode\<close> still visits the first overlay node
  and then the first base node with another identifier. The second visit may be an
  out-of-date base node which the overlay overrides.
\<close>

theorem ForEachNode_ignores_stop:
  assumes "ig_nodes (uv_overlay v) = n # ns"
  shows "UV_ForEachNode (\<lambda>x visited. (visited @ [x], False)) v [] =
     n # take 1 (filter (\<lambda>m. n_ID m \<noteq> n_ID n) (ig_nodes (uv_base v)))"
  unfolding UV_ForEachNode_def IG_defs ForEachNode_def ig_nodes_def [symmetric] assms go_range_stop
  by (simp add: has_key_singleton)

theorem ForEachNode_ignores_stop_witness:
  "map n_ID (UV_ForEachNode (\<lambda>x visited. (visited @ [x], False))
     (NewUnifiedView \<lparr>inner = AddNode (fresh_node ''y'' 1) (AddNode (fresh_node ''x'' 1) New)\<rparr>
        \<lparr>inner = AddNode (fresh_node ''y'' 2) (AddNode (fresh_node ''x'' 2) New)\<rparr>) []) = [''x'', ''y'']"
  by (subst ForEachNode_ignores_stop [where n = "fresh_node ''x'' 2" and ns = "[fresh_node ''y'' 2]"])
    (simp_all add: NewUnifiedView_def ig_nodes_def New_def AddNode_def ensure_adjacency_def fresh_node_def)

end
