(* ===== verification/Compaction.thy ===== *)
theory Compaction
  imports Graph_View
begin

text \<open>
  \<open>compact/compact.go\<close>: the merge of the overlay into the base. \<open>Compact\<close> rebuilds one graph from
  the two layers through \<open>AddNode\<close> and \<open>AddEdge\<close> and then repairs the stored edge through the
  pointer \<open>GetEdge\<close> returns. The theorems compare the merged graph with the unified view of the
  two layers: same nodes, same weights, counts and time spans; the edge type, the first-seen
  time and the degree counters are those of the base, the latter counted twice.
\<close>

section \<open>Operations\<close>

record Stats =
  st_NodesMerged :: int
  st_EdgesMerged :: int
  st_OverlayBefore :: int
  st_OverlayAfter :: int
  st_Timestamp :: time

text \<open>An assignment through the pointer \<open>GetEdge\<close> returns.\<close>

definition modify_edge :: "string \<Rightarrow> string \<Rightarrow> (EdgeData \<Rightarrow> EdgeData) \<Rightarrow> Graph \<Rightarrow> Graph" where
  "modify_edge from to f g = (case GetEdge from to g of
     Some ge \<Rightarrow> g\<lparr>g_edges := AList.update (edgeKey from to) (f ge) (g_edges g)\<rparr> | None \<Rightarrow> g)"

definition copy_base_node :: "NodeData \<Rightarrow> Graph \<Rightarrow> Graph" where
  "copy_base_node n g = AddNode \<lparr>n_ID = n_ID n, n_Type = n_Type n, n_Degree = n_Degree n,
     n_InDegree = n_InDegree n, n_OutDegree = n_OutDegree n, n_Attributes = None,
     n_FirstSeen = n_FirstSeen n, n_LastSeen = n_LastSeen n\<rparr> g"

definition copy_base_edge :: "EdgeData \<Rightarrow> Graph \<Rightarrow> Graph option" where
  "copy_base_edge e g = do {
     g1 \<leftarrow> AddEdge (e_From e) (e_To e) (e_Weight e) (e_Type e) (e_FirstSeen e) g;
     Some (modify_edge (e_From e) (e_To e) (\<lambda>ge. ge\<lparr>e_Count := e_Count e, e_LastSeen := e_LastSeen e\<rparr>) g1)
   }"

definition merge_overlay_node :: "NodeData \<Rightarrow> Graph \<times> int \<Rightarrow> Graph \<times> int" where
  "merge_overlay_node n = (\<lambda>(g, merged).
     let merged' = (case GetNode (n_ID n) g of Some _ \<Rightarrow> merged + 1 | None \<Rightarrow> merged)
     in (AddNode \<lparr>n_ID = n_ID n, n_Type = n_Type n, n_Degree = 0, n_InDegree = 0, n_OutDegree = 0,
           n_Attributes = None, n_FirstSeen = n_FirstSeen n, n_LastSeen = n_LastSeen n\<rparr> g, merged'))"

definition merge_overlay_edge :: "EdgeData \<Rightarrow> Graph \<times> int \<Rightarrow> (Graph \<times> int) option" where
  "merge_overlay_edge e = (\<lambda>(g, merged).
     let merged' = (case GetEdge (e_From e) (e_To e) g of Some _ \<Rightarrow> merged + 1 | None \<Rightarrow> merged)
     in do {
       g1 \<leftarrow> AddEdge (e_From e) (e_To e) (e_Weight e) (e_Type e) (e_FirstSeen e) g;
       Some (modify_edge (e_From e) (e_To e)
         (\<lambda>ge. let ge' = ge\<lparr>e_Count := e_Count ge + (e_Count e - 1)\<rparr>
               in if e_LastSeen e > e_LastSeen ge' then ge'\<lparr>e_LastSeen := e_LastSeen e\<rparr> else ge') g1, merged')
     })"

definition Compact :: "time \<Rightarrow> ImmutableGraph \<Rightarrow> ImmutableGraph \<Rightarrow> (ImmutableGraph \<times> Stats) option" where
  "Compact start base overlay =
     (let overlayNodes = IG_ForEachNode (\<lambda>n c. (c + 1, True)) overlay (0 :: int);
          overlayEdges = IG_ForEachEdge (\<lambda>e c. (c + 1, True)) overlay (0 :: int);
          g1 = IG_ForEachNode (\<lambda>n g. (copy_base_node n g, True)) base New
      in do {
        g2 \<leftarrow> IG_ForEachEdge (\<lambda>e g. (Option.bind g (copy_base_edge e), True)) base (Some g1);
        let (g3, nodesMerged) = IG_ForEachNode (\<lambda>n s. (merge_overlay_node n s, True)) overlay (g2, 0);
        (g4, edgesMerged) \<leftarrow>
          IG_ForEachEdge (\<lambda>e s. (Option.bind s (merge_overlay_edge e), True)) overlay (Some (g3, 0));
        result \<leftarrow> NewImmutable g4;
        Some (result, \<lparr>st_NodesMerged = nodesMerged, st_EdgesMerged = edgesMerged,
          st_OverlayBefore = overlayNodes + overlayEdges, st_OverlayAfter = 0, st_Timestamp = start\<rparr>)
      })"

datatype Strategy = ByVolume | ByTime | Manual

definition shouldCompact :: "time \<Rightarrow> Strategy \<Rightarrow> int \<Rightarrow> int \<Rightarrow> time \<Rightarrow> duration \<Rightarrow> bool" where
  "shouldCompact now strategy overlayEvents threshold lastCompaction interval =
     (case strategy of ByVolume \<Rightarrow> overlayEvents \<ge> threshold
      | ByTime \<Rightarrow> now - lastCompaction \<ge> interval
      | Manual \<Rightarrow> False)"

section \<open>One step\<close>

lemma wf_update_edge:
  assumes wf: "wf_graph g" and old: "map_of (g_edges g) k = Some e" and ends: "e_From e' = e_From e" "e_To e' = e_To e"
  shows "wf_graph (g\<lparr>g_edges := AList.update k e' (g_edges g)\<rparr>)"
proof -
  let ?g = "g\<lparr>g_edges := AList.update k e' (g_edges g)\<rparr>"
  have "(e_From e', e_To e') \<in> edge_pairs g"
    using wf old ends by (auto simp: edge_pairs_iff wf_graph_iff)
  then have pairs: "edge_pairs ?g = edge_pairs g"
    using edge_pairs_update [of g ?g k e'] wf_graphD(2) [OF wf] old ends by (simp add: insert_absorb)
  show ?thesis
    using wf old ends unfolding wf_graph_iff pairs by auto
qed

lemma modify_edge_frame:
  "g_nodes (modify_edge u v f g) = g_nodes g"
  "OutNeighbors k (modify_edge u v f g) = OutNeighbors k g"
  "InNeighbors k (modify_edge u v f g) = InNeighbors k g"
  by (auto simp: modify_edge_def OutNeighbors_def InNeighbors_def split: option.split)

lemma map_of_modify_edge:
  "map_of (g_edges (modify_edge u v f g)) k =
     (if k = edgeKey u v then map_option f (map_of (g_edges g) k) else map_of (g_edges g) k)"
  by (auto simp: modify_edge_def GetEdge_def split: option.split)

lemma wf_modify_edge:
  assumes "wf_graph g" and "\<And>e. e_From (f e) = e_From e \<and> e_To (f e) = e_To e"
  shows "wf_graph (modify_edge u v f g)"
  using assms wf_update_edge [OF assms(1), of "edgeKey u v"]
  by (auto simp: modify_edge_def GetEdge_def split: option.split)

text \<open>Degree counters that count the neighbours in excess of a given offset.\<close>

definition degrees_off :: "(string \<Rightarrow> int \<times> int \<times> int) \<Rightarrow> Graph \<Rightarrow> bool" where
  "degrees_off off g \<longleftrightarrow> (\<forall>k n. map_of (g_nodes g) k = Some n \<longrightarrow>
     (n_OutDegree n, n_InDegree n, n_Degree n) =
       (fst (off k) + int (length (OutNeighbors k g)), fst (snd (off k)) + int (length (InNeighbors k g)),
        snd (snd (off k)) + int (length (OutNeighbors k g)) + int (length (InNeighbors k g))))"

definition same_identity :: "NodeData \<Rightarrow> NodeData \<Rightarrow> bool" where
  "same_identity n m \<longleftrightarrow> n_ID n = n_ID m \<and> n_Type n = n_Type m \<and> n_FirstSeen n = n_FirstSeen m \<and>
     n_LastSeen n = n_LastSeen m \<and> n_Attributes n = n_Attributes m"

lemma AddEdge_between_present:
  assumes wf: "wf_graph g" and ends: "from \<in> dom (map_of (g_nodes g))" "to \<in> dom (map_of (g_nodes g))"
  obtains g' where "AddEdge from to w ty ts g = Some g'" and "wf_graph g'"
    and "map_of (g_edges g') = (map_of (g_edges g))
           (edgeKey from to \<mapsto> edge_after from to w ty ts (map_of (g_edges g) (edgeKey from to)))"
    and "\<And>k. rel_option same_identity (map_of (g_nodes g') k) (map_of (g_nodes g) k)"
    and "\<And>off. degrees_off off g \<Longrightarrow> degrees_off off g'"
proof -
  obtain g' where add: "AddEdge from to w ty ts g = Some g'" using AddEdge_total [OF wf] by fastforce
  show thesis
  proof (rule that [OF add AddEdge_wf [OF add wf] AddEdge_edges [OF add wf]])
    show "rel_option same_identity (map_of (g_nodes g') k) (map_of (g_nodes g) k)" for k
      using ends by (auto simp: AddEdge_nodes [OF add wf] node_after_def Let_def same_identity_def count_link_def
          option.rel_map split: option.split)
    show "degrees_off off g'" if "degrees_off off g" for off
      using that ends
      by (auto simp: degrees_off_def AddEdge_nodes [OF add wf] AddEdge_neighbour_counts [OF add wf] node_after_def
          Let_def count_link_def split: option.splits if_splits)
  qed
qed

lemma degrees_off_modify_edge [simp]: "degrees_off off (modify_edge u v f g) = degrees_off off g"
  by (simp add: degrees_off_def modify_edge_frame)

lemma copy_base_edge_correct:
  assumes wf: "wf_graph g" and ends: "e_From e \<in> dom (map_of (g_nodes g))" "e_To e \<in> dom (map_of (g_nodes g))"
    and fresh: "map_of (g_edges g) (edgeKey (e_From e) (e_To e)) = None"
  shows "\<exists>g'. copy_base_edge e g = Some g' \<and> wf_graph g' \<and>
    map_of (g_edges g') = (map_of (g_edges g))(edgeKey (e_From e) (e_To e) \<mapsto> e) \<and>
    (\<forall>k. rel_option same_identity (map_of (g_nodes g') k) (map_of (g_nodes g) k)) \<and>
    (\<forall>off. degrees_off off g \<longrightarrow> degrees_off off g')"
proof -
  let ?fix = "\<lambda>ge. ge\<lparr>e_Count := e_Count e, e_LastSeen := e_LastSeen e\<rparr>"
  obtain g1 where g1: "AddEdge (e_From e) (e_To e) (e_Weight e) (e_Type e) (e_FirstSeen e) g = Some g1" "wf_graph g1"
    and edges: "map_of (g_edges g1) = (map_of (g_edges g)) (edgeKey (e_From e) (e_To e) \<mapsto>
          edge_after (e_From e) (e_To e) (e_Weight e) (e_Type e) (e_FirstSeen e)
            (map_of (g_edges g) (edgeKey (e_From e) (e_To e))))"
    and nodes: "\<And>k. rel_option same_identity (map_of (g_nodes g1) k) (map_of (g_nodes g) k)"
    and deg: "\<And>off. degrees_off off g \<Longrightarrow> degrees_off off g1"
    by (rule AddEdge_between_present [OF wf ends]) blast
  have "?fix (fresh_edge (e_From e) (e_To e) (e_Weight e) (e_Type e) (e_FirstSeen e)) = e"
    by (simp add: fresh_edge_def)
  with g1 edges nodes deg fresh show ?thesis
    by (auto simp: edge_after_def copy_base_edge_def modify_edge_frame map_of_modify_edge fun_eq_iff intro!: wf_modify_edge)
qed

text \<open>The edge \<open>Compact\<close> stores for a key, given the two layers' edges.\<close>

definition compact_edge :: "EdgeData option \<Rightarrow> EdgeData option \<Rightarrow> EdgeData option" where
  "compact_edge b e = (case (b, e) of
     (None, None) \<Rightarrow> None
   | (Some be, None) \<Rightarrow> Some be
   | (None, Some oe) \<Rightarrow> Some (oe\<lparr>e_LastSeen := max (e_FirstSeen oe) (e_LastSeen oe)\<rparr>)
   | (Some be, Some oe) \<Rightarrow> Some (be\<lparr>e_Weight := e_Weight be + e_Weight oe, e_Count := e_Count be + e_Count oe,
       e_FirstSeen := min (e_FirstSeen be) (e_FirstSeen oe),
       e_LastSeen := max (max (e_LastSeen be) (e_FirstSeen oe)) (e_LastSeen oe)\<rparr>))"

lemma merge_overlay_edge_correct:
  assumes wf: "wf_graph g" and ends: "e_From e \<in> dom (map_of (g_nodes g))" "e_To e \<in> dom (map_of (g_nodes g))"
  shows "\<exists>g'. merge_overlay_edge e (g, merged) =
      Some (g', if map_of (g_edges g) (edgeKey (e_From e) (e_To e)) = None then merged else merged + 1) \<and> wf_graph g' \<and>
    map_of (g_edges g') = (map_of (g_edges g))(edgeKey (e_From e) (e_To e) :=
       compact_edge (map_of (g_edges g) (edgeKey (e_From e) (e_To e))) (Some e)) \<and>
    (\<forall>k. rel_option same_identity (map_of (g_nodes g') k) (map_of (g_nodes g) k)) \<and>
    (\<forall>off. degrees_off off g \<longrightarrow> degrees_off off g')"
proof -
  let ?k = "edgeKey (e_From e) (e_To e)"
  let ?fix = "\<lambda>ge. let ge' = ge\<lparr>e_Count := e_Count ge + (e_Count e - 1)\<rparr>
               in if e_LastSeen e > e_LastSeen ge' then ge'\<lparr>e_LastSeen := e_LastSeen e\<rparr> else ge'"
  obtain g1 where g1: "AddEdge (e_From e) (e_To e) (e_Weight e) (e_Type e) (e_FirstSeen e) g = Some g1" "wf_graph g1"
    and edges: "map_of (g_edges g1) = (map_of (g_edges g)) (?k \<mapsto>
          edge_after (e_From e) (e_To e) (e_Weight e) (e_Type e) (e_FirstSeen e) (map_of (g_edges g) ?k))"
    and nodes: "\<And>k. rel_option same_identity (map_of (g_nodes g1) k) (map_of (g_nodes g) k)"
    and deg: "\<And>off. degrees_off off g \<Longrightarrow> degrees_off off g1"
    by (rule AddEdge_between_present [OF wf ends]) blast
  have "Some (?fix (edge_after (e_From e) (e_To e) (e_Weight e) (e_Type e) (e_FirstSeen e) (map_of (g_edges g) ?k))) =
      compact_edge (map_of (g_edges g) ?k) (Some e)"
    by (cases "map_of (g_edges g) ?k")
      (auto simp: edge_after_def compact_edge_def Let_def intro!: EdgeData_eqI)
  with edges have "map_of (g_edges (modify_edge (e_From e) (e_To e) ?fix g1)) =
      (map_of (g_edges g))(?k := compact_edge (map_of (g_edges g) ?k) (Some e))"
    by (auto simp: map_of_modify_edge fun_eq_iff)
  with g1 nodes deg show ?thesis
    by (auto simp: merge_overlay_edge_def GetEdge_def modify_edge_frame Let_def intro!: wf_modify_edge split: option.split)
qed

section \<open>The four loops\<close>

definition by_id :: "NodeData list \<Rightarrow> (string, NodeData) gomap" where
  "by_id ns = map (\<lambda>n. (n_ID n, n)) ns"

definition by_key :: "EdgeData list \<Rightarrow> (string, EdgeData) gomap" where
  "by_key es = map (\<lambda>e. (edgeKey (e_From e) (e_To e), e)) es"

lemma by_id_nodes: "wf_graph g \<Longrightarrow> by_id (map snd (g_nodes g)) = g_nodes g"
  by (auto simp: by_id_def wf_graph_def intro!: map_idI)

lemma by_key_edges: "wf_graph g \<Longrightarrow> by_key (map snd (g_edges g)) = g_edges g"
  by (auto simp: by_key_def wf_graph_def intro!: map_idI)

text \<open>Steps 1 and 2: the base.\<close>

definition stripped :: "NodeData \<Rightarrow> NodeData" where
  "stripped n = n\<lparr>n_Attributes := None\<rparr>"

lemma stripped_fields [simp]:
  "n_ID (stripped n) = n_ID n" "n_Type (stripped n) = n_Type n" "n_Degree (stripped n) = n_Degree n"
  "n_InDegree (stripped n) = n_InDegree n" "n_OutDegree (stripped n) = n_OutDegree n"
  "n_FirstSeen (stripped n) = n_FirstSeen n" "n_LastSeen (stripped n) = n_LastSeen n"
  "n_Attributes (stripped n) = None" "wf_attributes (stripped n)"
  by (simp_all add: stripped_def wf_attributes_def)

lemma copy_base_node_stripped: "copy_base_node n = AddNode (stripped n)"
  by (rule ext, cases n) (simp add: copy_base_node_def stripped_def)

lemma copy_base_nodes_loop:
  assumes "wf_graph g" and "g_edges g = []" and "distinct (map n_ID ns)"
    and "n_ID ` set ns \<inter> fst ` set (g_nodes g) = {}"
  shows "wf_graph (fold copy_base_node ns g) \<and> g_edges (fold copy_base_node ns g) = [] \<and>
    g_nodes (fold copy_base_node ns g) = g_nodes g @ by_id (map stripped ns)"
  using assms
proof (induction ns arbitrary: g)
  case (Cons n ns)
  then have "map_of (g_nodes g) (n_ID n) = None" by (auto simp: map_of_eq_None_iff)
  then have "g_nodes (AddNode (stripped n) g) = g_nodes g @ [(n_ID n, stripped n)]"
    by (simp add: AddNode_def update_absent)
  with Cons.IH [of "AddNode (stripped n) g"] Cons.prems show ?case
    by (auto simp: AddNode_frame wf_AddNode copy_base_node_stripped by_id_def)
qed (simp add: by_id_def)

lemma same_identity_trans:
  "rel_option same_identity a b \<Longrightarrow> rel_option same_identity b c \<Longrightarrow> rel_option same_identity a c"
  by (cases a; cases b; cases c) (auto simp: same_identity_def)

lemma same_identity_dom:
  "(\<And>k. rel_option same_identity (m k) (m' k)) \<Longrightarrow> dom m = dom m'"
  by (auto simp: dom_def) (metis option.rel_distinct not_None_eq)+

lemma copy_base_edges_loop:
  assumes wf: "wf_graph g" and edges: "g_edges g = []"
    and ends: "\<forall>e \<in> set es. e_From e \<in> dom (map_of (g_nodes g)) \<and> e_To e \<in> dom (map_of (g_nodes g))"
    and keys: "wf_gomap (by_key es)"
  shows "\<exists>g'. ofold copy_base_edge es g = Some g' \<and> wf_graph g' \<and> map_of (g_edges g') = map_of (by_key es) \<and>
    (\<forall>k. rel_option same_identity (map_of (g_nodes g') k) (map_of (g_nodes g) k)) \<and>
    (\<forall>off. degrees_off off g \<longrightarrow> degrees_off off g')"
proof (rule ofold_rule)
  fix "done" e rest g1
  assume split: "es = done @ e # rest" and P: "wf_graph g1 \<and> map_of (g_edges g1) = map_of (by_key done) \<and>
    (\<forall>k. rel_option same_identity (map_of (g_nodes g1) k) (map_of (g_nodes g) k)) \<and>
    (\<forall>off. degrees_off off g \<longrightarrow> degrees_off off g1)"
  then have "dom (map_of (g_nodes g1)) = dom (map_of (g_nodes g))" by (intro same_identity_dom) blast
  with ends split have ends1: "e_From e \<in> dom (map_of (g_nodes g1))" "e_To e \<in> dom (map_of (g_nodes g1))" by auto
  from keys split have new: "map_of (by_key done) (edgeKey (e_From e) (e_To e)) = None"
    by (auto simp: by_key_def map_of_eq_None_iff)
  then have "map_of (by_key (done @ [e])) = (map_of (by_key done))(edgeKey (e_From e) (e_To e) \<mapsto> e)"
    by (auto simp: by_key_def map_add_def fun_eq_iff split: option.split)
  with P copy_base_edge_correct [of g1 e, OF _ ends1] new
  show "\<exists>g'. copy_base_edge e g1 = Some g' \<and> wf_graph g' \<and> map_of (g_edges g') = map_of (by_key (done @ [e])) \<and>
    (\<forall>k. rel_option same_identity (map_of (g_nodes g') k) (map_of (g_nodes g) k)) \<and>
    (\<forall>off. degrees_off off g \<longrightarrow> degrees_off off g')"
    by (metis same_identity_trans)
qed (use wf edges in \<open>auto simp: by_key_def option.rel_refl same_identity_def\<close>)

text \<open>Step 3: the overlay's nodes.\<close>

definition compact_node :: "NodeData option \<Rightarrow> NodeData option \<Rightarrow> NodeData option" where
  "compact_node b n = (case n of None \<Rightarrow> b
   | Some ov \<Rightarrow> Some (case b of
       None \<Rightarrow> stripped ov
     | Some old \<Rightarrow> old\<lparr>n_Type := n_Type ov,
         n_LastSeen := if n_LastSeen ov \<noteq> 0 then n_LastSeen ov else n_LastSeen old\<rparr>))"

lemma merge_overlay_nodes_loop:
  assumes "wf_graph g" and "distinct (map n_ID ns)"
    and "\<And>n. n \<in> set ns \<Longrightarrow> map_of (g_nodes g) (n_ID n) = None \<Longrightarrow> off (n_ID n) = (0, 0, 0)"
    and "degrees_off off g"
  shows "\<exists>g'. fold merge_overlay_node ns (g, c) =
      (g', c + int (length (filter (\<lambda>n. map_of (g_nodes g) (n_ID n) \<noteq> None) ns))) \<and>
    wf_graph g' \<and> g_edges g' = g_edges g \<and> degrees_off off g' \<and>
    (\<forall>k. rel_option same_identity (map_of (g_nodes g') k) (compact_node (map_of (g_nodes g) k) (map_of (by_id ns) k)))"
  using assms
proof (induction ns arbitrary: g c)
  case Nil
  then show ?case by (auto simp: by_id_def compact_node_def option.rel_refl same_identity_def)
next
  case (Cons n ns)
  let ?n = "\<lparr>n_ID = n_ID n, n_Type = n_Type n, n_Degree = 0, n_InDegree = 0, n_OutDegree = 0,
           n_Attributes = None, n_FirstSeen = n_FirstSeen n, n_LastSeen = n_LastSeen n\<rparr>"
  let ?g = "AddNode ?n g"
  have wf: "wf_graph ?g" using Cons.prems(1) by (simp add: wf_AddNode wf_attributes_def)
  have look: "map_of (g_nodes ?g) k = (if k = n_ID n then Some (case map_of (g_nodes g) k of None \<Rightarrow> ?n
      | Some old \<Rightarrow> old\<lparr>n_Type := n_Type n, n_LastSeen := if n_LastSeen n \<noteq> 0 then n_LastSeen n else n_LastSeen old\<rparr>)
      else map_of (g_nodes g) k)" for k
    by (simp add: map_of_AddNode split: option.split)
  have "degrees_off off ?g"
    using Cons.prems(3) [of n] Cons.prems(4) no_neighbors_of_absent [OF Cons.prems(1), of "n_ID n"]
    by (auto simp: degrees_off_def look AddNode_frame split: if_splits option.splits)
  moreover have same: "map_of (g_nodes ?g) (n_ID m) = None \<longleftrightarrow> map_of (g_nodes g) (n_ID m) = None" if "m \<in> set ns" for m
    using that Cons.prems(2) by (auto simp: look simp del: not_None_eq) (metis image_eqI)
  moreover have filt: "filter (\<lambda>n. map_of (g_nodes ?g) (n_ID n) \<noteq> None) ns = filter (\<lambda>n. map_of (g_nodes g) (n_ID n) \<noteq> None) ns"
    using same by (intro filter_cong) auto
  moreover have step: "merge_overlay_node n (g, c) = (?g, if map_of (g_nodes g) (n_ID n) = None then c else c + 1)"
    by (auto simp: merge_overlay_node_def GetNode_def split: option.split)
  moreover have "\<And>m. m \<in> set ns \<Longrightarrow> map_of (g_nodes ?g) (n_ID m) = None \<Longrightarrow> off (n_ID m) = (0, 0, 0)"
    using same Cons.prems(3) by simp
  ultimately obtain g' where g': "fold merge_overlay_node (n # ns) (g, c) =
      (g', c + int (length (filter (\<lambda>n. map_of (g_nodes g) (n_ID n) \<noteq> None) (n # ns))))"
    "wf_graph g'" "g_edges g' = g_edges g" "degrees_off off g'"
    "\<forall>k. rel_option same_identity (map_of (g_nodes g') k) (compact_node (map_of (g_nodes ?g) k) (map_of (by_id ns) k))"
    using Cons.IH [OF wf, of "if map_of (g_nodes g) (n_ID n) = None then c else c + 1"] Cons.prems(2)
    by (auto simp: AddNode_frame simp del: not_None_eq)
  moreover have "rel_option same_identity (compact_node (map_of (g_nodes ?g) k) (map_of (by_id ns) k))
      (compact_node (map_of (g_nodes g) k) (map_of (by_id (n # ns)) k))" for k
  proof (cases "k = n_ID n")
    case True
    with Cons.prems(2) have "map_of (by_id ns) k = None"
      by (auto simp: by_id_def map_of_eq_None_iff)
    with True show ?thesis
      by (auto simp: look by_id_def compact_node_def same_identity_def split: option.split)
  next
    case False
    then show ?thesis by (simp add: look by_id_def option.rel_refl same_identity_def)
  qed
  ultimately show ?case using same_identity_trans by blast
qed

text \<open>Step 4: the overlay's edges.\<close>

lemma merge_overlay_edges_loop:
  assumes wf: "wf_graph g"
    and ends: "\<forall>e \<in> set es. e_From e \<in> dom (map_of (g_nodes g)) \<and> e_To e \<in> dom (map_of (g_nodes g))"
    and keys: "wf_gomap (by_key es)"
  shows "\<exists>s. ofold merge_overlay_edge es (g, 0) = Some s \<and> wf_graph (fst s) \<and>
    (\<forall>k. map_of (g_edges (fst s)) k = compact_edge (map_of (g_edges g) k) (map_of (by_key es) k)) \<and>
    (\<forall>k. rel_option same_identity (map_of (g_nodes (fst s)) k) (map_of (g_nodes g) k)) \<and>
    (\<forall>off. degrees_off off g \<longrightarrow> degrees_off off (fst s)) \<and>
    snd s = int (length (filter (\<lambda>e. map_of (g_edges g) (edgeKey (e_From e) (e_To e)) \<noteq> None) es))"
    (is "\<exists>s. _ \<and> ?P es s")
proof (rule ofold_rule)
  fix "done" e rest s
  assume split: "es = done @ e # rest" and P: "?P done s"
  let ?k = "edgeKey (e_From e) (e_To e)"
  obtain g1 c where s: "s = (g1, c)" by force
  from P have "dom (map_of (g_nodes (fst s))) = dom (map_of (g_nodes g))" by (intro same_identity_dom) blast
  with ends split s have ends1: "e_From e \<in> dom (map_of (g_nodes g1))" "e_To e \<in> dom (map_of (g_nodes g1))" by auto
  from keys split have new: "map_of (by_key done) ?k = None"
    by (auto simp: by_key_def map_of_eq_None_iff)
  then have snoc: "map_of (by_key (done @ [e])) = (map_of (by_key done))(?k \<mapsto> e)"
    by (auto simp: by_key_def map_add_def fun_eq_iff split: option.split)
  have old: "map_of (g_edges g1) ?k = map_of (g_edges g) ?k"
    using P new s by (simp add: compact_edge_def split: option.split)
  obtain g2 where g2: "merge_overlay_edge e (g1, c) = Some (g2, if map_of (g_edges g1) ?k = None then c else c + 1)"
    "wf_graph g2" "map_of (g_edges g2) = (map_of (g_edges g1))(?k := compact_edge (map_of (g_edges g1) ?k) (Some e))"
    "\<forall>k. rel_option same_identity (map_of (g_nodes g2) k) (map_of (g_nodes g1) k)"
    "\<forall>off. degrees_off off g1 \<longrightarrow> degrees_off off g2"
    using merge_overlay_edge_correct [of g1 e c, OF _ ends1] P s by auto
  have "map_of (g_edges g2) k = compact_edge (map_of (g_edges g) k) (map_of (by_key (done @ [e])) k)" for k
    using P s old by (simp add: g2(3) snoc)
  moreover have "rel_option same_identity (map_of (g_nodes g2) k) (map_of (g_nodes g) k)" for k
    using P s g2(4) same_identity_trans by fastforce
  ultimately show "\<exists>s'. merge_overlay_edge e s = Some s' \<and> ?P (done @ [e]) s'"
    using g2(1,2,5) P s old by (auto simp del: not_None_eq)
qed (use wf in \<open>auto simp: by_key_def compact_edge_def option.rel_refl same_identity_def split: option.split\<close>)

section \<open>The merged graph\<close>

lemma fold_count: "fold (\<lambda>x c. c + 1) xs (c :: int) = c + int (length xs)"
  by (induction xs arbitrary: c) simp_all

definition base_degrees :: "ImmutableGraph \<Rightarrow> string \<Rightarrow> int \<times> int \<times> int" where
  "base_degrees base u = (case IG_GetNode u base of None \<Rightarrow> (0, 0, 0)
     | Some n \<Rightarrow> (n_OutDegree n, n_InDegree n, n_Degree n))"

lemma base_copied:
  assumes ok: "ig_ok base"
  shows "\<exists>g2. ofold copy_base_edge (ig_edges base) (fold copy_base_node (ig_nodes base) New) = Some g2 \<and> wf_graph g2 \<and>
    map_of (g_edges g2) = map_of (g_edges (inner base)) \<and> degrees_off (base_degrees base) g2 \<and>
    (\<forall>k. rel_option same_identity (map_of (g_nodes g2) k) (map_option stripped (IG_GetNode k base)))"
proof -
  let ?g1 = "fold copy_base_node (ig_nodes base) New"
  have wf: "wf_graph (inner base)" using ok by (simp add: ig_ok_def)
  have g1: "wf_graph ?g1" "g_edges ?g1 = []" "g_nodes ?g1 = by_id (map stripped (ig_nodes base))"
    using copy_base_nodes_loop [OF wf_New(1) _ layer_laws(1) [OF ok]] by (simp_all add: New_def)
  have look: "map_of (g_nodes ?g1) k = map_option stripped (IG_GetNode k base)" for k
  proof -
    have "by_id (map stripped (ig_nodes base)) = map (\<lambda>(k, n). (k, stripped n)) (by_id (ig_nodes base))"
      by (simp add: by_id_def)
    also have "by_id (ig_nodes base) = g_nodes (inner base)" unfolding ig_nodes_def by (rule by_id_nodes [OF wf])
    finally show ?thesis by (simp add: g1(3) map_of_map IG_GetNode_def GetNode_def)
  qed
  have "edge_pairs ?g1 = {}" by (simp add: edge_pairs_def g1(2))
  then have none: "OutNeighbors k ?g1 = [] \<and> InNeighbors k ?g1 = []" for k
    using OutNeighbors_pairs [OF g1(1), of _ k] InNeighbors_pairs [OF g1(1), of _ k] by (metis empty_iff list.set_intros(1) neq_Nil_conv)
  then have "degrees_off (base_degrees base) ?g1"
    by (auto simp: degrees_off_def look base_degrees_def)
  moreover have "\<forall>e \<in> set (ig_edges base). e_From e \<in> dom (map_of (g_nodes ?g1)) \<and> e_To e \<in> dom (map_of (g_nodes ?g1))"
    using layer_laws(5) [OF ok] by (auto simp: look dom_def)
  moreover have "by_key (ig_edges base) = g_edges (inner base)" using by_key_edges [OF wf] by (simp add: ig_edges_def)
  ultimately show ?thesis
    using copy_base_edges_loop [OF g1(1,2), of "ig_edges base"] wf_graphD(2) [OF wf] unfolding look
    by simp blast
qed

lemma compact_node_cong:
  "rel_option same_identity a b \<Longrightarrow> rel_option same_identity (compact_node a n) (compact_node b n)"
  by (cases a; cases b; cases n) (auto simp: compact_node_def same_identity_def)

lemma Compact_correct:
  assumes base: "ig_ok base" and overlay: "ig_ok overlay"
  obtains ig st where "Compact start base overlay = Some (ig, st)" and "wf_graph (inner ig)"
    and "\<And>u v. IG_GetEdge u v ig = compact_edge (IG_GetEdge u v base) (IG_GetEdge u v overlay)"
    and "\<And>u. rel_option same_identity (IG_GetNode u ig)
           (compact_node (map_option stripped (IG_GetNode u base)) (IG_GetNode u overlay))"
    and "degrees_off (base_degrees base) (inner ig)"
    and "st = \<lparr>st_NodesMerged = int (length (filter (\<lambda>n. IG_GetNode (n_ID n) base \<noteq> None) (ig_nodes overlay))),
           st_EdgesMerged = int (length (filter (\<lambda>e. IG_GetEdge (e_From e) (e_To e) base \<noteq> None) (ig_edges overlay))),
           st_OverlayBefore = int (IG_NodeCount overlay) + int (IG_EdgeCount overlay), st_OverlayAfter = 0,
           st_Timestamp = start\<rparr>"
proof -
  have wfo: "wf_graph (inner overlay)" using overlay by (simp add: ig_ok_def)
  obtain g2 where g2: "ofold copy_base_edge (ig_edges base) (fold copy_base_node (ig_nodes base) New) = Some g2"
    "wf_graph g2" "map_of (g_edges g2) = map_of (g_edges (inner base))" "degrees_off (base_degrees base) g2"
    and n2: "\<And>k. rel_option same_identity (map_of (g_nodes g2) k) (map_option stripped (IG_GetNode k base))"
    using base_copied [OF base] by blast
  have present: "map_of (g_nodes g2) k = None \<longleftrightarrow> IG_GetNode k base = None" for k
    using n2 [of k] by (cases "map_of (g_nodes g2) k"; cases "IG_GetNode k base") auto
  obtain g3 where g3: "fold merge_overlay_node (ig_nodes overlay) (g2, 0) =
      (g3, int (length (filter (\<lambda>n. IG_GetNode (n_ID n) base \<noteq> None) (ig_nodes overlay))))"
    "wf_graph g3" "g_edges g3 = g_edges g2" "degrees_off (base_degrees base) g3"
    and n3: "\<And>k. rel_option same_identity (map_of (g_nodes g3) k)
        (compact_node (map_of (g_nodes g2) k) (map_of (by_id (ig_nodes overlay)) k))"
    using merge_overlay_nodes_loop [OF g2(2) layer_laws(1) [OF overlay] _ g2(4), of 0]
    by (auto simp: present base_degrees_def simp del: not_None_eq)
  have by_id: "map_of (by_id (ig_nodes overlay)) k = IG_GetNode k overlay" for k
    using by_id_nodes [OF wfo] by (simp add: ig_nodes_def IG_GetNode_def GetNode_def)
  have by_key: "by_key (ig_edges overlay) = g_edges (inner overlay)"
    using by_key_edges [OF wfo] by (simp add: ig_edges_def)
  have ends: "\<forall>e \<in> set (ig_edges overlay). e_From e \<in> dom (map_of (g_nodes g3)) \<and> e_To e \<in> dom (map_of (g_nodes g3))"
  proof
    fix e assume "e \<in> set (ig_edges overlay)"
    with layer_laws(5) [OF overlay] have "IG_GetNode (e_From e) overlay \<noteq> None" "IG_GetNode (e_To e) overlay \<noteq> None" by auto
    with n3 [of "e_From e"] n3 [of "e_To e"] show "e_From e \<in> dom (map_of (g_nodes g3)) \<and> e_To e \<in> dom (map_of (g_nodes g3))"
      by (auto simp: by_id compact_node_def rel_option_iff split: option.splits)
  qed
  obtain g4 c where g4: "ofold merge_overlay_edge (ig_edges overlay) (g3, 0) = Some (g4, c)" "wf_graph g4"
    "\<And>k. map_of (g_edges g4) k = compact_edge (map_of (g_edges g3) k) (map_of (by_key (ig_edges overlay)) k)"
    "\<And>k. rel_option same_identity (map_of (g_nodes g4) k) (map_of (g_nodes g3) k)"
    "degrees_off (base_degrees base) g4"
    "c = int (length (filter (\<lambda>e. map_of (g_edges g3) (edgeKey (e_From e) (e_To e)) \<noteq> None) (ig_edges overlay)))"
    using merge_overlay_edges_loop [OF g3(2) ends] by_key wf_graphD(2) [OF wfo] g3(4) by auto
  obtain cp where cp: "deepCopyGraph g4 = Some cp" "wf_graph cp" "g_nodes cp = g_nodes g4" "g_edges cp = g_edges g4"
    by (rule deepCopyGraph_correct [OF g4(2)]) blast
  show thesis
  proof (rule that [of "\<lparr>inner = cp\<rparr>" "\<lparr>st_NodesMerged = int (length (filter (\<lambda>n. IG_GetNode (n_ID n) base \<noteq> None) (ig_nodes overlay))),
           st_EdgesMerged = c, st_OverlayBefore = int (IG_NodeCount overlay) + int (IG_EdgeCount overlay),
           st_OverlayAfter = 0, st_Timestamp = start\<rparr>"])
    show "Compact start base overlay = Some (\<lparr>inner = cp\<rparr>, \<lparr>st_NodesMerged = int (length (filter (\<lambda>n. IG_GetNode (n_ID n) base \<noteq> None)
           (ig_nodes overlay))), st_EdgesMerged = c, st_OverlayBefore = int (IG_NodeCount overlay) + int (IG_EdgeCount overlay),
           st_OverlayAfter = 0, st_Timestamp = start\<rparr>)"
      using g2(1) g3(1) g4(1) cp(1)
      unfolding Compact_def IG_defs ForEachNode_def ForEachEdge_def ig_nodes_def [symmetric] ig_edges_def [symmetric]
        go_range_ofold Let_def
      by (simp add: go_range_fold fold_count NewImmutable_def NodeCount_def EdgeCount_def ig_nodes_def ig_edges_def)
    show "wf_graph (inner \<lparr>inner = cp\<rparr>)" using cp(2) by simp
    show "IG_GetEdge u v \<lparr>inner = cp\<rparr> = compact_edge (IG_GetEdge u v base) (IG_GetEdge u v overlay)" for u v
      by (simp add: IG_GetEdge_def GetEdge_def cp(4) g4(3) g3(3) g2(3) by_key)
    show "rel_option same_identity (IG_GetNode u \<lparr>inner = cp\<rparr>)
           (compact_node (map_option stripped (IG_GetNode u base)) (IG_GetNode u overlay))" for u
      using same_identity_trans [OF g4(4) same_identity_trans [OF n3 [unfolded by_id] compact_node_cong [OF n2]]]
      by (simp add: IG_GetNode_def GetNode_def cp(3))
    show "degrees_off (base_degrees base) (inner \<lparr>inner = cp\<rparr>)"
      using g4(5) deepCopyGraph_neighbours [OF g4(2) cp(2,4)] by (simp add: degrees_off_def cp(3))
  qed (use g4(6) in \<open>simp add: g3(3) g2(3) IG_GetEdge_def GetEdge_def\<close>)
qed

section \<open>Properties\<close>

definition time_ordered :: "ImmutableGraph \<Rightarrow> bool" where
  "time_ordered ig \<longleftrightarrow> (\<forall>e \<in> set (ig_edges ig). e_FirstSeen e \<le> e_LastSeen e)"

definition untyped :: "EdgeData \<Rightarrow> EdgeData" where
  "untyped e = e\<lparr>e_Type := []\<rparr>"

lemma GetEdge_time_ordered:
  "ig_ok ig \<Longrightarrow> time_ordered ig \<Longrightarrow> IG_GetEdge u v ig = Some e \<Longrightarrow> e_FirstSeen e \<le> e_LastSeen e"
  using layer_laws(4) [of ig u v e] by (auto simp: time_ordered_def)

lemma compact_edge_view:
  assumes "ig_ok base" and "ig_ok overlay" and "time_ordered overlay"
  shows "map_option untyped (compact_edge (IG_GetEdge u v base) (IG_GetEdge u v overlay)) =
    map_option untyped (UV_GetEdge u v (NewUnifiedView base overlay))"
proof (cases "IG_GetEdge u v overlay")
  case None
  then show ?thesis by (simp add: compact_edge_def UV_GetEdge_def NewUnifiedView_def split: option.split)
next
  case (Some oe)
  note t = GetEdge_time_ordered [OF assms(2,3) Some]
  show ?thesis
  proof (cases "IG_GetEdge u v base")
    case None
    with Some t show ?thesis by (simp add: compact_edge_def UV_GetEdge_def NewUnifiedView_def max_absorb2)
  next
    case (Some be)
    with assms layer_laws(4) [of base u v be] layer_laws(4) [of overlay u v oe] \<open>IG_GetEdge u v overlay = Some oe\<close>
    have "edge_ends be = (u, v)" "edge_ends oe = (u, v)" by auto
    with Some t \<open>IG_GetEdge u v overlay = Some oe\<close> show ?thesis
      by (auto simp: compact_edge_def UV_GetEdge_def NewUnifiedView_def untyped_def edge_ends_def intro!: EdgeData_eqI)
  qed
qed

lemma Compact_ig_ok:
  assumes "ig_ok base" and "ig_ok overlay" and "Compact start base overlay = Some (ig, st)"
  shows "ig_ok ig" and "IG_GetNode u ig \<noteq> None \<longleftrightarrow> UV_GetNode u (NewUnifiedView base overlay) \<noteq> None"
proof -
  obtain ig' st' where c: "Compact start base overlay = Some (ig', st')" "wf_graph (inner ig')"
    "\<And>u. rel_option same_identity (IG_GetNode u ig')
       (compact_node (map_option stripped (IG_GetNode u base)) (IG_GetNode u overlay))"
    by (rule Compact_correct [OF assms(1,2)]) blast
  have present: "IG_GetNode u ig \<noteq> None \<longleftrightarrow> UV_GetNode u (NewUnifiedView base overlay) \<noteq> None" for u
    using c(3) [of u] c(1) assms(3)
    by (auto simp: rel_option_iff compact_node_def UV_GetNode_def NewUnifiedView_def split: option.splits)
  have "nul_free u" if "IG_GetNode u ig \<noteq> None" for u
    using that assms(1,2) unfolding present
    by (auto simp: UV_GetNode_def NewUnifiedView_def ig_ok_def IG_GetNode_def GetNode_def ids_nul_free_def keys_eq_dom
        dom_def split: option.splits)
  with c(1,2) assms(3) show "ig_ok ig"
    by (auto simp: ig_ok_def ids_nul_free_def keys_eq_dom dom_def IG_GetNode_def GetNode_def)
  show "IG_GetNode u ig \<noteq> None \<longleftrightarrow> UV_GetNode u (NewUnifiedView base overlay) \<noteq> None" by (rule present)
qed

text \<open>
  C6. Compacting two consistent layers (the overlay's edges with ordered time spans) never panics
  and preserves what the unified view shows: every edge has the same endpoints, weight, count
  and time span (the type aside), the same nodes exist, node and edge counts agree, and the
  result is again consistent. The statistics count the nodes and edges present in both
  layers.
\<close>

theorem compaction_preserves_view:
  assumes "ig_ok base" and "ig_ok overlay" and "time_ordered overlay"
  shows "\<exists>ig st. Compact start base overlay = Some (ig, st) \<and> ig_ok ig \<and>
     (\<forall>u v. map_option untyped (IG_GetEdge u v ig) = map_option untyped (UV_GetEdge u v (NewUnifiedView base overlay))) \<and>
     (\<forall>u. IG_GetNode u ig \<noteq> None \<longleftrightarrow> UV_GetNode u (NewUnifiedView base overlay) \<noteq> None) \<and>
     IG_NodeCount ig = UV_NodeCount (NewUnifiedView base overlay) \<and>
     IG_EdgeCount ig = UV_EdgeCount (NewUnifiedView base overlay) \<and>
     st_NodesMerged st = int (length (filter (\<lambda>n. IG_GetNode (n_ID n) base \<noteq> None) (ig_nodes overlay))) \<and>
     st_EdgesMerged st = int (length (filter (\<lambda>e. IG_GetEdge (e_From e) (e_To e) base \<noteq> None) (ig_edges overlay)))"
proof -
  let ?v = "NewUnifiedView base overlay"
  obtain ig st where c: "Compact start base overlay = Some (ig, st)"
    and edges: "\<And>u v. IG_GetEdge u v ig = compact_edge (IG_GetEdge u v base) (IG_GetEdge u v overlay)"
    and st: "st_NodesMerged st = int (length (filter (\<lambda>n. IG_GetNode (n_ID n) base \<noteq> None) (ig_nodes overlay)))"
      "st_EdgesMerged st = int (length (filter (\<lambda>e. IG_GetEdge (e_From e) (e_To e) base \<noteq> None) (ig_edges overlay)))"
    by (rule Compact_correct [OF assms(1,2), of start]) (simp del: not_None_eq)
  note ig = Compact_ig_ok [OF assms(1,2) c]
  have v: "uv_ok ?v" using assms(1,2) by (simp add: uv_ok_def NewUnifiedView_def)
  have same: "map_option untyped (IG_GetEdge u w ig) = map_option untyped (UV_GetEdge u w ?v)" for u w
    by (simp only: edges compact_edge_view [OF assms])
  then have "IG_GetEdge u w ig \<noteq> None \<longleftrightarrow> UV_GetEdge u w ?v \<noteq> None" for u w
    by (metis option.map_disc_iff)
  then have "IG_EdgeCount ig = UV_EdgeCount ?v"
    using ig_view.EdgeCount_card [OF ig(1)] uv_view.EdgeCount_card [OF v] by (simp add: immutable_view_def)
  moreover have "IG_NodeCount ig = UV_NodeCount ?v"
    using ig_view.NodeCount_card [OF ig(1)] uv_view.NodeCount_card [OF v] ig(2) by (simp add: immutable_view_def)
  ultimately show ?thesis using c ig same st by blast
qed

theorem compaction_preserves_view_witness:
  "\<exists>ig st. Compact 9 \<lparr>inner = sample_graph\<rparr> NewImmutableEmpty = Some (ig, st) \<and>
     IG_NodeCount ig = UV_NodeCount (NewUnifiedView \<lparr>inner = sample_graph\<rparr> NewImmutableEmpty)"
proof -
  have "ig_ok \<lparr>inner = sample_graph\<rparr>" "ig_ok NewImmutableEmpty" "time_ordered NewImmutableEmpty"
    using sample_graph_ok by (simp_all add: ig_ok_def NewImmutableEmpty_def time_ordered_def ig_edges_def)
      (simp add: New_def)
  from compaction_preserves_view [OF this, of 9] show ?thesis by blast
qed

text \<open>
  C7. What compaction does not preserve. The degree counters of the result exceed the true
  numbers of neighbours by the counters of the base, which are copied before \<open>AddEdge\<close> counts the
  same edges again: with a base whose counters are right, the result's are right only if the
  base has no edge. An edge of both layers keeps the base's type, where the view shows the
  overlay's.
\<close>

theorem compaction_inflates_degrees:
  assumes "ig_ok base" and "ig_ok overlay"
  shows "\<exists>ig st. Compact start base overlay = Some (ig, st) \<and>
     (\<forall>u n. IG_GetNode u ig = Some n \<longrightarrow>
        n_OutDegree n = fst (base_degrees base u) + int (length (IG_OutNeighbors u ig)) \<and>
        n_InDegree n = fst (snd (base_degrees base u)) + int (length (IG_InNeighbors u ig))) \<and>
     (degrees_ok (inner base) \<longrightarrow> degrees_ok (inner ig) \<longrightarrow> IG_EdgeCount base = 0) \<and>
     (\<forall>u v be oe. IG_GetEdge u v base = Some be \<longrightarrow> IG_GetEdge u v overlay = Some oe \<longrightarrow>
        map_option e_Type (IG_GetEdge u v ig) = Some (e_Type be) \<and>
        map_option e_Type (UV_GetEdge u v (NewUnifiedView base overlay)) = Some (e_Type oe))"
proof -
  obtain ig st where c: "Compact start base overlay = Some (ig, st)"
    and edges: "\<And>u v. IG_GetEdge u v ig = compact_edge (IG_GetEdge u v base) (IG_GetEdge u v overlay)"
    and off: "degrees_off (base_degrees base) (inner ig)"
    by (rule Compact_correct [OF assms, of start]) blast
  note ig = Compact_ig_ok [OF assms c]
  have deg: "n_OutDegree n = fst (base_degrees base u) + int (length (IG_OutNeighbors u ig)) \<and>
        n_InDegree n = fst (snd (base_degrees base u)) + int (length (IG_InNeighbors u ig))"
    if "IG_GetNode u ig = Some n" for u n
    using off that by (auto simp: degrees_off_def IG_defs GetNode_def)
  have "IG_EdgeCount base = 0" if b: "degrees_ok (inner base)" and r: "degrees_ok (inner ig)"
  proof (rule ccontr)
    assume "IG_EdgeCount base \<noteq> 0"
    then obtain e where "e \<in> set (ig_edges base)"
      by (metis IG_EdgeCount_def EdgeCount_def ig_edges_def length_map list.size(3) last_in_set)
    then have e: "IG_GetEdge (e_From e) (e_To e) base = Some e" and "IG_GetNode (e_From e) base \<noteq> None"
      using layer_laws(4,5) [OF assms(1)] by (simp_all add: edge_ends_def)
    then obtain n where n: "IG_GetNode (e_From e) base = Some n" by blast
    with b have "n_OutDegree n = int (length (IG_OutNeighbors (e_From e) base))"
      using assms(1) degrees_ok_iff [of "inner base"] wf_graphD(1) [of "inner base"]
      by (simp add: ig_ok_def IG_defs GetNode_def)
    moreover have "e_To e \<in> set (IG_OutNeighbors (e_From e) base)"
      using e layer_laws(6) [OF assms(1)] by simp
    ultimately have pos: "0 < fst (base_degrees base (e_From e))"
      using n by (auto simp: base_degrees_def intro!: Nat.gr0I)
    from n ig(2) [of "e_From e"] obtain m where m: "IG_GetNode (e_From e) ig = Some m"
      by (auto simp: UV_GetNode_def NewUnifiedView_def split: option.splits)
    with r ig(1) have "n_OutDegree m = int (length (IG_OutNeighbors (e_From e) ig))"
      using degrees_ok_iff [of "inner ig"] wf_graphD(1) [of "inner ig"]
      by (simp add: ig_ok_def IG_defs GetNode_def)
    with deg [OF m] pos show False by simp
  qed
  with c deg edges show ?thesis
    by (intro exI [of _ ig] exI [of _ st]) (auto simp: compact_edge_def UV_GetEdge_def NewUnifiedView_def)
qed

theorem compaction_inflates_degrees_witness:
  "\<exists>ig st. Compact 9 \<lparr>inner = sample_graph\<rparr> NewImmutableEmpty = Some (ig, st) \<and>
     degrees_ok (inner \<lparr>inner = sample_graph\<rparr>) \<and> \<not> degrees_ok (inner ig)"
proof -
  have "ig_ok \<lparr>inner = sample_graph\<rparr>" "ig_ok NewImmutableEmpty" "degrees_ok sample_graph"
    using sample_graph_ok by (simp_all add: ig_ok_def NewImmutableEmpty_def)
  moreover have "IG_EdgeCount \<lparr>inner = sample_graph\<rparr> = 2" by code_simp
  ultimately show ?thesis using compaction_inflates_degrees [of "\<lparr>inner = sample_graph\<rparr>" NewImmutableEmpty 9] by auto
qed

end
