(* ===== verification/Mvcc.thy ===== *)
theory Mvcc
  imports Graph_Immutable
begin

text \<open>
  \<open>mvcc/version.go\<close>: reference-counted versions and the controller that points to the current
  one. Versions are shared through pointers, so they live in a heap from addresses to versions
  and the controller holds an address. The lock-free \<open>Release\<close> is a step relation: one step per
  atomic operation, any number of threads, \<open>Acquire\<close> and \<open>Release\<close> interleaved at will. A second
  step relation does the same for \<open>Controller.Acquire\<close>, whose load and increment are two steps.
\<close>

section \<open>Versions\<close>

record Version =
  v_ID :: "64 word"
  v_Graph :: ImmutableGraph
  v_Timestamp :: time
  v_Dirty :: "(string, bool) gomap"
  v_refCount :: int

type_synonym vaddr = nat
type_synonym vheap = "vaddr \<Rightarrow> Version"

definition RefCount :: "vheap \<Rightarrow> vaddr \<Rightarrow> int" where
  "RefCount h a = v_refCount (h a)"

definition set_refs :: "vaddr \<Rightarrow> int \<Rightarrow> vheap \<Rightarrow> vheap" where
  "set_refs a n h = h(a := (h a)\<lparr>v_refCount := n\<rparr>)"

definition Acquire :: "vaddr \<Rightarrow> vheap \<Rightarrow> vheap" where
  "Acquire a h = set_refs a (RefCount h a + 1) h"

text \<open>\<open>Release\<close> when no other thread runs: its first \<open>CompareAndSwap\<close> succeeds.\<close>

definition Release :: "vaddr \<Rightarrow> vheap \<Rightarrow> vheap" where
  "Release a h = (let cur = RefCount h a in if cur \<le> 0 then h else set_refs a (cur - 1) h)"

subsection \<open>Interleaved Acquire and Release\<close>

text \<open>
  The program counter of a thread inside \<open>Release\<close>: about to load, about to compare-and-swap
  with the value it loaded, returned. The ghost counters \<open>acquired\<close> and \<open>released\<close> count the
  increments and the successful decrements.
\<close>

datatype release_pc = At_Load | At_CAS int | Returned

record counter_state =
  refs :: int
  pcs :: "nat \<Rightarrow> release_pc"
  acquired :: int
  released :: int

inductive counter_step :: "counter_state \<Rightarrow> counter_state \<Rightarrow> bool" where
  acquire_add: "counter_step s (s\<lparr>refs := refs s + 1, acquired := acquired s + 1\<rparr>)"
| release_load_zero: "pcs s t = At_Load \<Longrightarrow> refs s \<le> 0 \<Longrightarrow> counter_step s (s\<lparr>pcs := (pcs s)(t := Returned)\<rparr>)"
| release_load: "pcs s t = At_Load \<Longrightarrow> 0 < refs s \<Longrightarrow> counter_step s (s\<lparr>pcs := (pcs s)(t := At_CAS (refs s))\<rparr>)"
| release_cas: "pcs s t = At_CAS cur \<Longrightarrow> refs s = cur \<Longrightarrow>
    counter_step s (s\<lparr>refs := cur - 1, pcs := (pcs s)(t := Returned), released := released s + 1\<rparr>)"
| release_retry: "pcs s t = At_CAS cur \<Longrightarrow> refs s \<noteq> cur \<Longrightarrow>
    counter_step s (s\<lparr>pcs := (pcs s)(t := At_Load)\<rparr>)"
| release_call: "pcs s t = Returned \<Longrightarrow> counter_step s (s\<lparr>pcs := (pcs s)(t := At_Load)\<rparr>)"

inductive_cases counter_stepE: "counter_step s s'"

definition counter_init :: counter_state where
  "counter_init = \<lparr>refs = 0, pcs = \<lambda>_. Returned, acquired = 0, released = 0\<rparr>"

inductive counter_reachable :: "counter_state \<Rightarrow> bool" where
  counter_start: "counter_reachable counter_init"
| counter_next: "counter_reachable s \<Longrightarrow> counter_step s s' \<Longrightarrow> counter_reachable s'"

lemma counter_invariant:
  "counter_reachable s \<Longrightarrow>
     0 \<le> refs s \<and> refs s = acquired s - released s \<and> (\<forall>t cur. pcs s t = At_CAS cur \<longrightarrow> 0 < cur)"
proof (induction rule: counter_reachable.induct)
  case counter_start
  then show ?case by (simp add: counter_init_def)
next
  case (counter_next s s')
  from counter_next(2,3) show ?case
    by (elim counter_stepE) (fastforce split: if_splits)+
qed

text \<open>Without interference \<open>Release\<close> returns after two of its steps, having done what the sequential
  definition says.\<close>

lemma counter_release_alone:
  assumes "pcs s t = At_Load"
  shows "\<exists>s'. counter_step\<^sup>*\<^sup>* s s' \<and> pcs s' t = Returned \<and> refs s' = (if refs s \<le> 0 then refs s else refs s - 1) \<and>
    acquired s' = acquired s"
proof (cases "refs s \<le> 0")
  case True
  with release_load_zero [OF assms True] show ?thesis by (intro exI conjI) (erule r_into_rtranclp, auto)
next
  case False
  let ?s1 = "s\<lparr>pcs := (pcs s)(t := At_CAS (refs s))\<rparr>"
  have "counter_step s ?s1" using release_load [OF assms] False by simp
  moreover have "counter_step ?s1 (?s1\<lparr>refs := refs s - 1, pcs := (pcs ?s1)(t := Returned), released := released ?s1 + 1\<rparr>)"
    by (rule release_cas) simp_all
  ultimately have "counter_step\<^sup>*\<^sup>* s (?s1\<lparr>refs := refs s - 1, pcs := (pcs ?s1)(t := Returned), released := released ?s1 + 1\<rparr>)"
    by (rule converse_rtranclp_into_rtranclp [OF _ r_into_rtranclp])
  with False show ?thesis by (intro exI conjI) (assumption, auto)
qed

section \<open>Controller\<close>

record Controller =
  current :: "vaddr option"

definition NewController :: Controller where
  "NewController = \<lparr>current = None\<rparr>"

definition Store :: "vaddr \<Rightarrow> Controller \<Rightarrow> Controller" where
  "Store v c = c\<lparr>current := Some v\<rparr>"

definition Load :: "Controller \<Rightarrow> vaddr option" where
  "Load c = current c"

text \<open>\<open>Controller.Acquire\<close> when no other thread runs.\<close>

definition Controller_Acquire :: "Controller \<Rightarrow> vheap \<Rightarrow> vaddr option \<times> vheap" where
  "Controller_Acquire c h = (case Load c of Some v \<Rightarrow> (Some v, Acquire v h) | None \<Rightarrow> (None, h))"

lemma RefCount_set_refs [simp]: "RefCount (set_refs a n h) b = (if b = a then n else RefCount h b)"
  by (simp add: RefCount_def set_refs_def)

lemma set_refs_frame [simp]:
  "v_ID (set_refs a n h b) = v_ID (h b)" "v_Graph (set_refs a n h b) = v_Graph (h b)"
  "b \<noteq> a \<Longrightarrow> set_refs a n h b = h b"
  by (simp_all add: set_refs_def)

section \<open>Properties\<close>

text \<open>
  C8. The lock-free reference count. In every interleaving of any number of threads calling
  \<open>Acquire\<close> and \<open>Release\<close> on one version, starting from a fresh one, the count is never negative and
  equals the number of \<open>Acquire\<close>s minus the number of \<open>Release\<close>s that decremented; a thread about
  to compare-and-swap holds a positive expected value; and a thread in \<open>Release\<close> that runs
  without interference returns, having decremented exactly when the count was positive.
\<close>

theorem refcount_interleavings:
  assumes "counter_reachable s"
  shows "0 \<le> refs s \<and> refs s = acquired s - released s \<and>
     (\<forall>t. pcs s t = At_Load \<longrightarrow> (\<exists>s'. counter_step\<^sup>*\<^sup>* s s' \<and> pcs s' t = Returned \<and>
        refs s' = v_refCount (Release 0 (\<lambda>_. v\<lparr>v_refCount := refs s\<rparr>) 0) \<and> acquired s' = acquired s))"
  using counter_invariant [OF assms] counter_release_alone [of s]
  by (auto simp: Release_def RefCount_def set_refs_def Let_def)

theorem refcount_interleavings_witness:
  "refs (counter_init\<lparr>refs := refs counter_init + 1, acquired := acquired counter_init + 1\<rparr>) = 1 \<and>
   0 \<le> refs (counter_init\<lparr>refs := refs counter_init + 1, acquired := acquired counter_init + 1\<rparr>)"
  using refcount_interleavings [OF counter_next [OF counter_start acquire_add]]
  by (simp add: counter_init_def)

end
