(* ===== verification/Mvcc_GC.thy ===== *)
theory Mvcc_GC
  imports Mvcc
begin

text \<open>
  \<open>mvcc/gc.go\<close>: the collector of versions. A sweep visits every tracked version once, in the
  unspecified order of the Go map, decides its fate from the current version, the reference
  count and the age, and then deletes what it decided to remove. The callbacks it fires are
  recorded in order. The goroutine that calls \<open>Collect\<close> on a ticker is not modelled, its start
  and stop flags are.
\<close>

section \<open>State\<close>

record GCConfig =
  Interval :: duration
  WarningTimeout :: duration
  ForceTimeout :: duration

record trackedVersion =
  tv_version :: vaddr
  tv_createdAt :: time
  tv_warned :: bool

record GC =
  gc_config :: GCConfig
  gc_versions :: "(64 word, trackedVersion) gomap"
  gc_running :: bool

record CollectStats =
  co_VersionsRemoved :: int
  co_RemovedVersions :: "64 word list"
  co_OldestRemoved :: "64 word"
  co_Timestamp :: time

datatype gc_event = OnForce "64 word" duration | OnWarning "64 word" duration

definition NewGC :: "GCConfig \<Rightarrow> GC" where
  "NewGC cfg = \<lparr>gc_config = (if Interval cfg \<le> 0 then cfg\<lparr>Interval := 30 * 10 ^ 9\<rparr> else cfg),
     gc_versions = [], gc_running = False\<rparr>"

definition Track :: "time \<Rightarrow> vheap \<Rightarrow> vaddr \<Rightarrow> GC \<Rightarrow> GC" where
  "Track now h v gc = gc\<lparr>gc_versions :=
     AList.update (v_ID (h v)) \<lparr>tv_version = v, tv_createdAt = now, tv_warned = False\<rparr> (gc_versions gc)\<rparr>"

definition GC_Start :: "GC \<Rightarrow> GC" where
  "GC_Start gc = (if gc_running gc then gc else gc\<lparr>gc_running := True\<rparr>)"

definition GC_Stop :: "GC \<Rightarrow> GC" where
  "GC_Stop gc = (if \<not> gc_running gc then gc else gc\<lparr>gc_running := False\<rparr>)"

section \<open>A sweep\<close>

text \<open>\<open>for tv.version.RefCount() > 0 { tv.version.Release() }\<close>\<close>

function force_release :: "vaddr \<Rightarrow> vheap \<Rightarrow> vheap" where
  "force_release v h = (if RefCount h v > 0 then force_release v (Release v h) else h)"
  by auto
termination
  by (relation "measure (\<lambda>(v, h). nat (RefCount h v))") (auto simp: Release_def Let_def)

declare force_release.simps [simp del]

record sweep =
  sw_heap :: vheap
  sw_versions :: "(64 word, trackedVersion) gomap"
  sw_toRemove :: "64 word list"
  sw_events :: "gc_event list"

definition sweep_visit :: "time \<Rightarrow> GCConfig \<Rightarrow> 64 word option \<Rightarrow> 64 word \<Rightarrow> trackedVersion \<Rightarrow> sweep \<Rightarrow> sweep" where
  "sweep_visit now cfg cur nid tv s =
     (if cur = Some nid then s
      else let age = now - tv_createdAt tv; refCount = RefCount (sw_heap s) (tv_version tv) in
        if refCount = 0 then s\<lparr>sw_toRemove := sw_toRemove s @ [nid]\<rparr>
        else if ForceTimeout cfg > 0 \<and> age > ForceTimeout cfg then
          s\<lparr>sw_events := sw_events s @ [OnForce nid age],
            sw_heap := force_release (tv_version tv) (sw_heap s),
            sw_toRemove := sw_toRemove s @ [nid]\<rparr>
        else if WarningTimeout cfg > 0 \<and> age > WarningTimeout cfg \<and> \<not> tv_warned tv then
          s\<lparr>sw_versions := AList.update nid (tv\<lparr>tv_warned := True\<rparr>) (sw_versions s),
            sw_events := sw_events s @ [OnWarning nid age]\<rparr>
        else s)"

text \<open>The deletion loop and its statistics: zero serves as "none yet" for \<open>OldestRemoved\<close>.\<close>

definition remove_visit ::
  "vheap \<Rightarrow> 64 word \<Rightarrow> (64 word, trackedVersion) gomap \<times> CollectStats \<Rightarrow> (64 word, trackedVersion) gomap \<times> CollectStats" where
  "remove_visit h nid = (\<lambda>(versions, stats).
     let vid = (case map_of versions nid of Some tv \<Rightarrow> v_ID (h (tv_version tv)) | None \<Rightarrow> 0);
         stats' = (if co_OldestRemoved stats = 0 \<or> vid < co_OldestRemoved stats
                   then stats\<lparr>co_OldestRemoved := vid\<rparr> else stats)
     in (AList.delete nid versions,
         stats'\<lparr>co_VersionsRemoved := co_VersionsRemoved stats' + 1,
                co_RemovedVersions := co_RemovedVersions stats' @ [nid]\<rparr>))"

definition Collect :: "time \<Rightarrow> Controller \<Rightarrow> GC \<Rightarrow> vheap \<Rightarrow> GC \<times> vheap \<times> CollectStats \<times> gc_event list" where
  "Collect now ctrl gc h =
     (let cur = map_option (\<lambda>a. v_ID (h a)) (Load ctrl);
          s = fold (\<lambda>(nid, tv). sweep_visit now (gc_config gc) cur nid tv) (gc_versions gc)
                \<lparr>sw_heap = h, sw_versions = gc_versions gc, sw_toRemove = [], sw_events = []\<rparr>;
          (versions, stats) = fold (remove_visit (sw_heap s)) (sw_toRemove s)
            (sw_versions s, \<lparr>co_VersionsRemoved = 0, co_RemovedVersions = [], co_OldestRemoved = 0, co_Timestamp = now\<rparr>)
      in (gc\<lparr>gc_versions := versions\<rparr>, sw_heap s, stats, sw_events s))"

section \<open>Correctness\<close>

text \<open>The tracking map is keyed by the identifiers, and no two entries share a version.\<close>

definition gc_ok :: "vheap \<Rightarrow> GC \<Rightarrow> bool" where
  "gc_ok h gc \<longleftrightarrow> wf_gomap (gc_versions gc) \<and>
     (\<forall>(nid, tv) \<in> set (gc_versions gc). v_ID (h (tv_version tv)) = nid \<and> 0 \<le> RefCount h (tv_version tv))"

definition overdue :: "time \<Rightarrow> GCConfig \<Rightarrow> trackedVersion \<Rightarrow> bool" where
  "overdue now cfg tv \<longleftrightarrow> ForceTimeout cfg > 0 \<and> now - tv_createdAt tv > ForceTimeout cfg"

text \<open>The fate of a tracked version: removed, or kept with a warning recorded at most once.\<close>

definition collected :: "time \<Rightarrow> GCConfig \<Rightarrow> 64 word option \<Rightarrow> vheap \<Rightarrow> 64 word \<times> trackedVersion \<Rightarrow> bool" where
  "collected now cfg cur h = (\<lambda>(nid, tv). cur \<noteq> Some nid \<and> (RefCount h (tv_version tv) = 0 \<or> overdue now cfg tv))"

definition kept_as :: "time \<Rightarrow> GCConfig \<Rightarrow> 64 word option \<Rightarrow> 64 word \<Rightarrow> trackedVersion \<Rightarrow> trackedVersion" where
  "kept_as now cfg cur nid tv =
     (if cur \<noteq> Some nid \<and> WarningTimeout cfg > 0 \<and> now - tv_createdAt tv > WarningTimeout cfg
      then tv\<lparr>tv_warned := True\<rparr> else tv)"

lemma force_release_correct:
  "0 \<le> RefCount h v \<Longrightarrow> RefCount (force_release v h) v = 0 \<and>
     (\<forall>w. w \<noteq> v \<longrightarrow> force_release v h w = h w) \<and> v_ID (force_release v h w) = v_ID (h w)"
proof (induction v h rule: force_release.induct)
  case (1 v h)
  show ?case
  proof (cases "RefCount h v > 0")
    case True
    then have rel: "Release v h = set_refs v (RefCount h v - 1) h" by (simp add: Release_def Let_def)
    from True have unfold: "force_release v h = force_release v (Release v h)"
      by (subst force_release.simps) simp
    from 1(1) [OF True] True show ?thesis unfolding unfold by (auto simp: rel)
  next
    case False
    with 1(2) show ?thesis by (subst (1 2 3) force_release.simps) simp
  qed
qed

lemma RefCount_cong: "h a = h' a \<Longrightarrow> RefCount h a = RefCount h' a"
  by (simp add: RefCount_def)

lemma collected_cong:
  "RefCount h (tv_version tv) = RefCount h' (tv_version tv) \<Longrightarrow>
   collected now cfg cur h (nid, tv) = collected now cfg cur h' (nid, tv)"
  by (simp add: collected_def)

lemma sweep_visit_effect:
  fixes now cfg cur
  assumes "0 \<le> RefCount (sw_heap s) (tv_version tv)" and "map_of (sw_versions s) nid = Some tv"
  defines "s' \<equiv> sweep_visit now cfg cur nid tv s"
  shows "sw_toRemove s' = sw_toRemove s @ (if collected now cfg cur (sw_heap s) (nid, tv) then [nid] else [])"
    and "v_ID (sw_heap s' a) = v_ID (sw_heap s a)"
    and "a \<noteq> tv_version tv \<Longrightarrow> sw_heap s' a = sw_heap s a"
    and "RefCount (sw_heap s') (tv_version tv) =
          (if collected now cfg cur (sw_heap s) (nid, tv) then 0 else RefCount (sw_heap s) (tv_version tv))"
    and "map_of (sw_versions s') k = (if k = nid \<and> \<not> collected now cfg cur (sw_heap s) (nid, tv)
          then Some (kept_as now cfg cur nid tv) else map_of (sw_versions s) k)"
    and "wf_gomap (sw_versions s) \<Longrightarrow> wf_gomap (sw_versions s')"
  using assms(1,2) force_release_correct [OF assms(1)]
  by (auto simp: s'_def sweep_visit_def collected_def overdue_def kept_as_def Let_def)

lemma sweep_loop:
  fixes s :: sweep and now cfg cur
  assumes "distinct (map (\<lambda>(nid, tv). tv_version tv) vs)" and "wf_gomap vs"
    and "\<forall>(nid, tv) \<in> set vs. 0 \<le> RefCount (sw_heap s) (tv_version tv) \<and> map_of (sw_versions s) nid = Some tv"
  shows "let s' = fold (\<lambda>(nid, tv). sweep_visit now cfg cur nid tv) vs s in
      sw_toRemove s' = sw_toRemove s @ map fst (filter (collected now cfg cur (sw_heap s)) vs) \<and>
      (\<forall>a. v_ID (sw_heap s' a) = v_ID (sw_heap s a)) \<and>
      (\<forall>a. (\<forall>(nid, tv) \<in> set vs. tv_version tv \<noteq> a) \<longrightarrow> sw_heap s' a = sw_heap s a) \<and>
      (\<forall>(nid, tv) \<in> set vs. RefCount (sw_heap s') (tv_version tv) =
          (if collected now cfg cur (sw_heap s) (nid, tv) then 0 else RefCount (sw_heap s) (tv_version tv))) \<and>
      (\<forall>k. map_of (sw_versions s') k = (case map_of vs k of None \<Rightarrow> map_of (sw_versions s) k
          | Some tv \<Rightarrow> Some (if collected now cfg cur (sw_heap s) (k, tv) then tv else kept_as now cfg cur k tv))) \<and>
      (wf_gomap (sw_versions s) \<longrightarrow> wf_gomap (sw_versions s'))"
  using assms
proof (induction vs arbitrary: s)
  case Nil
  then show ?case by simp
next
  case (Cons x vs)
  obtain nid tv where x: "x = (nid, tv)" by force
  let ?s1 = "sweep_visit now cfg cur nid tv s"
  have pre: "0 \<le> RefCount (sw_heap s) (tv_version tv)" "map_of (sw_versions s) nid = Some tv"
    using Cons.prems(3) x by auto
  note eff = sweep_visit_effect [OF pre, where now = now and cfg = cfg and cur = cur]
  have other: "RefCount (sw_heap ?s1) (tv_version tv') = RefCount (sw_heap s) (tv_version tv')" "k \<noteq> nid"
    if "(k, tv') \<in> set vs" for k tv'
    using that Cons.prems(1,2) x eff(3) [of "tv_version tv'"] by (force intro: RefCount_cong)+
  have "\<forall>(k, tv') \<in> set vs. 0 \<le> RefCount (sw_heap ?s1) (tv_version tv') \<and> map_of (sw_versions ?s1) k = Some tv'"
    using Cons.prems(3) other eff(5) by auto
  with Cons.IH [of ?s1] Cons.prems(1,2) x
  have IH: "let s' = fold (\<lambda>(nid, tv). sweep_visit now cfg cur nid tv) vs ?s1 in
      sw_toRemove s' = sw_toRemove ?s1 @ map fst (filter (collected now cfg cur (sw_heap ?s1)) vs) \<and>
      (\<forall>a. v_ID (sw_heap s' a) = v_ID (sw_heap ?s1 a)) \<and>
      (\<forall>a. (\<forall>(nid, tv) \<in> set vs. tv_version tv \<noteq> a) \<longrightarrow> sw_heap s' a = sw_heap ?s1 a) \<and>
      (\<forall>(nid, tv) \<in> set vs. RefCount (sw_heap s') (tv_version tv) =
          (if collected now cfg cur (sw_heap ?s1) (nid, tv) then 0 else RefCount (sw_heap ?s1) (tv_version tv))) \<and>
      (\<forall>k. map_of (sw_versions s') k = (case map_of vs k of None \<Rightarrow> map_of (sw_versions ?s1) k
          | Some tv \<Rightarrow> Some (if collected now cfg cur (sw_heap ?s1) (k, tv) then tv else kept_as now cfg cur k tv))) \<and>
      (wf_gomap (sw_versions ?s1) \<longrightarrow> wf_gomap (sw_versions s'))"
    by simp
  have same: "collected now cfg cur (sw_heap ?s1) (k, tv') = collected now cfg cur (sw_heap s) (k, tv')"
    if "(k, tv') \<in> set vs" for k tv'
    using other(1) [OF that] by (rule collected_cong)
  have filt: "filter (collected now cfg cur (sw_heap ?s1)) vs = filter (collected now cfg cur (sw_heap s)) vs"
    using same by (intro filter_cong) auto
  have look: "(case map_of vs k of None \<Rightarrow> map_of (sw_versions ?s1) k
          | Some tv \<Rightarrow> Some (if collected now cfg cur (sw_heap ?s1) (k, tv) then tv else kept_as now cfg cur k tv)) =
      (case map_of (x # vs) k of None \<Rightarrow> map_of (sw_versions s) k
          | Some tv \<Rightarrow> Some (if collected now cfg cur (sw_heap s) (k, tv) then tv else kept_as now cfg cur k tv))" for k
  proof (cases "map_of vs k")
    case None
    then show ?thesis using pre(2) by (simp add: x eff(5))
  next
    case (Some tv')
    then have m: "(k, tv') \<in> set vs" by (rule map_of_SomeD)
    with same [OF m] other(2) [OF m] Some show ?thesis by (simp add: x)
  qed
  let ?s2 = "fold (\<lambda>(nid, tv). sweep_visit now cfg cur nid tv) vs ?s1"
  note IH1 = IH [unfolded Let_def, THEN conjunct1]
    and IH2 = IH [unfolded Let_def, THEN conjunct2, THEN conjunct1]
    and IH3 = IH [unfolded Let_def, THEN conjunct2, THEN conjunct2, THEN conjunct1]
    and IH4 = IH [unfolded Let_def, THEN conjunct2, THEN conjunct2, THEN conjunct2, THEN conjunct1]
    and IH5 = IH [unfolded Let_def, THEN conjunct2, THEN conjunct2, THEN conjunct2, THEN conjunct2, THEN conjunct1]
    and IH6 = IH [unfolded Let_def, THEN conjunct2, THEN conjunct2, THEN conjunct2, THEN conjunct2, THEN conjunct2]
  have whole: "fold (\<lambda>(nid, tv). sweep_visit now cfg cur nid tv) (x # vs) s = ?s2" by (simp add: x)
  have "\<forall>(k, tv') \<in> set vs. tv_version tv' \<noteq> tv_version tv" using Cons.prems(1) x by force
  with IH3 have heap_nid: "RefCount (sw_heap ?s2) (tv_version tv) = RefCount (sw_heap ?s1) (tv_version tv)"
    by (intro RefCount_cong) blast
  show ?case
    unfolding Let_def whole
  proof (intro conjI)
    show "sw_toRemove ?s2 = sw_toRemove s @ map fst (filter (collected now cfg cur (sw_heap s)) (x # vs))"
      by (simp add: IH1 eff(1) filt x)
    show "\<forall>a. v_ID (sw_heap ?s2 a) = v_ID (sw_heap s a)" using IH2 eff(2) by simp
    show "\<forall>a. (\<forall>(nid, tv) \<in> set (x # vs). tv_version tv \<noteq> a) \<longrightarrow> sw_heap ?s2 a = sw_heap s a"
      using IH3 eff(3) x by auto
    show "\<forall>(nid', tv') \<in> set (x # vs). RefCount (sw_heap ?s2) (tv_version tv') =
        (if collected now cfg cur (sw_heap s) (nid', tv') then 0 else RefCount (sw_heap s) (tv_version tv'))"
    proof (rule ballI, clarify)
      fix k tv'
      assume "(k, tv') \<in> set (x # vs)"
      then consider "k = nid" "tv' = tv" | "(k, tv') \<in> set vs" using x by auto
      then show "RefCount (sw_heap ?s2) (tv_version tv') =
          (if collected now cfg cur (sw_heap s) (k, tv') then 0 else RefCount (sw_heap s) (tv_version tv'))"
      proof cases
        case 1
        then show ?thesis using heap_nid eff(4) by simp
      next
        case 2
        with IH4 have "RefCount (sw_heap ?s2) (tv_version tv') =
          (if collected now cfg cur (sw_heap ?s1) (k, tv') then 0 else RefCount (sw_heap ?s1) (tv_version tv'))" by auto
        with same [OF 2] other(1) [OF 2] show ?thesis by simp
      qed
    qed
    show "\<forall>k. map_of (sw_versions ?s2) k = (case map_of (x # vs) k of None \<Rightarrow> map_of (sw_versions s) k
        | Some tv \<Rightarrow> Some (if collected now cfg cur (sw_heap s) (k, tv) then tv else kept_as now cfg cur k tv))"
      using IH5 look by simp
    show "wf_gomap (sw_versions s) \<longrightarrow> wf_gomap (sw_versions ?s2)" using IH6 eff(6) by simp
  qed
qed

definition oldest :: "64 word list \<Rightarrow> 64 word \<Rightarrow> 64 word" where
  "oldest ids m = fold (\<lambda>i m. if m = 0 \<or> i < m then i else m) ids m"

lemma remove_loop:
  assumes "wf_gomap versions" and "distinct ids"
    and "\<forall>i \<in> set ids. \<exists>tv. map_of versions i = Some tv \<and> v_ID (h (tv_version tv)) = i"
  shows "\<exists>versions'. fold (remove_visit h) ids (versions, st) =
     (versions', st\<lparr>co_VersionsRemoved := co_VersionsRemoved st + int (length ids),
        co_RemovedVersions := co_RemovedVersions st @ ids, co_OldestRemoved := oldest ids (co_OldestRemoved st)\<rparr>) \<and>
     wf_gomap versions' \<and> (\<forall>k. map_of versions' k = (if k \<in> set ids then None else map_of versions k))"
  using assms
proof (induction ids arbitrary: versions st)
  case (Cons i ids)
  obtain tv where tv: "map_of versions i = Some tv" "v_ID (h (tv_version tv)) = i" using Cons.prems(3) by auto
  let ?st = "st\<lparr>co_VersionsRemoved := co_VersionsRemoved st + 1, co_RemovedVersions := co_RemovedVersions st @ [i],
      co_OldestRemoved := oldest [i] (co_OldestRemoved st)\<rparr>"
  have step: "remove_visit h i (versions, st) = (AList.delete i versions, ?st)"
    by (auto simp: remove_visit_def tv oldest_def Let_def)
  have "\<forall>j \<in> set ids. \<exists>tv. map_of (AList.delete i versions) j = Some tv \<and> v_ID (h (tv_version tv)) = j"
    using Cons.prems(2,3) by auto
  with Cons.IH [of "AList.delete i versions" ?st] Cons.prems(1,2) show ?case
    by (auto simp: step oldest_def) (auto simp: fun_eq_iff)?
qed (simp add: oldest_def)

lemma gc_ok_distinct_versions:
  assumes "gc_ok h gc"
  shows "distinct (map (\<lambda>(nid, tv). tv_version tv) (gc_versions gc))"
proof -
  have "map (\<lambda>a. v_ID (h a)) (map (\<lambda>(nid, tv). tv_version tv) (gc_versions gc)) = gkeys (gc_versions gc)"
    using assms by (auto simp: gc_ok_def)
  moreover have "wf_gomap (gc_versions gc)" using assms by (simp add: gc_ok_def)
  ultimately have "distinct (map (\<lambda>a. v_ID (h a)) (map (\<lambda>(nid, tv). tv_version tv) (gc_versions gc)))" by (simp only:)
  then show ?thesis unfolding distinct_map [of "\<lambda>a. v_ID (h a)"] by blast
qed

lemma Collect_correct:
  fixes ctrl :: Controller and now
  assumes ok: "gc_ok h gc"
  defines "cur \<equiv> map_option (\<lambda>a. v_ID (h a)) (Load ctrl)" and "cfg \<equiv> gc_config gc"
  obtains gc' h' st evs where "Collect now ctrl gc h = (gc', h', st, evs)"
    and "co_RemovedVersions st = map fst (filter (collected now cfg cur h) (gc_versions gc))"
    and "co_VersionsRemoved st = int (length (co_RemovedVersions st))"
    and "co_OldestRemoved st = oldest (co_RemovedVersions st) 0"
    and "\<And>k. map_of (gc_versions gc') k = (case map_of (gc_versions gc) k of None \<Rightarrow> None
           | Some tv \<Rightarrow> if collected now cfg cur h (k, tv) then None else Some (kept_as now cfg cur k tv))"
    and "\<And>k tv. (k, tv) \<in> set (gc_versions gc) \<Longrightarrow> RefCount h' (tv_version tv) =
           (if collected now cfg cur h (k, tv) then 0 else RefCount h (tv_version tv))"
    and "\<And>a. (\<forall>(k, tv) \<in> set (gc_versions gc). tv_version tv \<noteq> a) \<Longrightarrow> h' a = h a"
    and "gc_ok h' gc'"
proof -
  let ?vs = "gc_versions gc"
  let ?init = "\<lparr>sw_heap = h, sw_versions = ?vs, sw_toRemove = [], sw_events = []\<rparr>"
  let ?s = "fold (\<lambda>(nid, tv). sweep_visit now cfg cur nid tv) ?vs ?init"
  let ?ids = "map fst (filter (collected now cfg cur h) ?vs)"
  have wf: "wf_gomap ?vs" and pre: "\<forall>(nid, tv) \<in> set ?vs. 0 \<le> RefCount (sw_heap ?init) (tv_version tv) \<and>
      map_of (sw_versions ?init) nid = Some tv"
    using ok by (auto simp: gc_ok_def intro!: map_of_is_SomeI)
  note loop = sweep_loop [OF gc_ok_distinct_versions [OF ok] wf pre, where now = now and cfg = cfg and cur = cur, unfolded Let_def]
  have ids: "sw_toRemove ?s = ?ids" using loop by simp
  have look: "map_of (sw_versions ?s) k = (case map_of ?vs k of None \<Rightarrow> None
      | Some tv \<Rightarrow> Some (if collected now cfg cur h (k, tv) then tv else kept_as now cfg cur k tv))" for k
    using loop by (auto split: option.split)
  have wfs: "wf_gomap (sw_versions ?s)" using loop wf by simp
  have kept_version [simp]: "tv_version (kept_as now cfg cur k tv) = tv_version tv" for k tv by (simp add: kept_as_def)
  have vids: "v_ID (sw_heap ?s a) = v_ID (h a)" for a using loop by simp
  have dist: "distinct ?ids" using wf by (rule distinct_map_filter)
  have removed: "k \<in> set ?ids \<longleftrightarrow> (\<exists>tv. map_of ?vs k = Some tv \<and> collected now cfg cur h (k, tv))" for k
    using wf by (force simp: entry_iff_lookup)
  have named: "v_ID (h (tv_version tv)) = k" if "map_of ?vs k = Some tv" for k tv
    using ok map_of_SomeD [OF that] by (auto simp: gc_ok_def)
  have found: "\<forall>i \<in> set ?ids. \<exists>tv. map_of (sw_versions ?s) i = Some tv \<and> v_ID (sw_heap ?s (tv_version tv)) = i"
  proof
    fix i
    assume "i \<in> set ?ids"
    then obtain tv where "map_of ?vs i = Some tv" "collected now cfg cur h (i, tv)" unfolding removed by blast
    then show "\<exists>tv. map_of (sw_versions ?s) i = Some tv \<and> v_ID (sw_heap ?s (tv_version tv)) = i"
      by (simp add: look vids named)
  qed
  obtain versions' where rem: "fold (remove_visit (sw_heap ?s)) ?ids (sw_versions ?s,
      \<lparr>co_VersionsRemoved = 0, co_RemovedVersions = [], co_OldestRemoved = 0, co_Timestamp = now\<rparr>) =
      (versions', \<lparr>co_VersionsRemoved = int (length ?ids), co_RemovedVersions = ?ids, co_OldestRemoved = oldest ?ids 0,
         co_Timestamp = now\<rparr>)" "wf_gomap versions'"
    "\<And>k. map_of versions' k = (if k \<in> set ?ids then None else map_of (sw_versions ?s) k)"
    using remove_loop [OF wfs dist found, of "\<lparr>co_VersionsRemoved = 0, co_RemovedVersions = [],
      co_OldestRemoved = 0, co_Timestamp = now\<rparr>"] by auto
  have final: "map_of versions' k = (case map_of ?vs k of None \<Rightarrow> None
      | Some tv \<Rightarrow> if collected now cfg cur h (k, tv) then None else Some (kept_as now cfg cur k tv))" for k
    unfolding rem(3) removed look by (auto split: option.split)
  have refs: "RefCount (sw_heap ?s) (tv_version tv) = (if collected now cfg cur h (k, tv) then 0 else RefCount h (tv_version tv))"
    if "(k, tv) \<in> set ?vs" for k tv
    using loop that by auto
  have "v_ID (sw_heap ?s (tv_version tv)) = k \<and> 0 \<le> RefCount (sw_heap ?s) (tv_version tv)"
    if "map_of versions' k = Some tv" for k tv
  proof -
    from that obtain tv' where tv': "map_of ?vs k = Some tv'" "tv = kept_as now cfg cur k tv'"
      unfolding final by (auto split: option.splits if_splits)
    then have "(k, tv') \<in> set ?vs" by (simp add: map_of_SomeD)
    with refs [OF this] ok tv' show ?thesis by (auto simp: gc_ok_def vids)
  qed
  with rem(2) have "gc_ok (sw_heap ?s) (gc\<lparr>gc_versions := versions'\<rparr>)"
    by (simp add: gc_ok_def ball_entries_iff)
  with rem final refs loop show thesis
    by (intro that [of "gc\<lparr>gc_versions := versions'\<rparr>" "sw_heap ?s" _ "sw_events ?s"])
      (simp add: Collect_def cur_def [symmetric] cfg_def [symmetric] Let_def ids, simp_all)
qed

lemma oldest_min:
  "0 \<notin> set ids \<Longrightarrow> m \<noteq> 0 \<Longrightarrow> oldest ids m = Min (insert m (set ids))"
proof (induction ids arbitrary: m)
  case (Cons i ids)
  have "Min (insert m (insert i (set ids))) = Min (insert (if i < m then i else m) (set ids))"
    by (cases "set ids = {}") (auto simp: min_def)
  with Cons show ?case by (auto simp: oldest_def)
qed (simp add: oldest_def)

section \<open>Properties\<close>

text \<open>
  C9. A sweep removes exactly the tracked versions that are not current and either unreferenced or
  held longer than the force timeout, and reports them: the current version and every version
  a snapshot holds within the timeout stay tracked and keep their reference counts, forced
  versions end with count zero, versions that are not tracked are untouched.
\<close>

theorem Collect_removes_orphans:
  assumes "gc_ok h gc" and "Collect now ctrl gc h = (gc', h', st, evs)"
  shows "(\<forall>nid tv. map_of (gc_versions gc) nid = Some tv \<longrightarrow>
       (let cur = (\<exists>a. Load ctrl = Some a \<and> v_ID (h a) = nid);
            removed = (\<not> cur \<and> (RefCount h (tv_version tv) = 0 \<or> overdue now (gc_config gc) tv))
        in (map_of (gc_versions gc') nid = None \<longleftrightarrow> removed) \<and> (nid \<in> set (co_RemovedVersions st) \<longleftrightarrow> removed) \<and>
           RefCount h' (tv_version tv) = (if removed then 0 else RefCount h (tv_version tv)))) \<and>
     (\<forall>nid. map_of (gc_versions gc) nid = None \<longrightarrow> map_of (gc_versions gc') nid = None) \<and>
     (\<forall>a. (\<forall>(nid, tv) \<in> set (gc_versions gc). tv_version tv \<noteq> a) \<longrightarrow> h' a = h a) \<and>
     co_VersionsRemoved st = int (length (co_RemovedVersions st)) \<and> distinct (co_RemovedVersions st) \<and> gc_ok h' gc'"
proof -
  let ?cur = "map_option (\<lambda>a. v_ID (h a)) (Load ctrl)" and ?cfg = "gc_config gc"
  have wf: "wf_gomap (gc_versions gc)" using assms(1) by (simp add: gc_ok_def)
  have c: "co_RemovedVersions st = map fst (filter (collected now ?cfg ?cur h) (gc_versions gc))"
    "co_VersionsRemoved st = int (length (co_RemovedVersions st))"
    "\<And>k. map_of (gc_versions gc') k = (case map_of (gc_versions gc) k of None \<Rightarrow> None
       | Some tv \<Rightarrow> if collected now ?cfg ?cur h (k, tv) then None else Some (kept_as now ?cfg ?cur k tv))"
    "\<And>k tv. (k, tv) \<in> set (gc_versions gc) \<Longrightarrow> RefCount h' (tv_version tv) =
       (if collected now ?cfg ?cur h (k, tv) then 0 else RefCount h (tv_version tv))"
    "\<And>a. (\<forall>(k, tv) \<in> set (gc_versions gc). tv_version tv \<noteq> a) \<Longrightarrow> h' a = h a" "gc_ok h' gc'"
    using assms(2) by - (rule Collect_correct [OF assms(1), of now ctrl]; simp)+
  have coll: "collected now ?cfg ?cur h (nid, tv) \<longleftrightarrow> \<not> (\<exists>a. Load ctrl = Some a \<and> v_ID (h a) = nid) \<and>
      (RefCount h (tv_version tv) = 0 \<or> overdue now ?cfg tv)" for nid tv
    by (auto simp: collected_def)
  have mem: "nid \<in> set (co_RemovedVersions st) \<longleftrightarrow> collected now ?cfg ?cur h (nid, tv)"
    if "map_of (gc_versions gc) nid = Some tv" for nid tv
    using that wf by (force simp: c(1) entry_iff_lookup)
  have "map_of (gc_versions gc') nid = None \<longleftrightarrow> collected now ?cfg ?cur h (nid, tv)"
    if "map_of (gc_versions gc) nid = Some tv" for nid tv
    using that by (simp add: c(3))
  moreover have "distinct (co_RemovedVersions st)" unfolding c(1) using wf by (rule distinct_map_filter)
  ultimately show ?thesis
    using c(2,5,6) mem c(4) [OF map_of_SomeD] c(3) unfolding Let_def coll by simp
qed

definition two_orphans :: "64 word \<Rightarrow> GC" where
  "two_orphans x = \<lparr>gc_config = \<lparr>Interval = 1, WarningTimeout = 0, ForceTimeout = 0\<rparr>,
     gc_versions = [(0, \<lparr>tv_version = 0, tv_createdAt = 1, tv_warned = False\<rparr>),
                    (x, \<lparr>tv_version = 1, tv_createdAt = 2, tv_warned = False\<rparr>)], gc_running = False\<rparr>"

definition orphan_heap :: "64 word \<Rightarrow> vheap" where
  "orphan_heap x a = \<lparr>v_ID = (if a = 0 then 0 else x), v_Graph = NewImmutableEmpty, v_Timestamp = 1, v_Dirty = [], v_refCount = 0\<rparr>"

theorem Collect_removes_orphans_witness:
  "gc_ok (orphan_heap 7) (two_orphans 7) \<and>
   map_of (gc_versions (fst (Collect 9 \<lparr>current = Some 1\<rparr> (two_orphans 7) (orphan_heap 7)))) 0 = None"
proof -
  have ok: "gc_ok (orphan_heap 7) (two_orphans 7)"
    by (simp add: gc_ok_def two_orphans_def orphan_heap_def RefCount_def)
  obtain gc' h' st evs where c: "Collect 9 \<lparr>current = Some 1\<rparr> (two_orphans 7) (orphan_heap 7) = (gc', h', st, evs)"
    by (cases "Collect 9 \<lparr>current = Some 1\<rparr> (two_orphans 7) (orphan_heap 7)") auto
  from Collect_removes_orphans [OF ok c] have "map_of (gc_versions gc') 0 = None"
    by (auto simp: two_orphans_def orphan_heap_def Load_def RefCount_def Let_def)
  with ok c show ?thesis by simp
qed

text \<open>
  \<open>OldestRemoved\<close> is the smallest removed identifier when zero is not among them. But zero is a
  version identifier, and the sweep uses it for "none yet": with versions \<open>0\<close> and \<open>x\<close> removed
  in that order the report names \<open>x\<close>, in the other order \<open>0\<close>.
\<close>

theorem OldestRemoved_sentinel:
  assumes "gc_ok h gc" and "Collect now ctrl gc h = (gc', h', st, evs)" and "x \<noteq> 0"
  shows "(co_RemovedVersions st \<noteq> [] \<longrightarrow> 0 \<notin> set (co_RemovedVersions st) \<longrightarrow>
        co_OldestRemoved st = Min (set (co_RemovedVersions st))) \<and>
     (co_RemovedVersions st = [0, x] \<longrightarrow> co_OldestRemoved st = x) \<and>
     (co_RemovedVersions st = [x, 0] \<longrightarrow> co_OldestRemoved st = 0)"
proof -
  have "co_OldestRemoved st = oldest (co_RemovedVersions st) 0"
    using assms(2) by - (rule Collect_correct [OF assms(1), of now ctrl]; simp)
  moreover have "oldest ids 0 = Min (set ids)" if "ids \<noteq> []" "0 \<notin> set ids" for ids
    using that oldest_min [of "tl ids" "hd ids"] by (cases ids) (auto simp: oldest_def)
  ultimately show ?thesis using assms(3) by (auto simp: oldest_def word_gt_0)
qed

theorem OldestRemoved_sentinel_witness:
  "co_RemovedVersions (fst (snd (snd (Collect 9 NewController (two_orphans 7) (orphan_heap 7))))) = [0, 7] \<and>
   co_OldestRemoved (fst (snd (snd (Collect 9 NewController (two_orphans 7) (orphan_heap 7))))) = 7"
proof -
  have ok: "gc_ok (orphan_heap 7) (two_orphans 7)"
    by (simp add: gc_ok_def two_orphans_def orphan_heap_def RefCount_def)
  obtain gc' h' st evs where c: "Collect 9 NewController (two_orphans 7) (orphan_heap 7) = (gc', h', st, evs)"
    by (cases "Collect 9 NewController (two_orphans 7) (orphan_heap 7)") auto
  then have "co_RemovedVersions st = [0, 7]"
    by (simp add: Collect_def two_orphans_def orphan_heap_def Load_def NewController_def sweep_visit_def RefCount_def
        remove_visit_def Let_def split: prod.splits if_splits) auto
  with OldestRemoved_sentinel [OF ok c, of 7] c show ?thesis by simp
qed

end
