(* ===== verification/Results_Cache.thy ===== *)
theory Results_Cache
  imports Prelude
begin

text \<open>
  \<open>cache/results_cache.go\<close>: the cache of analysis results, keyed by graph version and query, with
  a time to live. Cached values are of any type. The locale \<open>result_cache\<close> is the contract the
  snapshots rely on; its client lemma is that a cache filled consistently only ever answers
  consistently. The refinement compares the cache with the history of calls made to it.
\<close>

section \<open>Operations\<close>

record CacheKey =
  VersionID :: "64 word"
  QueryType :: string
  QueryArgs :: string

record 'v CachedEntry =
  ce_Value :: 'v
  ce_ComputedAt :: time
  ce_ExpiresAt :: time

record 'v ResultsCache =
  rc_data :: "(CacheKey, 'v CachedEntry) gomap"
  rc_ttl :: duration
  rc_hits :: "64 word"
  rc_misses :: "64 word"

definition NewResultsCache :: "duration \<Rightarrow> 'v ResultsCache" where
  "NewResultsCache ttl = \<lparr>rc_data = [], rc_ttl = (if ttl \<le> 0 then 60 * 10 ^ 9 else ttl), rc_hits = 0, rc_misses = 0\<rparr>"

definition Get :: "time \<Rightarrow> CacheKey \<Rightarrow> 'v ResultsCache \<Rightarrow> 'v option \<times> 'v ResultsCache" where
  "Get now key c = (case map_of (rc_data c) key of
     None \<Rightarrow> (None, c\<lparr>rc_misses := rc_misses c + 1\<rparr>)
   | Some cached \<Rightarrow>
       if now > ce_ExpiresAt cached then (None, c\<lparr>rc_misses := rc_misses c + 1\<rparr>)
       else (Some (ce_Value cached), c\<lparr>rc_hits := rc_hits c + 1\<rparr>))"

definition Set :: "time \<Rightarrow> CacheKey \<Rightarrow> 'v \<Rightarrow> 'v ResultsCache \<Rightarrow> 'v ResultsCache" where
  "Set now key value c = c\<lparr>rc_data :=
     AList.update key \<lparr>ce_Value = value, ce_ComputedAt = now, ce_ExpiresAt = now + rc_ttl c\<rparr> (rc_data c)\<rparr>"

text \<open>Ranging over the map while deleting the visited key: every entry is visited once.\<close>

definition delete_where ::
  "(CacheKey \<Rightarrow> 'v CachedEntry \<Rightarrow> bool) \<Rightarrow> (CacheKey, 'v CachedEntry) gomap \<Rightarrow> (CacheKey, 'v CachedEntry) gomap \<times> int" where
  "delete_where P data = fold (\<lambda>(key, cached) (m, cnt).
     if P key cached then (AList.delete key m, cnt + 1) else (m, cnt)) data (data, 0)"

definition InvalidateVersion :: "64 word \<Rightarrow> 'v ResultsCache \<Rightarrow> int \<times> 'v ResultsCache" where
  "InvalidateVersion versionID c =
     (let (data, cnt) = delete_where (\<lambda>key _. VersionID key = versionID) (rc_data c)
      in (cnt, c\<lparr>rc_data := data\<rparr>))"

definition EvictExpired :: "time \<Rightarrow> 'v ResultsCache \<Rightarrow> int \<times> 'v ResultsCache" where
  "EvictExpired now c =
     (let (data, cnt) = delete_where (\<lambda>_ cached. now > ce_ExpiresAt cached) (rc_data c)
      in (cnt, c\<lparr>rc_data := data\<rparr>))"

definition Clear :: "'v ResultsCache \<Rightarrow> 'v ResultsCache" where
  "Clear c = c\<lparr>rc_data := [], rc_hits := 0, rc_misses := 0\<rparr>"

record CacheStats =
  Entries :: nat
  Hits :: "64 word"
  Misses :: "64 word"
  HitRate :: real
  SizeMB :: real

definition Cache_Stats :: "'v ResultsCache \<Rightarrow> CacheStats" where
  "Cache_Stats c =
     (let total = rc_hits c + rc_misses c
      in \<lparr>Entries = length (rc_data c), Hits = rc_hits c, Misses = rc_misses c,
          HitRate = (if total > 0 then real (unat (rc_hits c)) / real (unat total) else 0),
          SizeMB = real (length (rc_data c)) * 5\<rparr>)"

section \<open>The contract\<close>

text \<open>What a reader sees of a cache, without the effect on the counters.\<close>

definition visible :: "time \<Rightarrow> CacheKey \<Rightarrow> 'v ResultsCache \<Rightarrow> 'v option" where
  "visible now key c = fst (Get now key c)"

definition cache_ok :: "'v ResultsCache \<Rightarrow> bool" where
  "cache_ok c \<longleftrightarrow> wf_gomap (rc_data c)"

datatype 'v cache_op =
    Op_Get time CacheKey
  | Op_Set time CacheKey 'v
  | Op_Invalidate "64 word"
  | Op_Evict time
  | Op_Clear

locale result_cache =
  fixes lookup :: "time \<Rightarrow> CacheKey \<Rightarrow> 'c \<Rightarrow> 'v option"
    and perform :: "'v cache_op \<Rightarrow> 'c \<Rightarrow> 'c"
    and invar :: "'c \<Rightarrow> bool"
  assumes invar_perform: "invar c \<Longrightarrow> invar (perform op c)"
    and lookup_get: "invar c \<Longrightarrow> lookup now k (perform (Op_Get t k') c) = lookup now k c"
    and lookup_set: "invar c \<Longrightarrow> k \<noteq> k' \<Longrightarrow> lookup now k (perform (Op_Set t k' v) c) = lookup now k c"
    and lookup_set_same: "invar c \<Longrightarrow> lookup now k (perform (Op_Set t k v) c) = Some w \<Longrightarrow> w = v"
    and lookup_invalidate: "invar c \<Longrightarrow>
      lookup now k (perform (Op_Invalidate ver) c) = (if VersionID k = ver then None else lookup now k c)"
    and lookup_evict: "invar c \<Longrightarrow> lookup now k (perform (Op_Evict t) c) \<in> {None, lookup now k c}"
    and lookup_clear: "invar c \<Longrightarrow> lookup now k (perform Op_Clear c) = None"
begin

text \<open>If every value stored under a key is the one \<open>f\<close> gives for the key, every answer is.\<close>

lemma consistent_answers:
  assumes "invar c" and "\<And>now k v. lookup now k c = Some v \<Longrightarrow> v = f k"
    and "\<And>t k v. Op_Set t k v \<in> set ops \<Longrightarrow> v = f k"
  shows "lookup now k (fold perform ops c) = Some v \<Longrightarrow> v = f k"
  using assms
proof (induction ops arbitrary: c)
  case (Cons op ops)
  have "v = f k" if "lookup now k (perform op c) = Some v" for now k v
  proof (cases op)
    case (Op_Set t k' w)
    with Cons.prems(2,4) that show ?thesis
      by (cases "k = k'") (auto dest: lookup_set_same [OF Cons.prems(2)] simp: lookup_set [OF Cons.prems(2)] Cons.prems(3))
  next
    case (Op_Evict t)
    with that lookup_evict [OF Cons.prems(2), of now k t] Cons.prems(3) show ?thesis by auto
  qed (use that Cons.prems(3) in \<open>auto simp: lookup_get [OF Cons.prems(2)] lookup_invalidate [OF Cons.prems(2)]
        lookup_clear [OF Cons.prems(2)] split: if_splits\<close>)
  moreover have "\<And>t k v. Op_Set t k v \<in> set ops \<Longrightarrow> v = f k" using Cons.prems(4) by (meson list.set_intros(2))
  ultimately show ?case
    using Cons.IH [of "perform op c"] Cons.prems(1) invar_perform [OF Cons.prems(2)] by simp
qed simp

lemma invar_run: "invar c \<Longrightarrow> invar (fold perform ops c)"
  by (induction ops arbitrary: c) (simp_all add: invar_perform)

lemma invalidated_misses:
  assumes "invar c" and "\<And>t k v. Op_Set t k v \<in> set ops \<Longrightarrow> VersionID k \<noteq> ver" and "VersionID k = ver"
  shows "lookup now k (fold perform ops (perform (Op_Invalidate ver) c)) = None"
proof -
  have "lookup now k (fold perform ops c') = None"
    if "invar c'" "\<And>now. lookup now k c' = None" for c'
    using that assms(2)
  proof (induction ops arbitrary: c')
    case (Cons op ops)
    have "lookup now k (perform op c') = None" for now
    proof (cases op)
      case (Op_Set t k' w)
      with Cons.prems(3) [of t k' w] assms(3) have "k \<noteq> k'" by auto
      with Op_Set Cons.prems(1,2) show ?thesis by (simp add: lookup_set)
    next
      case (Op_Evict t)
      with lookup_evict [OF Cons.prems(1), of now k t] Cons.prems(2) show ?thesis by auto
    qed (use Cons.prems(1,2) in \<open>simp_all add: lookup_get lookup_invalidate lookup_clear\<close>)
    with Cons.IH [of "perform op c'"] Cons.prems(1,3) invar_perform show ?case by auto
  qed simp
  with assms(1,3) show ?thesis by (simp add: invar_perform lookup_invalidate)
qed

end

section \<open>The cache meets the contract\<close>

definition perform :: "'v cache_op \<Rightarrow> 'v ResultsCache \<Rightarrow> 'v ResultsCache" where
  "perform op c = (case op of
     Op_Get t k \<Rightarrow> snd (Get t k c)
   | Op_Set t k v \<Rightarrow> Set t k v c
   | Op_Invalidate ver \<Rightarrow> snd (InvalidateVersion ver c)
   | Op_Evict t \<Rightarrow> snd (EvictExpired t c)
   | Op_Clear \<Rightarrow> Clear c)"

lemma delete_where_loop:
  assumes "distinct (map fst todo)"
  shows "let (m', n) = fold (\<lambda>(key, cached) (m, cnt).
       if P key cached then (AList.delete key m, cnt + 1) else (m, cnt)) todo (m, cnt)
     in (wf_gomap m \<longrightarrow> wf_gomap m') \<and> n = cnt + int (length (filter (\<lambda>(k, v). P k v) todo)) \<and>
       (\<forall>k. map_of m' k = (case map_of todo k of None \<Rightarrow> map_of m k
                           | Some v \<Rightarrow> if P k v then None else map_of m k))"
  using assms
proof (induction todo arbitrary: m cnt)
  case (Cons x todo)
  obtain k v where x: "x = (k, v)" by force
  with Cons.prems have none: "map_of todo k = None" by (simp add: map_of_eq_None_iff)
  let ?f = "\<lambda>(key, cached) (m, cnt). if P key cached then (AList.delete key m, cnt + 1) else (m, cnt)"
  let ?m = "if P k v then AList.delete k m else m" and ?c = "if P k v then cnt + 1 else cnt"
  obtain m' n where run: "fold ?f todo (?m, ?c) = (m', n)" by force
  have whole: "fold ?f (x # todo) (m, cnt) = (m', n)" using run by (cases "P k v") (simp_all add: x)
  have IH: "wf_gomap ?m \<longrightarrow> wf_gomap m'" "n = ?c + int (length (filter (\<lambda>(k, v). P k v) todo))"
    "\<And>j. map_of m' j = (case map_of todo j of None \<Rightarrow> map_of ?m j | Some w \<Rightarrow> if P j w then None else map_of ?m j)"
    using Cons.IH [of ?m ?c] Cons.prems run by simp_all
  have "map_of m' j = (case map_of (x # todo) j of None \<Rightarrow> map_of m j | Some w \<Rightarrow> if P j w then None else map_of m j)" for j
    unfolding IH(3) [of j] using none by (cases "j = k") (auto simp: x split: option.split)
  with IH(1,2) show ?case unfolding whole by (auto simp: x)
qed simp

lemma delete_where_correct:
  assumes "wf_gomap data"
  obtains m n where "delete_where P data = (m, n)" and "wf_gomap m"
    and "n = int (length (filter (\<lambda>(k, v). P k v) data))"
    and "\<And>k. map_of m k = (case map_of data k of None \<Rightarrow> None | Some v \<Rightarrow> if P k v then None else Some v)"
proof -
  obtain m n where mn: "delete_where P data = (m, n)" by force
  with delete_where_loop [OF assms, of P data 0] assms show thesis
    by (intro that [OF mn]) (auto simp: delete_where_def split: option.split)
qed

lemma InvalidateVersion_data:
  assumes "cache_ok c"
  shows "cache_ok (snd (InvalidateVersion ver c)) \<and> rc_ttl (snd (InvalidateVersion ver c)) = rc_ttl c \<and>
    map_of (rc_data (snd (InvalidateVersion ver c))) k = (if VersionID k = ver then None else map_of (rc_data c) k) \<and>
    fst (InvalidateVersion ver c) = int (length (filter (\<lambda>(k, e). VersionID k = ver) (rc_data c)))"
  by (rule delete_where_correct [of "rc_data c" "\<lambda>key _. VersionID key = ver"])
    (use assms in \<open>auto simp: InvalidateVersion_def cache_ok_def split: option.split\<close>)

lemma EvictExpired_data:
  assumes "cache_ok c"
  shows "cache_ok (snd (EvictExpired now c)) \<and> rc_ttl (snd (EvictExpired now c)) = rc_ttl c \<and>
    map_of (rc_data (snd (EvictExpired now c))) k = (case map_of (rc_data c) k of None \<Rightarrow> None
      | Some e \<Rightarrow> if now > ce_ExpiresAt e then None else Some e) \<and>
    fst (EvictExpired now c) = int (length (filter (\<lambda>(k, e). now > ce_ExpiresAt e) (rc_data c)))"
  by (rule delete_where_correct [of "rc_data c" "\<lambda>_ cached. now > ce_ExpiresAt cached"])
    (use assms in \<open>auto simp: EvictExpired_def cache_ok_def split: option.split\<close>)

lemma rc_data_perform:
  assumes "cache_ok c"
  shows "cache_ok (perform op c)" and "rc_ttl (perform op c) = rc_ttl c"
    and "map_of (rc_data (perform op c)) k = (case op of
       Op_Get _ _ \<Rightarrow> map_of (rc_data c) k
     | Op_Set t k' v \<Rightarrow> if k = k' then Some \<lparr>ce_Value = v, ce_ComputedAt = t, ce_ExpiresAt = t + rc_ttl c\<rparr>
                        else map_of (rc_data c) k
     | Op_Invalidate ver \<Rightarrow> if VersionID k = ver then None else map_of (rc_data c) k
     | Op_Evict t \<Rightarrow> (case map_of (rc_data c) k of None \<Rightarrow> None
                      | Some e \<Rightarrow> if t > ce_ExpiresAt e then None else Some e)
     | Op_Clear \<Rightarrow> None)"
  using assms InvalidateVersion_data [OF assms] EvictExpired_data [OF assms]
  by (cases op; simp add: perform_def Get_def Set_def Clear_def cache_ok_def split: option.split)+

lemma visible_eq:
  "visible now k c = (case map_of (rc_data c) k of None \<Rightarrow> None
     | Some e \<Rightarrow> if now > ce_ExpiresAt e then None else Some (ce_Value e))"
  by (simp add: visible_def Get_def split: option.split)

interpretation rc: result_cache visible perform cache_ok
  by unfold_locales
    (auto simp: rc_data_perform(1) visible_eq rc_data_perform(3) split: option.splits if_splits)

section \<open>The history of calls\<close>

text \<open>
  The specification: the value last stored under a key (the newest call first in the list) and
  the time it was stored, unless its version was invalidated, the cache was cleared, or an
  eviction found it expired since.
\<close>

fun live_entry :: "duration \<Rightarrow> CacheKey \<Rightarrow> 'v cache_op list \<Rightarrow> (time \<times> 'v) option" where
  "live_entry ttl k [] = None"
| "live_entry ttl k (Op_Get t k' # ops) = live_entry ttl k ops"
| "live_entry ttl k (Op_Set t k' v # ops) = (if k = k' then Some (t, v) else live_entry ttl k ops)"
| "live_entry ttl k (Op_Invalidate ver # ops) = (if VersionID k = ver then None else live_entry ttl k ops)"
| "live_entry ttl k (Op_Evict t # ops) = (case live_entry ttl k ops of None \<Rightarrow> None
     | Some (s, v) \<Rightarrow> if t > s + ttl then None else Some (s, v))"
| "live_entry ttl k (Op_Clear # ops) = None"

lemma run_history:
  defines "run \<equiv> \<lambda>ttl ops. foldr perform ops (NewResultsCache ttl)"
  shows "cache_ok (run ttl ops)" and "rc_ttl (run ttl ops) = (if ttl \<le> 0 then 60 * 10 ^ 9 else ttl)"
    and "map_of (rc_data (run ttl ops)) k =
      map_option (\<lambda>(t, v). \<lparr>ce_Value = v, ce_ComputedAt = t, ce_ExpiresAt = t + rc_ttl (run ttl ops)\<rparr>)
        (live_entry (rc_ttl (run ttl ops)) k ops)"
proof -
  show ok: "cache_ok (run ttl ops)" for ops
    by (induction ops) (simp_all add: run_def rc_data_perform(1), simp add: cache_ok_def NewResultsCache_def)
  show ttl: "rc_ttl (run ttl ops) = (if ttl \<le> 0 then 60 * 10 ^ 9 else ttl)" for ops
  proof (induction ops)
    case (Cons op ops)
    with rc_data_perform(2) [OF ok [of ops], of op] show ?case by (simp add: run_def)
  qed (simp add: run_def NewResultsCache_def)
  show "map_of (rc_data (run ttl ops)) k =
      map_option (\<lambda>(t, v). \<lparr>ce_Value = v, ce_ComputedAt = t, ce_ExpiresAt = t + rc_ttl (run ttl ops)\<rparr>)
        (live_entry (rc_ttl (run ttl ops)) k ops)"
  proof (induction ops)
    case Nil
    then show ?case by (simp add: run_def NewResultsCache_def)
  next
    case (Cons op ops)
    have "run ttl (op # ops) = perform op (run ttl ops)" by (simp add: run_def)
    with Cons rc_data_perform(3) [OF ok [of ops], of op k] ttl [of ops] ttl [of "op # ops"]
    show ?case by (cases op) (auto split: option.splits)
  qed
qed

section \<open>Properties\<close>

text \<open>
  C10. The cache refines the history of calls: after any sequence of operations on a new cache, \<open>Get\<close>
  at time \<open>now\<close> answers the value last stored under the key exactly when its version has not
  been invalidated, the cache not cleared and no eviction found it expired since, and \<open>now\<close> is
  within the time to live (sixty seconds when the configured one is not positive).
\<close>

theorem cache_refines_history:
  "fst (Get now key (foldr perform ops (NewResultsCache ttl))) =
     (let ttl' = (if ttl \<le> 0 then 60 * 10 ^ 9 else ttl)
      in case live_entry ttl' key ops of None \<Rightarrow> None
         | Some (stored, v) \<Rightarrow> if now > stored + ttl' then None else Some v)"
  using visible_eq [of now key "foldr perform ops (NewResultsCache ttl)"]
    run_history(3) [of ops ttl key] run_history(2) [of ops ttl]
  by (simp add: visible_def Let_def split: option.split)

text \<open>
  Isolation of graph versions. If each value the callers store under a key is the result \<open>f\<close> of
  that key's version and query, every hit returns that result, whatever calls happen in
  between; and once a version is invalidated no query on it hits until it is stored again.
\<close>

theorem cache_version_isolation:
  assumes "cache_ok c" and "\<And>now k v. visible now k c = Some v \<Longrightarrow> v = f k"
    and "\<And>t k v. Op_Set t k v \<in> set ops \<Longrightarrow> v = f k"
  shows "visible now k (fold perform ops c) \<in> {None, Some (f k)} \<and>
     ((\<forall>t k v. Op_Set t k v \<in> set ops \<longrightarrow> VersionID k \<noteq> ver) \<longrightarrow> VersionID k = ver \<longrightarrow>
        visible now k (fold perform ops (snd (InvalidateVersion ver c))) = None)"
proof (intro conjI impI)
  have "w = f k" if "visible now k (fold perform ops c) = Some w" for w
    by (rule rc.consistent_answers [OF assms(1) _ _ that]) (use assms(2,3) in blast)+
  then show "visible now k (fold perform ops c) \<in> {None, Some (f k)}"
    by (cases "visible now k (fold perform ops c)") auto
  assume other: "\<forall>t k v. Op_Set t k v \<in> set ops \<longrightarrow> VersionID k \<noteq> ver" and "VersionID k = ver"
  then have "visible now k (fold perform ops (perform (Op_Invalidate ver) c)) = None"
    by (intro rc.invalidated_misses [OF assms(1)]) blast+
  then show "visible now k (fold perform ops (snd (InvalidateVersion ver c))) = None"
    by (simp add: perform_def)
qed

theorem cache_version_isolation_witness:
  "visible 7 \<lparr>VersionID = 1, QueryType = ''full'', QueryArgs = []\<rparr>
     (fold perform [Op_Set 5 \<lparr>VersionID = 1, QueryType = ''full'', QueryArgs = []\<rparr> (1 :: 64 word),
        Op_Evict 6] (NewResultsCache 10)) \<in> {None, Some 1}"
  using cache_version_isolation [of "NewResultsCache 10" VersionID
      "[Op_Set 5 \<lparr>VersionID = 1, QueryType = ''full'', QueryArgs = []\<rparr> (1 :: 64 word), Op_Evict 6]" 7
      "\<lparr>VersionID = 1, QueryType = ''full'', QueryArgs = []\<rparr>"]
  by (simp add: cache_ok_def NewResultsCache_def visible_eq)

end
