(* ===== verification/Tension_History.thy ===== *)
theory Tension_History
  imports Prelude
begin

text \<open>
  \<open>TensionHistory\<close> of \<open>analysis/temporal.go\<close>: the ring buffer of a node's tension samples. Its
  contract is the locale \<open>bounded_log\<close>, a log that keeps the last \<open>n\<close> values; the ring buffer is
  shown to be one.
\<close>

section \<open>Operations\<close>

record TensionSample =
  sm_Tension :: real
  sm_Timestamp :: time
  sm_Version :: "64 word"

definition zero_sample :: TensionSample where
  "zero_sample = \<lparr>sm_Tension = 0, sm_Timestamp = 0, sm_Version = 0\<rparr>"

text \<open>The buffer, its size, the next write position and the number of samples ever written.\<close>

record TensionHistory =
  th_samples :: "TensionSample list"
  th_size :: nat
  th_head :: nat
  th_count :: nat

definition NewTensionHistory :: "int \<Rightarrow> TensionHistory" where
  "NewTensionHistory capacity =
     (let capacity = (if capacity \<le> 0 then 100 else capacity)
      in \<lparr>th_samples = replicate (nat capacity) zero_sample, th_size = nat capacity, th_head = 0, th_count = 0\<rparr>)"

definition Push :: "TensionSample \<Rightarrow> TensionHistory \<Rightarrow> TensionHistory" where
  "Push s h = h\<lparr>th_samples := (th_samples h)[th_head h := s],
     th_head := (th_head h + 1) mod th_size h, th_count := th_count h + 1\<rparr>"

definition Len :: "TensionHistory \<Rightarrow> nat" where
  "Len h = (if th_count h < th_size h then th_count h else th_size h)"

definition Latest :: "TensionHistory \<Rightarrow> TensionSample option" where
  "Latest h = (if th_count h = 0 then None
     else let idx = (th_head h + th_size h - 1) mod th_size h in Some (th_samples h ! idx))"

definition Previous :: "TensionHistory \<Rightarrow> TensionSample option" where
  "Previous h = (if Len h < 2 then None
     else let idx = (th_head h + th_size h - 2) mod th_size h in Some (th_samples h ! idx))"

definition Slice :: "TensionHistory \<Rightarrow> TensionSample list" where
  "Slice h = (let n = Len h in
     if n = 0 then []
     else if th_count h \<le> th_size h then take n (th_samples h)
     else map (\<lambda>i. th_samples h ! ((th_head h + i) mod th_size h)) [0..<n])"

section \<open>The contract\<close>

definition last_n :: "nat \<Rightarrow> 'a list \<Rightarrow> 'a list" where
  "last_n n xs = drop (length xs - n) xs"

lemma last_n_snoc: "0 < n \<Longrightarrow> last_n n (last_n n xs @ [x]) = last_n n (xs @ [x])"
  by (cases "length xs \<le> n") (simp_all add: last_n_def Suc_diff_le)

locale bounded_log =
  fixes empty :: "'c \<Rightarrow> 'h"
    and push :: "'a \<Rightarrow> 'h \<Rightarrow> 'h"
    and to_list :: "'h \<Rightarrow> 'a list"
    and bound :: "'h \<Rightarrow> nat"
    and invar :: "'h \<Rightarrow> bool"
  assumes invar_empty: "invar (empty c)"
    and to_list_empty: "to_list (empty c) = []"
    and bound_pos: "invar h \<Longrightarrow> 0 < bound h"
    and invar_push: "invar h \<Longrightarrow> invar (push x h)"
    and bound_push: "invar h \<Longrightarrow> bound (push x h) = bound h"
    and to_list_push: "invar h \<Longrightarrow> to_list (push x h) = last_n (bound h) (to_list h @ [x])"
begin

lemma run_invar: "invar h \<Longrightarrow> invar (fold push xs h) \<and> bound (fold push xs h) = bound h"
  by (induction xs arbitrary: h) (simp_all add: invar_push bound_push)

lemma to_list_run: "to_list (fold push xs (empty c)) = last_n (bound (empty c)) xs"
proof (induction xs rule: rev_induct)
  case Nil
  show ?case by (simp add: to_list_empty last_n_def)
next
  case (snoc x xs)
  have inv: "invar (fold push xs (empty c)) \<and> bound (fold push xs (empty c)) = bound (empty c)"
    by (rule run_invar [OF invar_empty])
  with snoc show ?case
    by (simp add: to_list_push last_n_snoc bound_pos [OF invar_empty])
qed

lemma length_run: "length (to_list (fold push xs (empty c))) = min (length xs) (bound (empty c))"
  by (simp add: to_list_run last_n_def)

end

section \<open>The ring buffer meets the contract\<close>

text \<open>Position \<open>j mod size\<close> holds the \<open>j\<close>-th sample of the whole history while it is among the last \<open>size\<close>.\<close>

definition holds :: "TensionHistory \<Rightarrow> TensionSample list \<Rightarrow> bool" where
  "holds h xs \<longleftrightarrow> 0 < th_size h \<and> length (th_samples h) = th_size h \<and> th_count h = length xs \<and>
     th_head h = length xs mod th_size h \<and>
     (\<forall>j < length xs. length xs \<le> j + th_size h \<longrightarrow> th_samples h ! (j mod th_size h) = xs ! j)"

definition ring_ok :: "TensionHistory \<Rightarrow> bool" where
  "ring_ok h \<longleftrightarrow> (\<exists>xs. holds h xs)"

lemma holds_new: "holds (NewTensionHistory c) []"
  by (simp add: holds_def NewTensionHistory_def Let_def)

lemma mod_neq: "j < l \<Longrightarrow> l < j + n \<Longrightarrow> j mod n \<noteq> l mod (n :: nat)"
  by (metis add.commute add_diff_inverse_nat le_add1 less_diff_conv2 less_imp_le_nat mod_eq_dvd_iff_nat
      nat_dvd_not_less not_less zero_less_diff)

lemma holds_push:
  assumes "holds h xs"
  shows "holds (Push s h) (xs @ [s])"
proof -
  have "(th_samples h)[length xs mod th_size h := s] ! (j mod th_size h) = (xs @ [s]) ! j"
    if "j < Suc (length xs)" "Suc (length xs) \<le> j + th_size h" for j
  proof (cases "j = length xs")
    case True
    with assms show ?thesis by (simp add: holds_def)
  next
    case False
    with that have "j mod th_size h \<noteq> length xs mod th_size h" by (intro mod_neq) auto
    with False that assms show ?thesis by (simp add: holds_def nth_append)
  qed
  with assms show ?thesis by (auto simp: holds_def Push_def mod_Suc_eq)
qed

lemma ring_index:
  assumes "0 < n" and "k \<le> n" and "k \<le> l"
  shows "(l mod n + n - k) mod n = (l - k) mod (n :: nat)"
proof -
  have "(l mod n + n - k) mod n = (l mod n + (n - k)) mod n" using assms by simp
  also have "\<dots> = (l + (n - k)) mod n" by (rule mod_add_left_eq)
  also have "l + (n - k) = (l - k) + n" using assms by simp
  finally show ?thesis by simp
qed

lemma holds_Len: "holds h xs \<Longrightarrow> Len h = min (length xs) (th_size h)"
  by (simp add: Len_def holds_def)

lemma holds_at:
  assumes "holds h xs" and "0 < k" and "k \<le> min (length xs) (th_size h)"
  shows "th_samples h ! ((th_head h + th_size h - k) mod th_size h) = xs ! (length xs - k)"
proof -
  have "length xs - k < length xs" "length xs \<le> length xs - k + th_size h" using assms(2,3) by auto
  with assms ring_index [of "th_size h" k "length xs"] show ?thesis by (simp add: holds_def)
qed

lemma holds_Latest: "holds h xs \<Longrightarrow> Latest h = (if xs = [] then None else Some (last xs))"
  using holds_at [of h xs 1] by (auto simp: Latest_def holds_def last_conv_nth Let_def Suc_leI)

lemma holds_Previous:
  "holds h xs \<Longrightarrow> Previous h = (if length xs < 2 \<or> th_size h < 2 then None else Some (xs ! (length xs - 2)))"
  using holds_at [of h xs 2] by (auto simp: Previous_def holds_Len Let_def)

lemma holds_Slice:
  assumes "holds h xs"
  shows "Slice h = last_n (th_size h) xs"
proof (cases "length xs \<le> th_size h")
  case True
  have "take (length xs) (th_samples h) = xs"
    using assms True by (intro nth_equalityI) (auto simp: holds_def)
  with assms True show ?thesis
    using holds_Len [OF assms] by (auto simp: Slice_def Let_def last_n_def holds_def min_def)
next
  case False
  have "th_samples h ! ((th_head h + i) mod th_size h) = xs ! (length xs - th_size h + i)" if "i < th_size h" for i
  proof -
    have "(length xs - th_size h + i) mod th_size h = (length xs - th_size h + i + th_size h) mod th_size h" by simp
    also have "length xs - th_size h + i + th_size h = length xs + i" using False by simp
    finally have "(th_head h + i) mod th_size h = (length xs - th_size h + i) mod th_size h"
      using assms by (simp add: holds_def mod_add_left_eq)
    with assms that False show ?thesis by (simp add: holds_def)
  qed
  with assms False show ?thesis
    by (intro nth_equalityI) (auto simp: Slice_def holds_Len last_n_def holds_def Let_def)
qed

interpretation ring: bounded_log NewTensionHistory Push Slice th_size ring_ok
proof (unfold_locales, goal_cases)
  case (1 c)
  then show ?case using holds_new by (auto simp: ring_ok_def)
next
  case (2 c)
  then show ?case using holds_Slice [OF holds_new] by (simp add: last_n_def)
next
  case (3 h)
  then show ?case by (auto simp: ring_ok_def holds_def)
next
  case (4 h x)
  then show ?case using holds_push by (auto simp: ring_ok_def)
next
  case (5 h x)
  then show ?case by (simp add: Push_def)
next
  case (6 h x)
  then obtain xs where xs: "holds h xs" by (auto simp: ring_ok_def)
  have "0 < th_size h" using xs by (simp add: holds_def)
  then show ?case
    using holds_Slice [OF xs] holds_Slice [OF holds_push [OF xs, of x]] by (simp add: last_n_snoc) (simp add: Push_def)
qed

section \<open>Properties\<close>

text \<open>
  C11. The ring buffer is a bounded log: after any samples pushed on a new history, \<open>Slice\<close> returns
  the last \<open>n\<close> of them, oldest first, where \<open>n\<close> is the capacity (100 when not positive); \<open>Len\<close> is
  their number, \<open>Latest\<close> and \<open>Previous\<close> the last and the last but one of them.
\<close>

theorem TensionHistory_keeps_last:
  "let n = (if capacity \<le> 0 then 100 else nat capacity);
       h = fold Push samples (NewTensionHistory capacity)
   in Slice h = last_n n samples \<and> Len h = length (Slice h) \<and>
      Latest h = (if Slice h = [] then None else Some (last (Slice h))) \<and>
      Previous h = (if length (Slice h) < 2 then None else Some (last (butlast (Slice h))))"
proof -
  let ?h = "fold Push samples (NewTensionHistory capacity)"
  have h: "holds ?h samples"
    by (induction samples rule: rev_induct) (simp_all add: holds_new holds_push)
  have n: "th_size ?h = (if capacity \<le> 0 then 100 else nat capacity)"
    using ring.run_invar [OF ring.invar_empty, of samples capacity] by (simp add: NewTensionHistory_def Let_def)
  have pos: "0 < th_size ?h" using h by (simp add: holds_def)
  have slice: "Slice ?h = last_n (th_size ?h) samples" by (rule holds_Slice [OF h])
  have "last (last_n (th_size ?h) samples) = last samples" if "samples \<noteq> []"
    using that pos by (simp add: last_n_def)
  moreover have "last (butlast (last_n (th_size ?h) samples)) = samples ! (length samples - 2)"
    if "2 \<le> length samples" "2 \<le> th_size ?h"
  proof -
    have "last (butlast (last_n (th_size ?h) samples)) = last (butlast samples)"
      using that by (simp add: last_n_def last_drop flip: drop_butlast)
    moreover have "butlast samples \<noteq> []" using that by (cases samples rule: rev_cases) auto
    ultimately show ?thesis using that by (simp add: last_conv_nth nth_butlast numeral_2_eq_2)
  qed
  moreover have "length (last_n (th_size ?h) samples) = min (length samples) (th_size ?h)"
    by (simp add: last_n_def)
  moreover have "last_n (th_size ?h) samples = [] \<longleftrightarrow> samples = []"
    using pos by (cases samples) (simp_all add: last_n_def)
  ultimately show ?thesis
    using holds_Latest [OF h] holds_Previous [OF h] holds_Len [OF h] slice unfolding n [symmetric] Let_def
    by (simp add: not_less)
qed

end
