(* ===== verification/Temporal.thy ===== *)
theory Temporal
  imports Types
begin

text \<open>
  \<open>TemporalCalculator\<close>, \<open>ClassifyPhase\<close>, \<open>VelocityOfSilence\<close> and \<open>EstimateAge\<close> of \<open>analysis/temporal.go\<close>.
  Tension and curvature maps are Go maps whose missing entries read as zero; a nil curvature
  map is \<open>None\<close>. The theorems give the indicators in closed form, independent of range order.
\<close>

section \<open>Indicators\<close>

record TemporalIndicators =
  ti_TensionSpike :: real
  ti_DecayExponent :: real
  ti_CurvatureShock :: real
  ti_Timestamp :: time

definition value_or_zero :: "('k, real) gomap \<Rightarrow> 'k \<Rightarrow> real" where
  "value_or_zero m k = (case map_of m k of None \<Rightarrow> 0 | Some v \<Rightarrow> v)"

text \<open>The largest change of a value between two maps, over the keys of both.\<close>

definition max_delta :: "('k, real) gomap \<Rightarrow> ('k, real) gomap \<Rightarrow> real" where
  "max_delta current previous =
     (let all1 = fold (\<lambda>k. AList.update k True) (gkeys current) [];
          all = fold (\<lambda>k. AList.update k True) (gkeys previous) all1
      in fold (\<lambda>k maxDelta. let delta = \<bar>value_or_zero current k - value_or_zero previous k\<bar>
                            in if delta > maxDelta then delta else maxDelta) (gkeys all) 0)"

definition mapMean :: "('k, real) gomap \<Rightarrow> real" where
  "mapMean m = (if length m = 0 then 0
     else fold (\<lambda>(k, v) sum. sum + v) m 0 / real (length m))"

definition Seconds :: "duration \<Rightarrow> real" where
  "Seconds d = real_of_int d / 10 ^ 9"

definition IndicatorsWithCurvature ::
  "time \<Rightarrow> (string, real) gomap \<Rightarrow> (string, real) gomap \<Rightarrow>
   (string \<times> string, real) gomap option \<Rightarrow> (string \<times> string, real) gomap option \<Rightarrow> duration \<Rightarrow> TemporalIndicators" where
  "IndicatorsWithCurvature now current previous currentCurv prevCurv dt =
     \<lparr>ti_TensionSpike = max_delta current previous,
      ti_DecayExponent =
        (let dtSec = Seconds dt in
         if dtSec > 0 then
           let meanCur = mapMean current; meanPrev = mapMean previous
           in if meanCur > 0 \<and> meanPrev > 0 then - (ln meanCur - ln meanPrev) / dtSec else 0
         else 0),
      ti_CurvatureShock =
        (case (currentCurv, prevCurv) of (Some cc, Some pc) \<Rightarrow> max_delta cc pc | _ \<Rightarrow> 0),
      ti_Timestamp = now\<rparr>"

definition Indicators ::
  "time \<Rightarrow> (string, real) gomap \<Rightarrow> (string, real) gomap \<Rightarrow> duration \<Rightarrow> TemporalIndicators" where
  "Indicators now current previous dt = IndicatorsWithCurvature now current previous None None dt"

section \<open>Phases\<close>

datatype Phase = PhaseFullRecovery | PhaseScarredRecovery | PhaseChronicTension | PhaseStructuralCollapse

definition Phase_String :: "Phase \<Rightarrow> string" where
  "Phase_String p = (case p of PhaseFullRecovery \<Rightarrow> ''FullRecovery'' | PhaseScarredRecovery \<Rightarrow> ''ScarredRecovery''
     | PhaseChronicTension \<Rightarrow> ''ChronicTension'' | PhaseStructuralCollapse \<Rightarrow> ''StructuralCollapse'')"

record PhaseResult =
  pr_Phase :: Phase
  pr_Rho :: real
  pr_Pi :: real

definition ClassifyPhase :: "TemporalIndicators \<Rightarrow> real \<Rightarrow> real \<Rightarrow> real \<Rightarrow> PhaseResult" where
  "ClassifyPhase indicators meanTension prevMeanTension connectivityRatio =
     (let decay = ti_DecayExponent indicators;
          rho0 = (if decay < 0 then \<bar>decay\<bar> else if decay < 1 / 100 \<and> meanTension > 0 then meanTension else 0);
          rho1 = rho0 + ti_TensionSpike indicators;
          rhoC = 1;
          rho = (if rho1 > 2 then 2 else rho1);
          pi1 = (if connectivityRatio > 1 then 1 else connectivityRatio);
          healing = (if pi1 < 0 then 0 else pi1);
          piC = 1 / 2;
          phase = (if rho < rhoC then (if healing \<ge> piC then PhaseFullRecovery else PhaseScarredRecovery)
                   else (if healing \<ge> piC then PhaseChronicTension else PhaseStructuralCollapse))
      in \<lparr>pr_Phase = phase, pr_Rho = rho, pr_Pi = healing\<rparr>)"

section \<open>Velocity and age\<close>

definition VelocityOfSilence :: "real \<Rightarrow> real \<Rightarrow> real \<Rightarrow> real" where
  "VelocityOfSilence alpha lambda1 meanEdgeLength =
     (if alpha \<le> 0 \<or> lambda1 \<le> 0 \<or> meanEdgeLength \<le> 0 then 0 else alpha * sqrt lambda1 * meanEdgeLength)"

text \<open>The conversion to \<open>time.Duration\<close> truncates; the argument is positive.\<close>

definition EstimateAge :: "real \<Rightarrow> real \<Rightarrow> duration" where
  "EstimateAge distance velocity =
     (if velocity \<le> 0 \<or> distance \<le> 0 then 0 else \<lfloor>distance / velocity * 10 ^ 9\<rfloor>)"

section \<open>Closed forms\<close>

lemma keys_fold_update:
  "fst ` set (fold (\<lambda>k. AList.update k True) ks m) = set ks \<union> fst ` set m"
  by (induction ks arbitrary: m) (auto simp: keys_update)

lemma fold_max_map:
  "fold (\<lambda>k m. if f k > m then f k else m) ks m = Max (insert m (f ` set ks :: real set))"
  using fold_max [of "map f ks" m] by (simp add: fold_map comp_def Let_def)

lemma max_delta_eq:
  "max_delta cur prev =
     Max (insert 0 ((\<lambda>k. \<bar>value_or_zero cur k - value_or_zero prev k\<bar>) ` (fst ` set cur \<union> fst ` set prev)))"
  by (simp add: max_delta_def fold_max_map keys_fold_update Un_commute Let_def)

lemma max_delta_commute: "max_delta cur prev = max_delta prev cur"
  by (simp add: max_delta_eq abs_minus_commute Un_commute)

lemma max_delta_bounds: "0 \<le> max_delta cur prev" "\<bar>value_or_zero cur k - value_or_zero prev k\<bar> \<le> max_delta cur prev"
proof -
  show ge: "0 \<le> max_delta cur prev" by (simp add: max_delta_eq)
  show "\<bar>value_or_zero cur k - value_or_zero prev k\<bar> \<le> max_delta cur prev"
  proof (cases "k \<in> fst ` set cur \<union> fst ` set prev")
    case True
    then show ?thesis unfolding max_delta_eq by (intro Max_ge) auto
  next
    case False
    then have "value_or_zero cur k = 0" "value_or_zero prev k = 0"
      by (auto simp: value_or_zero_def in_keys_iff simp del: not_None_eq split: option.split)
    with ge show ?thesis by simp
  qed
qed

lemma max_delta_attained:
  "max_delta cur prev = 0 \<or> (\<exists>k. max_delta cur prev = \<bar>value_or_zero cur k - value_or_zero prev k\<bar>)"
proof -
  have "max_delta cur prev \<in> insert 0 ((\<lambda>k. \<bar>value_or_zero cur k - value_or_zero prev k\<bar>) ` (fst ` set cur \<union> fst ` set prev))"
    unfolding max_delta_eq by (intro Max_in) auto
  then show ?thesis by auto
qed

lemma mapMean_eq: "mapMean m = sum_list (map snd m) / real (length m)"
proof -
  have "fold (\<lambda>(k, v) sum. sum + v) m s = s + sum_list (map snd m)" for s
    by (induction m arbitrary: s) auto
  then show ?thesis by (simp add: mapMean_def)
qed

lemma Indicators_spike [simp]: "ti_TensionSpike (Indicators now cur prev dt) = max_delta cur prev"
  by (simp add: Indicators_def IndicatorsWithCurvature_def)

lemma decay_exponent: "ti_DecayExponent (Indicators now cur prev dt) =
    (if 0 < dt \<and> 0 < mapMean cur \<and> 0 < mapMean prev then (ln (mapMean prev) - ln (mapMean cur)) / Seconds dt else 0)"
  by (simp add: Indicators_def IndicatorsWithCurvature_def Let_def Seconds_def)

lemma decay_exponent_swap:
  "ti_DecayExponent (Indicators now prev cur dt) = - ti_DecayExponent (Indicators now' cur prev dt)"
  by (simp add: decay_exponent diff_divide_distrib)

lemma decay_exponent_positive:
  "0 < mapMean cur \<Longrightarrow> 0 < mapMean prev \<Longrightarrow> 0 < dt \<Longrightarrow>
   0 < ti_DecayExponent (Indicators now cur prev dt) \<longleftrightarrow> mapMean cur < mapMean prev"
  by (simp add: decay_exponent Seconds_def zero_less_divide_iff del: divide_divide_eq_right)

section \<open>Properties\<close>

text \<open>
  C12. The temporal indicators. The tension spike is the largest change of any node's tension
  between the two maps (missing nodes count as zero): no change exceeds it, some node attains
  it when it is positive, and it is the same with the maps exchanged. The decay exponent
  changes sign when the maps are exchanged and, for positive means and a positive time step,
  is positive exactly when the mean tension fell.
\<close>

theorem Indicators_characterised:
  "let ind = Indicators now current previous dt; rev = Indicators now previous current dt in
     (\<forall>k. \<bar>value_or_zero current k - value_or_zero previous k\<bar> \<le> ti_TensionSpike ind) \<and>
     (ti_TensionSpike ind = 0 \<or> (\<exists>k. ti_TensionSpike ind = \<bar>value_or_zero current k - value_or_zero previous k\<bar>)) \<and>
     ti_TensionSpike rev = ti_TensionSpike ind \<and> ti_DecayExponent rev = - ti_DecayExponent ind \<and>
     (0 < mapMean current \<longrightarrow> 0 < mapMean previous \<longrightarrow> 0 < dt \<longrightarrow>
        (0 < ti_DecayExponent ind \<longleftrightarrow> mapMean current < mapMean previous))"
  using max_delta_bounds(2) [of current _ previous] max_delta_attained [of current previous]
    max_delta_commute [of previous current] decay_exponent_swap [of now previous current dt]
    decay_exponent_positive [of current previous dt now]
  by (simp add: Let_def Indicators_spike)

theorem Indicators_characterised_witness:
  "0 < ti_DecayExponent (Indicators 0 [(''a'', 1)] [(''a'', 2)] 5)"
  using Indicators_characterised [of 0 "[(''a'', 1)]" "[(''a'', 2)]" 5]
  by (simp add: Let_def mapMean_eq)

text \<open>
  Phase classification. For a non-negative spike and mean tension the reported intensity lies
  in \<open>[0, 2]\<close> and the healing capacity in \<open>[0, 1]\<close>; the phase is a recovery phase exactly when the
  intensity is below 1 and a phase with intact structure exactly when at least half of the
  edges survive; tension that grows at rate 1 or a spike of 1 is never a recovery, and tension
  that decays at rate at least 0.01 without a spike always is.
\<close>

theorem ClassifyPhase_boundaries:
  assumes "0 \<le> ti_TensionSpike ind" and "0 \<le> mean"
  shows "let r = ClassifyPhase ind mean prev ratio;
             recovery = (pr_Phase r = PhaseFullRecovery \<or> pr_Phase r = PhaseScarredRecovery) in
     0 \<le> pr_Rho r \<and> pr_Rho r \<le> 2 \<and> 0 \<le> pr_Pi r \<and> pr_Pi r \<le> 1 \<and>
     (recovery \<longleftrightarrow> pr_Rho r < 1) \<and>
     (pr_Phase r = PhaseFullRecovery \<or> pr_Phase r = PhaseChronicTension \<longleftrightarrow> 1 / 2 \<le> ratio) \<and>
     (ti_DecayExponent ind \<le> -1 \<or> 1 \<le> ti_TensionSpike ind \<longrightarrow> \<not> recovery) \<and>
     (1 / 100 \<le> ti_DecayExponent ind \<longrightarrow> ti_TensionSpike ind = 0 \<longrightarrow> recovery)"
  using assms by (auto simp: ClassifyPhase_def Let_def)

theorem ClassifyPhase_boundaries_witness:
  "pr_Rho (ClassifyPhase \<lparr>ti_TensionSpike = 3, ti_DecayExponent = 0, ti_CurvatureShock = 0, ti_Timestamp = 0\<rparr> 1 1 1) \<le> 2"
  using ClassifyPhase_boundaries
    [of "\<lparr>ti_TensionSpike = 3, ti_DecayExponent = 0, ti_CurvatureShock = 0, ti_Timestamp = 0\<rparr>" 1 1 1]
  by (simp add: Let_def)

end
