(* ===== verification/Divergence.thy ===== *)
theory Divergence
  imports Prelude
begin

text \<open>
  \<open>analysis/divergence.go\<close>: the divergences between weight distributions and \<open>Normalize\<close>. Slices of
  different lengths make the code index out of range, hence the option results. The locales
  \<open>divergence\<close> and \<open>bounded_divergence\<close> state what the tension calculator may assume of a
  \<open>DivergenceFunc\<close>; the three divergences of the file are interpreted as such. The smoothing
  constant is part of the model: the bounds hold with it, not only in the limit.
\<close>

section \<open>Operations\<close>

definition eps :: real where
  "eps = 1 / 10 ^ 12"

definition klDiv :: "real list \<Rightarrow> real list \<Rightarrow> real option" where
  "klDiv p q = ofold (\<lambda>i sum. do {
     a \<leftarrow> index p i;
     b \<leftarrow> index q i;
     let pi = a + eps; qi = b + eps in
     Some (if pi > eps then sum + pi * log 2 (pi / qi) else sum)
   }) [0..<length p] 0"

definition JSD_Compute :: "real list \<Rightarrow> real list \<Rightarrow> real option" where
  "JSD_Compute p q = do {
     m \<leftarrow> ofold (\<lambda>i m. do { a \<leftarrow> index p i; b \<leftarrow> index q i; Some (m @ [1 / 2 * a + 1 / 2 * b]) }) [0..<length p] [];
     x \<leftarrow> klDiv p m;
     y \<leftarrow> klDiv q m;
     Some (1 / 2 * x + 1 / 2 * y)
   }"

definition KL_Compute :: "real list \<Rightarrow> real list \<Rightarrow> real option" where
  "KL_Compute p q = klDiv p q"

definition Hellinger_Compute :: "real list \<Rightarrow> real list \<Rightarrow> real option" where
  "Hellinger_Compute p q = do {
     sum \<leftarrow> ofold (\<lambda>i sum. do {
       a \<leftarrow> index p i;
       b \<leftarrow> index q i;
       let diff = sqrt a - sqrt b in Some (sum + diff * diff)
     }) [0..<length p] 0;
     Some (sqrt (sum / 2))
   }"

definition NormalizeDist :: "real list \<Rightarrow> real list" where
  "NormalizeDist ds =
     (let total = fold (\<lambda>v t. t + v) ds 0
      in if total = 0 then map (\<lambda>_. 1 / real (length ds)) ds
         else map (\<lambda>v. v / total) ds)"

section \<open>Distributions\<close>

definition is_dist :: "real list \<Rightarrow> bool" where
  "is_dist p \<longleftrightarrow> (\<forall>x \<in> set p. 0 \<le> x) \<and> sum_list p = 1"

lemma is_dist_nth: "is_dist p \<Longrightarrow> i < length p \<Longrightarrow> 0 \<le> p ! i"
  by (simp add: is_dist_def)

lemma is_dist_sum: "is_dist p \<Longrightarrow> (\<Sum>i<length p. p ! i) = 1"
  by (simp add: is_dist_def sum_list_sum_nth atLeast0LessThan)

lemma NormalizeDist_total: "fold (\<lambda>v t. t + v) ds (s :: real) = s + sum_list ds"
  by (induction ds arbitrary: s) auto

lemma NormalizeDist_length [simp]: "length (NormalizeDist ds) = length ds"
  by (simp add: NormalizeDist_def Let_def)

lemma NormalizeDist_is_dist:
  assumes "ds \<noteq> []" and "\<forall>x \<in> set ds. 0 \<le> x"
  shows "is_dist (NormalizeDist ds)"
proof (cases "sum_list ds = 0")
  case True
  with assms(1) show ?thesis
    by (simp add: is_dist_def NormalizeDist_def NormalizeDist_total map_replicate_const sum_list_replicate)
next
  case False
  have "0 \<le> sum_list ds" using assms(2) by (simp add: sum_list_nonneg)
  moreover have "sum_list (map (\<lambda>v. v / c) ds) = sum_list ds / c" for c :: real
    by (induction ds) (simp_all add: add_divide_distrib)
  ultimately show ?thesis
    using assms(2) False by (auto simp: is_dist_def NormalizeDist_def NormalizeDist_total Let_def)
qed

section \<open>Closed forms\<close>

lemma eps_pos [simp]: "0 < eps" "0 \<le> eps"
  by (simp_all add: eps_def)

definition kl_term :: "real \<Rightarrow> real \<Rightarrow> real" where
  "kl_term a b = (if 0 < a then (a + eps) * log 2 ((a + eps) / (b + eps)) else 0)"

lemma klDiv_eq:
  "length p \<le> length q \<Longrightarrow> klDiv p q = Some (\<Sum>i<length p. kl_term (p ! i) (q ! i))"
  unfolding klDiv_def by (subst ofold_sum [where g = "\<lambda>i. kl_term (p ! i) (q ! i)"]) (auto simp: kl_term_def Let_def)

lemma midpoint_loop:
  "n \<le> length p \<Longrightarrow> n \<le> length q \<Longrightarrow>
   ofold (\<lambda>i m. do { a \<leftarrow> index p i; b \<leftarrow> index q i; Some (m @ [1 / 2 * a + 1 / 2 * b]) }) [0..<n] [] =
     Some (map (\<lambda>i. (p ! i + q ! i) / 2) [0..<n] :: real list)"
  by (induction n) (simp_all add: ofold_append add_divide_distrib)

definition jsd_term :: "real \<Rightarrow> real \<Rightarrow> real" where
  "jsd_term a b = (kl_term a ((a + b) / 2) + kl_term b ((a + b) / 2)) / 2"

lemma JSD_eq:
  assumes "length p = length q"
  shows "JSD_Compute p q = Some (\<Sum>i<length p. jsd_term (p ! i) (q ! i))"
proof -
  have "(\<Sum>i<length q. kl_term (q ! i) (map (\<lambda>i. (p ! i + q ! i) / 2) [0..<length p] ! i)) =
      (\<Sum>i<length p. kl_term (q ! i) ((p ! i + q ! i) / 2))"
    "(\<Sum>i<length p. kl_term (p ! i) (map (\<lambda>i. (p ! i + q ! i) / 2) [0..<length p] ! i)) =
      (\<Sum>i<length p. kl_term (p ! i) ((p ! i + q ! i) / 2))"
    using assms by simp_all
  with assms show ?thesis
    unfolding JSD_Compute_def midpoint_loop [OF le_refl eq_imp_le [OF assms]]
    by (simp add: klDiv_eq jsd_term_def sum.distrib sum_divide_distrib add_divide_distrib)
qed

lemma Hellinger_eq:
  assumes "length p \<le> length q"
  shows "Hellinger_Compute p q = Some (sqrt ((\<Sum>i<length p. (sqrt (p ! i) - sqrt (q ! i))\<^sup>2) / 2))"
  unfolding Hellinger_Compute_def using assms
  by (subst ofold_sum [where g = "\<lambda>i. (sqrt (p ! i) - sqrt (q ! i))\<^sup>2"]) (auto simp: power2_eq_square Let_def)

section \<open>Bounds of one coordinate\<close>

lemma log2_ge: "0 < x \<Longrightarrow> (1 - 1 / x) / ln 2 \<le> log 2 x"
  using ln_le_minus_one [of "1 / x"] by (simp add: log_def ln_div divide_right_mono)

lemma log2_gt: "0 < x \<Longrightarrow> x \<noteq> 1 \<Longrightarrow> (1 - 1 / x) / ln 2 < log 2 x"
proof -
  assume x: "0 < x" "x \<noteq> 1"
  have "ln (1 / x) \<noteq> 1 / x - 1" using x ln_eq_minus_one [of "1 / x"] by auto
  with x ln_le_minus_one [of "1 / x"] have "1 - 1 / x < ln x" by (simp add: ln_div)
  then show ?thesis by (simp add: log_def divide_strict_right_mono)
qed

text \<open>\<open>log 2 (1 + x) \<ge> x\<close> on the unit interval, by concavity.\<close>

lemma log2_one_plus:
  assumes "0 \<le> x" and "x \<le> 1"
  shows "x \<le> log 2 (1 + x)"
proof (cases "x = 0 \<or> x = 1")
  case False
  with assms have x: "0 < x" "x < 1" by auto
  let ?g = "\<lambda>x :: real. ln (1 + x) - x * ln 2" and ?g' = "\<lambda>x :: real. 1 / (1 + x) - ln 2"
  have deriv: "(?g has_real_derivative ?g' z) (at z)" if "0 \<le> z" for z
    using that by (auto intro!: derivative_eq_intros)
  obtain z1 where z1: "0 < z1" "z1 < x" "?g x - ?g 0 = (x - 0) * ?g' z1"
    using MVT2 [OF x(1), of ?g ?g'] deriv by auto
  obtain z2 where z2: "x < z2" "z2 < 1" "?g 1 - ?g x = (1 - x) * ?g' z2"
    using MVT2 [OF x(2), of ?g ?g'] deriv x(1) by auto
  have "?g' z2 < ?g' z1" using z1 z2 x by (simp add: divide_strict_left_mono)
  have "0 \<le> ?g x"
  proof (rule ccontr)
    assume "\<not> 0 \<le> ?g x"
    then have "(x - 0) * ?g' z1 < 0" "0 < (1 - x) * ?g' z2" using z1(3) z2(3) by auto
    then have "?g' z1 < 0" "0 < ?g' z2" using x by (auto simp: mult_less_0_iff zero_less_mult_iff)
    with \<open>?g' z2 < ?g' z1\<close> show False by simp
  qed
  then show ?thesis by (simp add: log_def pos_le_divide_eq)
qed auto

text \<open>One direction of a coordinate's divergence is at most the probability it starts from.\<close>

lemma kl_midpoint_le:
  assumes "0 \<le> a" and "0 \<le> b"
  shows "kl_term a ((a + b) / 2) \<le> a"
proof (cases "a = 0")
  case False
  let ?P = "a + eps" and ?Q = "b + eps"
  have pos: "0 < a" "0 < ?P" "0 < ?Q" "eps \<le> ?Q" using assms False by (auto simp: add_nonneg_pos)
  have mid: "(a + b) / 2 + eps = (?P + ?Q) / 2" by simp
  have "log 2 (?P / ((?P + ?Q) / 2)) = 1 - log 2 (1 + ?Q / ?P)"
  proof -
    have "?P / ((?P + ?Q) / 2) = 2 / (1 + ?Q / ?P)" using pos by (simp add: field_simps)
    then show ?thesis using pos by (simp add: log_divide_pos add_pos_pos)
  qed
  moreover have "?P * (1 - log 2 (1 + ?Q / ?P)) \<le> a"
  proof (cases "?Q \<le> ?P")
    case True
    then have "?Q / ?P \<le> log 2 (1 + ?Q / ?P)" using pos by (intro log2_one_plus) (auto simp: divide_simps)
    then have "?P * (1 - log 2 (1 + ?Q / ?P)) \<le> ?P * (1 - ?Q / ?P)" using pos by (intro mult_left_mono) auto
    also have "\<dots> = ?P - ?Q" using pos by (simp add: field_simps)
    finally show ?thesis using pos by simp
  next
    case False
    then have "log 2 2 \<le> log 2 (1 + ?Q / ?P)" using pos by (subst log_le_cancel_iff) (auto simp: divide_simps)
    then have "?P * (1 - log 2 (1 + ?Q / ?P)) \<le> 0" using pos by (intro mult_nonneg_nonpos) auto
    with pos show ?thesis by simp
  qed
  ultimately show ?thesis using pos unfolding kl_term_def mid by simp
qed (simp add: kl_term_def)

lemma jsd_term_le: "0 \<le> a \<Longrightarrow> 0 \<le> b \<Longrightarrow> jsd_term a b \<le> (a + b) / 2"
  using kl_midpoint_le [of a b] kl_midpoint_le [of b a] by (simp add: jsd_term_def add.commute)

lemma kl_term_ge:
  assumes "0 < a" and "0 \<le> b"
  shows "(a - b) / ln 2 \<le> kl_term a b" and "a \<noteq> b \<Longrightarrow> (a - b) / ln 2 < kl_term a b"
proof -
  let ?x = "(a + eps) / (b + eps)"
  have pos: "0 < a + eps" "0 < b + eps" "0 < ?x" using assms by (auto simp: add_nonneg_pos add_pos_pos)
  have "(a + eps) * (1 - 1 / ?x) = a - b" using pos by (simp add: right_diff_distrib)
  then have eq: "(a + eps) * ((1 - 1 / ?x) / ln 2) = (a - b) / ln 2" by (metis times_divide_eq_right)
  show "(a - b) / ln 2 \<le> kl_term a b"
    using mult_left_mono [OF log2_ge [OF pos(3)], of "a + eps"] pos assms unfolding eq by (simp add: kl_term_def)
  assume "a \<noteq> b"
  then have "?x \<noteq> 1" using pos by simp
  from mult_strict_left_mono [OF log2_gt [OF pos(3) this], of "a + eps"] pos assms
  show "(a - b) / ln 2 < kl_term a b" unfolding eq by (simp add: kl_term_def)
qed

lemma jsd_term_pos:
  assumes "0 \<le> a" and "0 \<le> b" and "a \<noteq> b"
  shows "0 < jsd_term a b"
proof -
  let ?m = "(a + b) / 2"
  have m: "0 \<le> ?m" "a \<noteq> ?m" "b \<noteq> ?m" using assms by (auto simp: field_simps)
  consider "0 < a" "0 < b" | "0 < a" "b = 0" | "a = 0" "0 < b" using assms by fastforce
  then have "0 < kl_term a ?m + kl_term b ?m"
  proof cases
    case 1
    with kl_term_ge(2) [OF 1(1) m(1,2)] kl_term_ge(2) [OF 1(2) m(1,3)]
    have "(a - ?m) / ln 2 + (b - ?m) / ln 2 < kl_term a ?m + kl_term b ?m" by simp
    moreover have "(a - ?m) / ln 2 + (b - ?m) / ln 2 = 0" by (simp flip: add_divide_distrib)
    ultimately show ?thesis by simp
  next
    case 2
    have "0 < (a - ?m) / ln 2" using 2 by simp
    with kl_term_ge(1) [OF 2(1) m(1)] have "0 < kl_term a ?m" by linarith
    moreover have "kl_term b ?m = 0" using 2 by (simp add: kl_term_def)
    ultimately show ?thesis by simp
  next
    case 3
    have "0 < (b - ?m) / ln 2" using 3 by simp
    with kl_term_ge(1) [OF 3(2) m(1)] have "0 < kl_term b ?m" by linarith
    moreover have "kl_term a ?m = 0" using 3 by (simp add: kl_term_def)
    ultimately show ?thesis by simp
  qed
  then show ?thesis by (simp add: jsd_term_def)
qed

lemma jsd_term_self [simp]: "0 \<le> a \<Longrightarrow> jsd_term a a = 0"
  by (simp add: jsd_term_def kl_term_def)

lemma jsd_term_nonneg: "0 \<le> a \<Longrightarrow> 0 \<le> b \<Longrightarrow> 0 \<le> jsd_term a b"
  using jsd_term_pos [of a b] by (cases "a = b") auto

lemma jsd_term_commute: "jsd_term a b = jsd_term b a"
  by (simp add: jsd_term_def add.commute)

section \<open>The interface DivergenceFunc\<close>

type_synonym DivergenceFunc = "real list \<Rightarrow> real list \<Rightarrow> real option"

locale divergence =
  fixes compute :: DivergenceFunc
  assumes returns: "is_dist p \<Longrightarrow> is_dist q \<Longrightarrow> length p = length q \<Longrightarrow> \<exists>d. compute p q = Some d \<and> 0 \<le> d"
    and zero_on_equal: "is_dist p \<Longrightarrow> compute p p = Some 0"

locale bounded_divergence = divergence +
  assumes bounded: "is_dist p \<Longrightarrow> is_dist q \<Longrightarrow> length p = length q \<Longrightarrow> compute p q = Some d \<Longrightarrow> d \<le> 1"
begin

lemma unit_interval:
  "is_dist p \<Longrightarrow> is_dist q \<Longrightarrow> length p = length q \<Longrightarrow> \<exists>d. compute p q = Some d \<and> 0 \<le> d \<and> d \<le> 1"
  using returns bounded by blast

end

lemma jsd_sum_bounds:
  assumes "is_dist p" and "is_dist q" and "length p = length q"
  shows "0 \<le> (\<Sum>i<length p. jsd_term (p ! i) (q ! i))" and "(\<Sum>i<length p. jsd_term (p ! i) (q ! i)) \<le> 1"
proof -
  have nonneg: "0 \<le> p ! i" "0 \<le> q ! i" if "i < length p" for i
    using assms that by (auto intro: is_dist_nth)
  then show "0 \<le> (\<Sum>i<length p. jsd_term (p ! i) (q ! i))" by (intro sum_nonneg jsd_term_nonneg) auto
  have "(\<Sum>i<length p. jsd_term (p ! i) (q ! i)) \<le> (\<Sum>i<length p. (p ! i + q ! i) / 2)"
    using nonneg by (intro sum_mono jsd_term_le) auto
  also have "\<dots> = (\<Sum>i<length p. p ! i) / 2 + (\<Sum>i<length q. q ! i) / 2"
    using assms(3) by (simp add: add_divide_distrib sum.distrib sum_divide_distrib)
  finally show "(\<Sum>i<length p. jsd_term (p ! i) (q ! i)) \<le> 1"
    using is_dist_sum [OF assms(1)] is_dist_sum [OF assms(2)] by simp
qed

lemma jsd_sum_zero:
  assumes "is_dist p" and "is_dist q" and "length p = length q"
  shows "(\<Sum>i<length p. jsd_term (p ! i) (q ! i)) = 0 \<longleftrightarrow> p = q"
proof
  have nonneg: "0 \<le> p ! i" "0 \<le> q ! i" if "i < length p" for i
    using assms that by (auto intro: is_dist_nth)
  assume "(\<Sum>i<length p. jsd_term (p ! i) (q ! i)) = 0"
  then have "\<forall>i < length p. jsd_term (p ! i) (q ! i) = 0"
    using nonneg jsd_term_nonneg by (subst (asm) sum_nonneg_eq_0_iff) auto
  then have "\<forall>i < length p. p ! i = q ! i"
    using nonneg jsd_term_pos by (metis less_irrefl)
  with assms(3) show "p = q" by (simp add: nth_equalityI)
next
  assume "p = q"
  with assms(1) show "(\<Sum>i<length p. jsd_term (p ! i) (q ! i)) = 0"
    by (auto intro!: sum.neutral jsd_term_self is_dist_nth)
qed

interpretation jsd: bounded_divergence JSD_Compute
proof (unfold_locales, goal_cases)
  case (1 p q)
  then show ?case using jsd_sum_bounds [of p q] by (simp add: JSD_eq)
next
  case (2 p)
  then show ?case using jsd_sum_zero [of p p] by (simp add: JSD_eq)
next
  case (3 p q d)
  then show ?case using jsd_sum_bounds [of p q] by (simp add: JSD_eq)
qed

lemma kl_sum_nonneg:
  assumes "is_dist p" and "is_dist q" and "length p = length q"
  shows "0 \<le> (\<Sum>i<length p. kl_term (p ! i) (q ! i))"
proof -
  have nonneg: "0 \<le> p ! i" "0 \<le> q ! i" if "i < length p" for i
    using assms that by (auto intro: is_dist_nth)
  have "(p ! i - q ! i) / ln 2 \<le> kl_term (p ! i) (q ! i)" if "i < length p" for i
  proof (cases "p ! i = 0")
    case True
    with nonneg [OF that] show ?thesis by (simp add: kl_term_def)
  next
    case False
    with nonneg [OF that] show ?thesis by (intro kl_term_ge) auto
  qed
  then have "(\<Sum>i<length p. (p ! i - q ! i) / ln 2) \<le> (\<Sum>i<length p. kl_term (p ! i) (q ! i))"
    by (intro sum_mono) auto
  moreover have "(\<Sum>i<length p. (p ! i - q ! i) / ln 2) = ((\<Sum>i<length p. p ! i) - (\<Sum>i<length q. q ! i)) / ln 2"
    using assms(3) by (simp add: sum_subtractf flip: sum_divide_distrib)
  ultimately show ?thesis using is_dist_sum [OF assms(1)] is_dist_sum [OF assms(2)] by simp
qed

interpretation kl: divergence KL_Compute
proof (unfold_locales, goal_cases)
  case (1 p q)
  then show ?case using kl_sum_nonneg [of p q] by (simp add: KL_Compute_def klDiv_eq)
next
  case (2 p)
  then have "(\<Sum>i<length p. kl_term (p ! i) (p ! i)) = 0"
    by (intro sum.neutral) (auto simp: kl_term_def add_pos_pos dest: is_dist_nth)
  then show ?case by (simp add: KL_Compute_def klDiv_eq)
qed

lemma hellinger_sum_le:
  assumes "is_dist p" and "is_dist q" and "length p = length q"
  shows "(\<Sum>i<length p. (sqrt (p ! i) - sqrt (q ! i))\<^sup>2) \<le> 2"
proof -
  have "(sqrt (p ! i) - sqrt (q ! i))\<^sup>2 \<le> p ! i + q ! i" if "i < length p" for i
    using is_dist_nth [OF assms(1) that] is_dist_nth [OF assms(2), of i] that assms(3)
    by (simp add: power2_diff)
  then have "(\<Sum>i<length p. (sqrt (p ! i) - sqrt (q ! i))\<^sup>2) \<le> (\<Sum>i<length p. p ! i + q ! i)"
    by (intro sum_mono) auto
  with is_dist_sum [OF assms(1)] is_dist_sum [OF assms(2)] assms(3) show ?thesis by (simp add: sum.distrib)
qed

interpretation hellinger: bounded_divergence Hellinger_Compute
proof (unfold_locales, goal_cases)
  case (1 p q)
  then show ?case by (simp add: Hellinger_eq sum_nonneg)
next
  case (2 p)
  then show ?case by (simp add: Hellinger_eq)
next
  case (3 p q d)
  then have "d = sqrt ((\<Sum>i<length p. (sqrt (p ! i) - sqrt (q ! i))\<^sup>2) / 2)" by (simp add: Hellinger_eq)
  with hellinger_sum_le [OF 3(1-3)] show ?case by (simp add: real_le_lsqrt)
qed

section \<open>Properties\<close>

text \<open>
  C13. The Jensen-Shannon divergence with its smoothing constant, on distributions of the same
  length: it does not panic, lies in \<open>[0, 1]\<close>, is symmetric, and is zero exactly for equal
  distributions. The Hellinger distance lies in \<open>[0, 1]\<close> too and Kullback-Leibler is not
  negative.
\<close>

theorem divergences_bounded:
  assumes "is_dist p" and "is_dist q" and "length p = length q"
  shows "\<exists>j h k. JSD_Compute p q = Some j \<and> 0 \<le> j \<and> j \<le> 1 \<and> JSD_Compute q p = Some j \<and> (j = 0 \<longleftrightarrow> p = q) \<and>
     Hellinger_Compute p q = Some h \<and> 0 \<le> h \<and> h \<le> 1 \<and> KL_Compute p q = Some k \<and> 0 \<le> k"
  using jsd.unit_interval [OF assms] hellinger.unit_interval [OF assms] kl.returns [OF assms]
    jsd_sum_zero [OF assms] assms(3)
  by (auto simp: JSD_eq jsd_term_commute)

theorem divergences_bounded_witness:
  "\<exists>j. JSD_Compute [1, 0] [1 / 2, 1 / 2] = Some j \<and> 0 \<le> j \<and> j \<le> 1 \<and> j \<noteq> 0"
  using divergences_bounded [of "[1, 0]" "[1 / 2, 1 / 2]"] by (auto simp: is_dist_def)

text \<open>
  \<open>Normalize\<close> turns a non-empty slice of non-negative weights into a distribution: entries keep
  their proportions when some weight is positive and are uniform when all weights are zero.
\<close>

theorem NormalizeDist_distribution:
  assumes "ws \<noteq> []" and "\<forall>w \<in> set ws. 0 \<le> w"
  shows "is_dist (NormalizeDist ws) \<and> length (NormalizeDist ws) = length ws \<and>
     (\<forall>i < length ws. NormalizeDist ws ! i = (if \<forall>w \<in> set ws. w = 0 then 1 / real (length ws) else ws ! i / sum_list ws))"
proof -
  have zero: "(\<forall>w \<in> set ws. w = 0) \<longleftrightarrow> sum_list ws = 0"
    using assms(2) by (simp add: sum_list_nonneg_eq_0_iff)
  show ?thesis
    using NormalizeDist_is_dist [OF assms] unfolding zero by (simp add: NormalizeDist_def NormalizeDist_total Let_def)
qed

theorem NormalizeDist_distribution_witness: "is_dist (NormalizeDist [3, 0, 1])"
  using NormalizeDist_distribution [of "[3, 0, 1]"] by simp

end
