(* ===== verification/Tension.thy ===== *)
theory Tension
  imports Divergence Graph_View
begin

text \<open>
  \<open>analysis/tension.go\<close> and \<open>analysis/parallel.go\<close>: the informational tension of a node, for one
  node, for all nodes, and for all nodes on several goroutines. The divergence is any
  \<open>DivergenceFunc\<close>, the graph any \<open>GraphView\<close>. The parallel version takes the order in which the
  goroutines' stores reach the shared map as an argument; \<open>schedule\<close> says which orders are
  possible.
\<close>

section \<open>One node\<close>

definition edge_weight :: "GraphView \<Rightarrow> string \<Rightarrow> string \<Rightarrow> real" where
  "edge_weight V from to = (case gv_GetEdge V from to of Some e \<Rightarrow> e_Weight e | None \<Rightarrow> 0)"

definition visit_neighbor ::
  "DivergenceFunc \<Rightarrow> GraphView \<Rightarrow> string \<Rightarrow> string \<Rightarrow> real \<times> int \<Rightarrow> (real \<times> int) option" where
  "visit_neighbor compute V nodeID nID = (\<lambda>(totalDiv, n).
     let outNeighbors = gv_OutNeighbors V nID in
     if outNeighbors = [] then Some (totalDiv, n)
     else
       let original = map (\<lambda>target. edge_weight V nID target) outNeighbors;
           perturbedRaw = map (\<lambda>target. if target = nodeID then 0 else edge_weight V nID target) outNeighbors
       in do {
         d \<leftarrow> compute (NormalizeDist original) (NormalizeDist perturbedRaw);
         Some (totalDiv + d, n + 1)
       })"

definition Calculate :: "DivergenceFunc \<Rightarrow> GraphView \<Rightarrow> string \<Rightarrow> real option" where
  "Calculate compute V nodeID = (case gv_GetNode V nodeID of
     None \<Rightarrow> Some 0
   | Some _ \<Rightarrow>
       let neighbors = gv_Neighbors V nodeID in
       if neighbors = [] then Some 0
       else do {
         (totalDiv, n) \<leftarrow> ofold (visit_neighbor compute V nodeID) neighbors (0, 0);
         Some (if n = 0 then 0 else totalDiv / real_of_int n)
       })"

section \<open>All nodes\<close>

definition CalculateAll :: "DivergenceFunc \<Rightarrow> GraphView \<Rightarrow> (string, real) gomap option" where
  "CalculateAll compute V = ofold (\<lambda>n result. do {
     t \<leftarrow> Calculate compute V (n_ID n);
     Some (AList.update (n_ID n) t result)
   }) (gv_nodes V) []"

text \<open>
  The loop \<open>for i := 0; i < len(nodes); i += chunkSize\<close>. A chunk size of zero would never end;
  \<open>partitionNodes\<close> never calls it with one.
\<close>

function partition_loop :: "nat \<Rightarrow> 'a list \<Rightarrow> nat \<Rightarrow> 'a list list" where
  "partition_loop chunkSize nodes i =
     (if i < length nodes \<and> 0 < chunkSize
      then (let e = (if i + chunkSize > length nodes then length nodes else i + chunkSize)
            in take (e - i) (drop i nodes)) # partition_loop chunkSize nodes (i + chunkSize)
      else [])"
  by auto
termination
  by (relation "measure (\<lambda>(c, nodes, i). length nodes - i)") auto

declare partition_loop.simps [simp del]

definition partitionNodes :: "int \<Rightarrow> 'a list \<Rightarrow> int \<Rightarrow> 'a list list" where
  "partitionNodes numCPU nodes workers =
     (let workers = (if workers \<le> 0 then numCPU else workers) in
      if length nodes = 0 then []
      else let chunkSize = (int (length nodes) + workers - 1) div workers
           in partition_loop (nat chunkSize) nodes 0)"

definition CalculateAllParallel ::
  "int \<Rightarrow> string list \<Rightarrow> DivergenceFunc \<Rightarrow> GraphView \<Rightarrow> (string, real) gomap option" where
  "CalculateAllParallel numCPU stores compute V =
     (let nodeIDs = map n_ID (gv_nodes V) in
      if length nodeIDs < 100 then CalculateAll compute V
      else ofold (\<lambda>nid result. do {
             t \<leftarrow> Calculate compute V nid;
             Some (AList.update nid t result)
           }) stores [])"

text \<open>The interleavings of the workers, each of which takes its chunk from the front.\<close>

inductive schedule :: "'a list list \<Rightarrow> 'a list \<Rightarrow> bool" where
  schedule_done: "\<forall>c \<in> set chunks. c = [] \<Longrightarrow> schedule chunks []"
| schedule_step: "i < length chunks \<Longrightarrow> chunks ! i = x # rest \<Longrightarrow> schedule (chunks[i := rest]) order \<Longrightarrow>
    schedule chunks (x # order)"

section \<open>Closed form of the tension\<close>

definition removal_distributions :: "GraphView \<Rightarrow> string \<Rightarrow> string \<Rightarrow> real list \<times> real list" where
  "removal_distributions V nodeID nID =
     (NormalizeDist (map (\<lambda>t. edge_weight V nID t) (gv_OutNeighbors V nID)),
      NormalizeDist (map (\<lambda>t. if t = nodeID then 0 else edge_weight V nID t) (gv_OutNeighbors V nID)))"

definition contributing :: "GraphView \<Rightarrow> string \<Rightarrow> string list" where
  "contributing V nodeID = filter (\<lambda>n. gv_OutNeighbors V n \<noteq> []) (gv_Neighbors V nodeID)"

definition nonneg_weights :: "GraphView \<Rightarrow> bool" where
  "nonneg_weights V \<longleftrightarrow> (\<forall>u v e. gv_GetEdge V u v = Some e \<longrightarrow> 0 \<le> e_Weight e)"

lemma edge_weight_nonneg: "nonneg_weights V \<Longrightarrow> 0 \<le> edge_weight V u v"
  by (auto simp: nonneg_weights_def edge_weight_def split: option.split)

lemma edge_weight_pos: "0 < edge_weight V u v \<Longrightarrow> gv_GetEdge V u v \<noteq> None"
  by (auto simp: edge_weight_def split: option.splits)

lemma removal_is_dist:
  assumes "nonneg_weights V" and "gv_OutNeighbors V n \<noteq> []"
  shows "is_dist (fst (removal_distributions V v n))" and "is_dist (snd (removal_distributions V v n))"
    and "length (fst (removal_distributions V v n)) = length (snd (removal_distributions V v n))"
  using assms by (auto simp: removal_distributions_def edge_weight_nonneg intro!: NormalizeDist_is_dist)

lemma sum_list_map_nonneg: "(\<And>x. x \<in> set xs \<Longrightarrow> 0 \<le> f x) \<Longrightarrow> 0 \<le> (\<Sum>x \<leftarrow> xs. f x :: real)"
  by (rule sum_list_nonneg) auto

context divergence begin

lemma neighbors_loop:
  assumes "nonneg_weights V"
  shows "ofold (visit_neighbor compute V v) ns (s, k) =
    Some (s + (\<Sum>n \<leftarrow> filter (\<lambda>n. gv_OutNeighbors V n \<noteq> []) ns.
                 the (compute (fst (removal_distributions V v n)) (snd (removal_distributions V v n)))),
          k + int (length (filter (\<lambda>n. gv_OutNeighbors V n \<noteq> []) ns)))"
proof (induction ns arbitrary: s k)
  case (Cons n ns)
  show ?case
  proof (cases "gv_OutNeighbors V n = []")
    case True
    with Cons show ?thesis by (simp add: visit_neighbor_def)
  next
    case False
    from returns [OF removal_is_dist [OF assms False]]
    obtain d where "compute (fst (removal_distributions V v n)) (snd (removal_distributions V v n)) = Some d" by blast
    with Cons False show ?thesis by (simp add: visit_neighbor_def removal_distributions_def Let_def)
  qed
qed simp

text \<open>The mean divergence of the contributing neighbours; zero when there is none.\<close>

lemma Calculate_eq:
  assumes "nonneg_weights V"
  shows "Calculate compute V v = Some (if gv_GetNode V v = None \<or> contributing V v = [] then 0
    else (\<Sum>n \<leftarrow> contributing V v.
            the (compute (fst (removal_distributions V v n)) (snd (removal_distributions V v n)))) /
         real (length (contributing V v)))"
  using neighbors_loop [OF assms, of v "gv_Neighbors V v" 0 0]
  by (auto simp: Calculate_def contributing_def Let_def split: option.split)

lemma Calculate_nonneg:
  assumes "nonneg_weights V"
  shows "\<exists>t. Calculate compute V v = Some t \<and> 0 \<le> t"
proof -
  have "0 \<le> the (compute (fst (removal_distributions V v n)) (snd (removal_distributions V v n)))"
    if "n \<in> set (contributing V v)" for n
  proof -
    from that have "gv_OutNeighbors V n \<noteq> []" by (simp add: contributing_def)
    from returns [OF removal_is_dist [OF assms this, where v = v]] show ?thesis by force
  qed
  then show ?thesis by (auto simp: Calculate_eq [OF assms] intro!: divide_nonneg_nonneg sum_list_map_nonneg)
qed

lemma CalculateAll_eq:
  assumes "nonneg_weights V" and "distinct (map n_ID (gv_nodes V))"
  shows "CalculateAll compute V = Some (map (\<lambda>n. (n_ID n, the (Calculate compute V (n_ID n)))) (gv_nodes V))"
proof -
  have "ofold (\<lambda>n result. do { t \<leftarrow> Calculate compute V (n_ID n); Some (AList.update (n_ID n) t result) }) ns m =
      Some (m @ map (\<lambda>n. (n_ID n, the (Calculate compute V (n_ID n)))) ns)"
    if "distinct (map n_ID ns)" "n_ID ` set ns \<inter> fst ` set m = {}" for ns m
    using that
  proof (induction ns arbitrary: m)
    case (Cons n ns)
    obtain t where t: "Calculate compute V (n_ID n) = Some t" using Calculate_nonneg [OF assms(1)] by blast
    from Cons.prems have "AList.update (n_ID n) t m = m @ [(n_ID n, t)]"
      by (intro update_absent) (auto simp: map_of_eq_None_iff)
    with Cons t show ?case by auto
  qed simp
  from this [OF assms(2), of "[]"] show ?thesis by (simp add: CalculateAll_def)
qed

lemma CalculateAll_lookup:
  assumes "nonneg_weights V" and "distinct (map n_ID (gv_nodes V))"
  shows "\<exists>s. CalculateAll compute V = Some s \<and>
    (\<forall>u. map_of s u = (if u \<in> set (map n_ID (gv_nodes V)) then Calculate compute V u else None))"
proof -
  have "map_of (map (\<lambda>n. (n_ID n, the (Calculate compute V (n_ID n)))) ns) u =
      (if u \<in> set (map n_ID ns) then Calculate compute V u else None)" for u and ns :: "NodeData list"
    using Calculate_nonneg [OF assms(1), of u] by (induction ns) auto
  with CalculateAll_eq [OF assms] show ?thesis by blast
qed

lemma stores_loop:
  assumes "nonneg_weights V"
  shows "\<exists>m. ofold (\<lambda>nid result. do { t \<leftarrow> Calculate compute V nid; Some (AList.update nid t result) }) ids m0 = Some m \<and>
    (wf_gomap m0 \<longrightarrow> wf_gomap m) \<and>
    (\<forall>k. map_of m k = (if k \<in> set ids then Calculate compute V k else map_of m0 k))"
proof (induction ids arbitrary: m0)
  case (Cons nid ids)
  obtain t where t: "Calculate compute V nid = Some t" using Calculate_nonneg [OF assms] by blast
  with Cons [of "AList.update nid t m0"] show ?case by auto
qed simp

end

context bounded_divergence begin

lemma Calculate_le_one:
  assumes "nonneg_weights V"
  shows "\<exists>t. Calculate compute V v = Some t \<and> 0 \<le> t \<and> t \<le> 1"
proof -
  obtain t where t: "Calculate compute V v = Some t" "0 \<le> t" using Calculate_nonneg [OF assms] by blast
  have "the (compute (fst (removal_distributions V v n)) (snd (removal_distributions V v n))) \<le> 1"
    if "n \<in> set (contributing V v)" for n
  proof -
    from that have "gv_OutNeighbors V n \<noteq> []" by (simp add: contributing_def)
    from unit_interval [OF removal_is_dist [OF assms this, where v = v]] show ?thesis by force
  qed
  then have "(\<Sum>n \<leftarrow> contributing V v. the (compute (fst (removal_distributions V v n)) (snd (removal_distributions V v n)))) \<le>
      (\<Sum>n \<leftarrow> contributing V v. 1)" by (rule sum_list_mono)
  then have "t \<le> 1"
    using t(1) by (auto simp: Calculate_eq [OF assms] sum_list_triv divide_le_eq split: if_splits)
  with t show ?thesis by blast
qed

end

section \<open>Chunks and schedules\<close>

lemma partition_loop_concat:
  "0 < c \<Longrightarrow> concat (partition_loop c nodes i) = drop i nodes"
proof (induction c nodes i rule: partition_loop.induct)
  case (1 c nodes i)
  show ?case
  proof (cases "i < length nodes")
    case True
    then have "take ((if i + c > length nodes then length nodes else i + c) - i) (drop i nodes) @ drop (i + c) nodes =
        drop i nodes"
      using append_take_drop_id [of c "drop i nodes"] by (auto simp: add.commute)
    with 1 True show ?thesis by (subst partition_loop.simps) (simp add: Let_def)
  next
    case False
    then show ?thesis by (subst partition_loop.simps) simp
  qed
qed

lemma partition_loop_chunks:
  "0 < c \<Longrightarrow> \<forall>chunk \<in> set (partition_loop c nodes i). chunk \<noteq> [] \<and> length chunk \<le> c"
proof (induction c nodes i rule: partition_loop.induct)
  case (1 c nodes i)
  then show ?case by (subst partition_loop.simps) (auto simp: Let_def)
qed

lemma partition_loop_length:
  "0 < c \<Longrightarrow> length (partition_loop c nodes i) = (length nodes - i + c - 1) div c"
proof (induction c nodes i rule: partition_loop.induct)
  case (1 c nodes i)
  show ?case
  proof (cases "i < length nodes")
    case True
    have "Suc ((length nodes - (i + c) + c - 1) div c) = (length nodes - i + c - 1) div c"
    proof (cases "length nodes \<le> i + c")
      case True
      with \<open>i < length nodes\<close> 1(2) have "(length nodes - i + c - 1) div c = 1"
        by (intro div_nat_eqI) auto
      with True 1(2) show ?thesis by simp
    next
      case False
      then have "length nodes - i + c - 1 = (length nodes - (i + c) + c - 1) + c" by simp
      then have "(length nodes - i + c - 1) div c = ((length nodes - (i + c) + c - 1) + c) div c" by (rule arg_cong)
      also have "\<dots> = Suc ((length nodes - (i + c) + c - 1) div c)" using 1(2) by (subst div_add_self2) auto
      finally show ?thesis by (rule sym)
    qed
    with 1 True show ?thesis by (subst partition_loop.simps) (simp add: Let_def)
  next
    case False
    with 1(2) show ?thesis by (subst partition_loop.simps) simp
  qed
qed

lemma partitionNodes_correct:
  assumes "0 < numCPU"
  shows "concat (partitionNodes numCPU nodes workers) = nodes \<and> [] \<notin> set (partitionNodes numCPU nodes workers) \<and>
    int (length (partitionNodes numCPU nodes workers)) \<le> (if workers \<le> 0 then numCPU else workers)"
proof (cases "nodes = []")
  case True
  with assms show ?thesis by (simp add: partitionNodes_def Let_def)
next
  case False
  let ?w = "if workers \<le> 0 then numCPU else workers" and ?n = "length nodes"
  obtain w where w: "?w = int w" "0 < w" using assms by (metis not_le pos_int_cases)
  let ?c = "(?n + w - 1) div w"
  have "(int ?n + ?w - 1) div ?w = int ?c"
    using w by (simp add: zdiv_int of_nat_diff)
  with False have def: "partitionNodes numCPU nodes workers = partition_loop ?c nodes 0"
    by (simp add: partitionNodes_def Let_def)
  have absorbed: "(c * w + (c - 1)) div c = w" if "0 < c" for c :: nat
    using that by (intro div_nat_eqI) auto
  have "w \<le> ?n + w - 1" using False by (cases nodes) auto
  then have c: "0 < ?c" using w by (simp add: div_greater_zero_iff)
  have "?n + w - 1 < (?c + 1) * w" using w by (metis add.commute dividend_less_div_times mult.commute mult_Suc_right Suc_eq_plus1)
  then have "?n \<le> ?c * w" by simp
  then have "(?n + ?c - 1) div ?c \<le> (?c * w + (?c - 1)) div ?c" using c by (intro div_le_mono) simp
  also have "\<dots> = w" by (rule absorbed [OF c])
  finally have "length (partition_loop ?c nodes 0) \<le> w" using c by (simp add: partition_loop_length)
  then show ?thesis
    using partition_loop_concat [OF c, of nodes 0] partition_loop_chunks [OF c, of nodes 0] w
    unfolding def w(1) by auto
qed

lemma schedule_mset: "schedule chunks order \<Longrightarrow> mset order = mset (concat chunks)"
proof (induction rule: schedule.induct)
  case (schedule_step i chunks x rest order)
  have "mset (concat (chunks[i := rest])) + mset (chunks ! i) = mset (concat chunks) + mset rest"
    using schedule_step(1)
  proof (induction chunks arbitrary: i)
    case (Cons c chunks)
    then show ?case by (cases i) (auto simp: union_assoc union_commute union_lcomm)
  qed simp
  with schedule_step(2,4) show ?case by simp
qed auto

lemma schedule_concat: "schedule chunks (concat chunks)"
proof -
  have "schedule (replicate n [] @ chunks) (concat chunks)" for n and chunks :: "'a list list"
  proof (induction chunks arbitrary: n)
    case Nil
    then show ?case by (simp add: schedule_done)
  next
    case (Cons c chunks)
    show ?case
    proof (induction c)
      case Nil
      from Cons [of "Suc n"] show ?case by (simp add: replicate_app_Cons_same)
    next
      case (Cons x c)
      then have "schedule ((replicate n [] @ (x # c) # chunks)[n := c]) (concat (c # chunks))"
        by (simp add: list_update_append)
      from schedule_step [OF _ _ this, of x] show ?case by (simp add: nth_append)
    qed
  qed
  from this [of 0] show ?thesis by simp
qed

section \<open>When a node has tension\<close>

lemma sum_list_pos_iff:
  fixes f :: "'a \<Rightarrow> real"
  assumes "\<And>x. x \<in> set xs \<Longrightarrow> 0 \<le> f x"
  shows "0 < (\<Sum>x \<leftarrow> xs. f x) \<longleftrightarrow> (\<exists>x \<in> set xs. 0 < f x)"
  using assms
proof (induction xs)
  case (Cons x xs)
  then have "0 \<le> f x" "0 \<le> (\<Sum>x \<leftarrow> xs. f x)" by (simp_all add: sum_list_map_nonneg)
  with Cons show ?case by fastforce
qed simp

lemma NormalizeDist_singleton: "NormalizeDist [a] = [1]"
  by (simp add: NormalizeDist_def Let_def)

lemma removal_changes:
  assumes nn: "nonneg_weights V" and law: "v \<in> set (gv_OutNeighbors V n) \<longleftrightarrow> gv_GetEdge V n v \<noteq> None"
    and ne: "gv_OutNeighbors V n \<noteq> []" and dist: "distinct (gv_OutNeighbors V n)"
  shows "fst (removal_distributions V v n) \<noteq> snd (removal_distributions V v n) \<longleftrightarrow>
    0 < edge_weight V n v \<and> 2 \<le> length (gv_OutNeighbors V n)"
proof -
  let ?L = "gv_OutNeighbors V n" and ?w = "edge_weight V n"
  let ?ws = "map ?w ?L" and ?ws' = "map (\<lambda>t. if t = v then 0 else ?w t) ?L"
  have pos: "0 \<le> ?w t" for t using edge_weight_nonneg [OF nn] .
  show ?thesis
  proof (cases "0 < ?w v \<and> 2 \<le> length ?L")
    case False
    then consider "?w v = 0" | "length ?L = 1" using pos [of v] ne by (cases ?L) (auto simp: not_less_eq_eq less_Suc_eq)
    then have "NormalizeDist ?ws = NormalizeDist ?ws'"
    proof cases
      case 1
      then have "?ws = ?ws'" by auto
      then show ?thesis by (rule arg_cong)
    next
      case 2
      then obtain x where "?L = [x]" by (cases ?L) auto
      then show ?thesis by (simp add: NormalizeDist_singleton)
    qed
    with False show ?thesis by (simp add: removal_distributions_def)
  next
    case True
    then have "gv_GetEdge V n v \<noteq> None" using edge_weight_pos by blast
    then obtain i where i: "i < length ?L" "?L ! i = v" using law by (auto simp: in_set_conv_nth)
    have total: "sum_list ?ws = (\<Sum>t \<in> set ?L. ?w t)" by (rule sum_list_distinct_conv_sum_set [OF dist])
    have mem: "v \<in> set ?L" using i by (metis nth_mem)
    then have ge: "?w v \<le> sum_list ?ws" unfolding total using pos by (intro member_le_sum) auto
    with True have tpos: "0 < sum_list ?ws" by linarith
    have at: "NormalizeDist ?ws ! i = ?w v / sum_list ?ws"
      using tpos i by (simp add: NormalizeDist_def NormalizeDist_total Let_def)
    have "NormalizeDist ?ws ! i \<noteq> NormalizeDist ?ws' ! i"
    proof (cases "sum_list ?ws' = 0")
      case zero: True
      have "\<forall>x \<in> set ?ws'. x = 0"
        using zero pos by (subst (asm) sum_list_nonneg_eq_0_iff) auto
      then have "\<forall>t \<in> set ?L. t \<noteq> v \<longrightarrow> ?w t = 0" by auto
      then have "sum_list ?ws = ?w v"
        unfolding total using mem by (subst sum.remove [OF _ mem]) auto
      moreover have "NormalizeDist ?ws' ! i = 1 / real (length ?L)"
        using zero i by (simp add: NormalizeDist_def NormalizeDist_total Let_def)
      ultimately show ?thesis using at True by auto
    next
      case False
      then have "NormalizeDist ?ws' ! i = 0"
        using i by (simp add: NormalizeDist_def NormalizeDist_total Let_def)
      with at True tpos show ?thesis by simp
    qed
    then show ?thesis using True by (auto simp: removal_distributions_def)
  qed
qed

context graph_view begin

lemma tension_pos_iff:
  assumes "invar g" and nn: "nonneg_weights (view g)" and v: "gv_GetNode (view g) v \<noteq> None"
  shows "\<exists>t. Calculate JSD_Compute (view g) v = Some t \<and>
    (0 < t \<longleftrightarrow> (\<exists>n. 0 < edge_weight (view g) n v \<and> 2 \<le> length (gv_OutNeighbors (view g) n)))"
proof -
  let ?V = "view g"
  let ?d = "\<lambda>n. the (JSD_Compute (fst (removal_distributions ?V v n)) (snd (removal_distributions ?V v n)))"
  have d: "0 \<le> ?d n \<and> (0 < ?d n \<longleftrightarrow> 0 < edge_weight ?V n v \<and> 2 \<le> length (gv_OutNeighbors ?V n))"
    if "n \<in> set (contributing ?V v)" for n
  proof -
    from that have ne: "gv_OutNeighbors ?V n \<noteq> []" by (simp add: contributing_def)
    note rd = removal_is_dist [OF nn ne, of v]
    have "?d n = 0 \<longleftrightarrow> fst (removal_distributions ?V v n) = snd (removal_distributions ?V v n)" "0 \<le> ?d n"
      using jsd_sum_zero [OF rd] jsd_sum_bounds(1) [OF rd] by (simp_all add: JSD_eq rd(3))
    moreover have "v \<in> set (gv_OutNeighbors ?V n) \<longleftrightarrow> gv_GetEdge ?V n v \<noteq> None" "distinct (gv_OutNeighbors ?V n)"
      using OutNeighbors_law [OF assms(1), of n] by auto
    ultimately show ?thesis using removal_changes [OF nn _ ne, of v] by auto
  qed
  have contributes: "n \<in> set (contributing ?V v)" if "0 < edge_weight ?V n v" "2 \<le> length (gv_OutNeighbors ?V n)" for n
    using that InNeighbors_law [OF assms(1), of v] Neighbors_law [OF assms(1), of v]
    by (auto simp: contributing_def edge_weight_def split: option.splits)
  let ?c = "contributing ?V v"
  have t: "Calculate JSD_Compute ?V v = Some (if ?c = [] then 0 else (\<Sum>n \<leftarrow> ?c. ?d n) / real (length ?c))"
    using v by (simp add: jsd.Calculate_eq [OF nn] del: not_None_eq)
  have "0 < (if ?c = [] then 0 else (\<Sum>n \<leftarrow> ?c. ?d n) / real (length ?c)) \<longleftrightarrow> (\<exists>n \<in> set ?c. 0 < ?d n)"
    using sum_list_pos_iff [of ?c ?d] d by (auto simp: zero_less_divide_iff)
  also have "\<dots> \<longleftrightarrow> (\<exists>n. 0 < edge_weight ?V n v \<and> 2 \<le> length (gv_OutNeighbors ?V n))"
    using d contributes by blast
  finally show ?thesis unfolding t by blast
qed

end

section \<open>Properties\<close>

text \<open>
  C14. Tension of a node of the unified view, weights not negative. With a divergence of the
  package the calculation does not panic and is not negative; for the Jensen-Shannon and
  Hellinger divergences it is at most 1; and with Jensen-Shannon it is positive exactly when
  some neighbour has an edge of positive weight to the node and at least one other
  out-neighbour. In particular a node that every neighbour points to exclusively has none.
\<close>

theorem tension_bounds:
  assumes "uv_ok v" and "nonneg_weights (unified_view v)" and "UV_GetNode u v \<noteq> None"
  shows "(\<exists>t. Calculate JSD_Compute (unified_view v) u = Some t \<and> 0 \<le> t \<and> t \<le> 1 \<and>
        (0 < t \<longleftrightarrow> (\<exists>n. 0 < edge_weight (unified_view v) n u \<and> 2 \<le> length (UV_OutNeighbors n v)))) \<and>
     (\<exists>t. Calculate Hellinger_Compute (unified_view v) u = Some t \<and> 0 \<le> t \<and> t \<le> 1) \<and>
     (\<exists>t. Calculate KL_Compute (unified_view v) u = Some t \<and> 0 \<le> t)"
  using uv_view.tension_pos_iff [OF assms(1,2), of u] assms(3) jsd.Calculate_le_one [OF assms(2), of u]
    hellinger.Calculate_le_one [OF assms(2), of u] kl.Calculate_nonneg [OF assms(2), of u]
  by auto

lemma sample_view_nonneg: "nonneg_weights (unified_view sample_view)"
proof -
  have "\<forall>e \<in> set (gv_edges (unified_view sample_view)). 0 \<le> e_Weight e" by code_simp
  then show ?thesis
    using uv_view.GetEdge_iff [OF sample_view_ok] by (auto simp: nonneg_weights_def)
qed

lemma sample_view_node: "UV_GetNode ''a'' sample_view \<noteq> None"
  by code_simp

theorem tension_bounds_witness:
  "\<exists>t. Calculate JSD_Compute (unified_view sample_view) ''a'' = Some t \<and> 0 \<le> t \<and> t \<le> 1"
  using tension_bounds [OF sample_view_ok sample_view_nonneg, of "''a''"] sample_view_node by auto



end
