(* ===== verification/Detectability.thy ===== *)
theory Detectability
  imports Types
begin

text \<open>
  \<open>analysis/yharim.go\<close> and \<open>analysis/detectability.go\<close>: the signal-to-noise ratio of a list of
  tensions, the Yharim limit for a false positive rate, the three regions of detectability, and
  the concealment probability score. Infinite results are \<open>PosInf\<close> and compare as IEEE
  infinities do. The lemmas remove the square roots: a comparison of the ratio with a multiple
  of the limit is one of \<open>n * mean\<^sup>2\<close> with a multiple of the variance.
\<close>

section \<open>The limit and the ratio\<close>

definition YharimLimit :: "real \<Rightarrow> xreal" where
  "YharimLimit alpha =
     (if alpha \<le> 0 then PosInf
      else if alpha \<ge> 1 then Fin 0
      else Fin (sqrt (2 * ln (1 / alpha))))"

definition SNR :: "real list \<Rightarrow> xreal" where
  "SNR tensions =
     (let n = length tensions in
      if n = 0 then Fin 0
      else let mean = fold (\<lambda>v sum. sum + v) tensions 0 / real n in
        if mean = 0 then Fin 0
        else let variance = fold (\<lambda>v acc. acc + (v - mean) * (v - mean)) tensions 0 / real n;
                 stddev = sqrt variance
             in if stddev = 0 then PosInf else Fin (mean / stddev * sqrt (real n)))"

definition IsDetectable :: "real list \<Rightarrow> real \<Rightarrow> bool" where
  "IsDetectable tensions alpha \<longleftrightarrow> SNR tensions > YharimLimit alpha"

section \<open>Regions\<close>

datatype DetectabilityRegion = Undetectable | WeaklyDetectable | StronglyDetectable

definition DetectabilityRegion_String :: "DetectabilityRegion \<Rightarrow> string" where
  "DetectabilityRegion_String r = (case r of Undetectable \<Rightarrow> ''Undetectable''
     | WeaklyDetectable \<Rightarrow> ''WeaklyDetectable'' | StronglyDetectable \<Rightarrow> ''StronglyDetectable'')"

text \<open>The constants are \<open>iota\<close> values; the public result carries the number.\<close>

definition region_int :: "DetectabilityRegion \<Rightarrow> int" where
  "region_int r = (case r of Undetectable \<Rightarrow> 0 | WeaklyDetectable \<Rightarrow> 1 | StronglyDetectable \<Rightarrow> 2)"

record DetectabilityAnalysis =
  da_SNR :: xreal
  da_Threshold :: xreal
  da_Region :: DetectabilityRegion
  da_Alpha :: real

definition xtwice :: "xreal \<Rightarrow> xreal" where
  "xtwice x = (case x of Fin r \<Rightarrow> Fin (2 * r) | PosInf \<Rightarrow> PosInf)"

definition Classify :: "real list \<Rightarrow> real \<Rightarrow> DetectabilityRegion" where
  "Classify tensions alpha =
     (if length tensions = 0 then Undetectable
      else let snr = SNR tensions; limit = YharimLimit alpha in
        if snr > xtwice limit then StronglyDetectable
        else if snr > limit then WeaklyDetectable
        else Undetectable)"

definition Detectability :: "real list \<Rightarrow> real \<Rightarrow> DetectabilityAnalysis" where
  "Detectability tensions alpha =
     (let snr = (if length tensions > 0 then SNR tensions else Fin 0)
      in \<lparr>da_SNR = snr, da_Threshold = YharimLimit alpha, da_Region = Classify tensions alpha,
          da_Alpha = alpha\<rparr>)"

definition CPS :: "real list \<Rightarrow> real \<Rightarrow> real \<Rightarrow> real" where
  "CPS tensions concealmentCost alpha =
     (if \<not> IsDetectable tensions alpha then 0
      else if length tensions = 0 \<or> concealmentCost \<le> 0 then 0
      else let meanT = fold (\<lambda>t sum. sum + t) tensions 0 / real (length tensions) in
        if meanT \<le> 0 then 0
        else let ratio = concealmentCost / meanT in 2 / (1 + exp (- ratio)) - 1)"

section \<open>Without square roots\<close>

definition mean_of :: "real list \<Rightarrow> real" where
  "mean_of xs = sum_list xs / real (length xs)"

definition variance_of :: "real list \<Rightarrow> real" where
  "variance_of xs = (\<Sum>x \<leftarrow> xs. (x - mean_of xs)\<^sup>2) / real (length xs)"

lemma variance_nonneg: "0 \<le> variance_of xs"
  unfolding variance_of_def by (intro divide_nonneg_nonneg sum_list_nonneg) auto

lemma SNR_eq: "SNR xs =
    (if xs = [] \<or> mean_of xs = 0 then Fin 0
     else if variance_of xs = 0 then PosInf
     else Fin (mean_of xs / sqrt (variance_of xs) * sqrt (real (length xs))))"
  by (simp add: SNR_def Let_def loop_simps mean_of_def variance_of_def power2_eq_square)

lemma limit_nonneg: "\<exists>l \<ge> 0. YharimLimit alpha = Fin l \<or> YharimLimit alpha = PosInf"
proof (cases "0 < alpha \<and> alpha < 1")
  case True
  then show ?thesis by (auto simp: YharimLimit_def)
qed (auto simp: YharimLimit_def)

text \<open>A positive ratio exceeds \<open>c\<close> times the limit exactly when the squares do.\<close>

lemma ratio_exceeds:
  fixes m v n L c :: real
  assumes "0 < m" and "0 < v" and "0 < n" and "0 \<le> L" and "0 < c"
  shows "c * sqrt L < m / sqrt v * sqrt n \<longleftrightarrow> c\<^sup>2 * L * v < n * m\<^sup>2"
proof -
  have "c * sqrt L < m / sqrt v * sqrt n \<longleftrightarrow> c * sqrt L * sqrt v < m * sqrt n"
    using assms by (simp add: field_simps)
  also have "\<dots> \<longleftrightarrow> (c * sqrt L * sqrt v)\<^sup>2 < (m * sqrt n)\<^sup>2"
    using assms by (simp add: power_mono_iff abs_le_square_iff [symmetric] linorder_not_le [symmetric])
  also have "\<dots> \<longleftrightarrow> c\<^sup>2 * L * v < n * m\<^sup>2"
    using assms by (simp add: power_mult_distrib mult.commute)
  finally show ?thesis .
qed

lemma SNR_exceeds:
  assumes "xs \<noteq> []" and "0 < mean_of xs" and "0 < alpha" and "alpha < 1" and "0 < c"
  shows "Fin (c * sqrt (2 * ln (1 / alpha))) < SNR xs \<longleftrightarrow>
    c\<^sup>2 * (2 * ln (1 / alpha)) * variance_of xs < real (length xs) * (mean_of xs)\<^sup>2"
proof (cases "variance_of xs = 0")
  case True
  with assms show ?thesis by (simp add: SNR_eq less_xreal_def)
next
  case False
  then have "0 < variance_of xs" using variance_nonneg [of xs] by simp
  moreover have "0 \<le> 2 * ln (1 / alpha)" using assms by simp
  moreover have "0 < real (length xs)" using assms by simp
  ultimately show ?thesis
    using assms ratio_exceeds [of "mean_of xs" "variance_of xs" "real (length xs)" "2 * ln (1 / alpha)" c]
    by (simp add: SNR_eq less_xreal_def)
qed

lemma mean_scale: "mean_of (map ((*) c) xs) = c * mean_of xs"
  by (simp add: mean_of_def sum_list_const_mult)

lemma variance_scale: "variance_of (map ((*) c) xs) = c\<^sup>2 * variance_of xs"
proof -
  have "(\<Sum>x \<leftarrow> xs. (c * x - c * mean_of xs)\<^sup>2) = (\<Sum>x \<leftarrow> xs. c\<^sup>2 * (x - mean_of xs)\<^sup>2)"
    by (simp add: right_diff_distrib [symmetric] power_mult_distrib)
  also have "\<dots> = c\<^sup>2 * (\<Sum>x \<leftarrow> xs. (x - mean_of xs)\<^sup>2)" by (rule sum_list_const_mult)
  finally show ?thesis by (simp add: variance_of_def mean_scale comp_def)
qed

lemma SNR_scale:
  assumes "0 < c"
  shows "SNR (map ((*) c) xs) = SNR xs"
  using assms by (simp add: SNR_eq mean_scale variance_scale real_sqrt_mult)

section \<open>The score\<close>

lemma detectable_mean:
  assumes "IsDetectable xs alpha"
  shows "xs \<noteq> [] \<and> mean_of xs \<noteq> 0"
  using assms limit_nonneg [of alpha] by (auto simp: IsDetectable_def SNR_eq less_xreal_def)

lemma mean_nonneg: "\<forall>t \<in> set xs. 0 \<le> t \<Longrightarrow> 0 \<le> mean_of xs"
  by (auto simp: mean_of_def intro!: divide_nonneg_nonneg sum_list_nonneg)

lemma sigmoid_range:
  fixes r :: real
  assumes "0 < r"
  shows "0 < 2 / (1 + exp (- r)) - 1" and "2 / (1 + exp (- r)) - 1 < 1"
proof -
  have "exp (- r) < 1" "0 < exp (- r)" using assms by auto
  then show "0 < 2 / (1 + exp (- r)) - 1" "2 / (1 + exp (- r)) - 1 < 1"
    by (simp_all add: field_simps add_pos_pos)
qed

lemma CPS_eq:
  assumes "\<forall>t \<in> set xs. 0 \<le> t"
  shows "CPS xs w alpha =
    (if IsDetectable xs alpha \<and> 0 < w then 2 / (1 + exp (- (w / mean_of xs))) - 1 else 0)"
proof (cases "IsDetectable xs alpha")
  case True
  with detectable_mean [OF True] mean_nonneg [OF assms] show ?thesis
    by (auto simp: CPS_def Let_def loop_simps mean_of_def)
qed (simp add: CPS_def)

section \<open>Properties\<close>

text \<open>
  C16. For tensions with a positive mean and a false positive rate in (0, 1): the region is
  strong exactly when \<open>8 ln(1/alpha) * variance < n * mean\<^sup>2\<close>, and not undetectable exactly when
  \<open>2 ln(1/alpha) * variance < n * mean\<^sup>2\<close>, which is also what \<open>IsDetectable\<close> decides (so identical
  tensions are always strongly detectable); and rescaling all tensions changes neither the
  region nor the result.
\<close>

theorem detectability_characterised:
  assumes "xs \<noteq> []" and "0 < mean_of xs" and "0 < alpha" and "alpha < 1" and "0 < c"
  shows "(Classify xs alpha = StronglyDetectable \<longleftrightarrow>
       8 * ln (1 / alpha) * variance_of xs < real (length xs) * (mean_of xs)\<^sup>2) \<and>
     (Classify xs alpha \<noteq> Undetectable \<longleftrightarrow>
       2 * ln (1 / alpha) * variance_of xs < real (length xs) * (mean_of xs)\<^sup>2) \<and>
     (IsDetectable xs alpha \<longleftrightarrow> Classify xs alpha \<noteq> Undetectable) \<and>
     da_Region (Detectability xs alpha) = Classify xs alpha \<and>
     Detectability (map ((*) c) xs) alpha = Detectability xs alpha"
proof -
  let ?l = "sqrt (2 * ln (1 / alpha))"
  have lim: "YharimLimit alpha = Fin ?l" using assms by (simp add: YharimLimit_def)
  have l: "0 \<le> ?l" using assms by simp
  have "Fin ?l \<le> Fin (2 * ?l)" using l unfolding less_eq_xreal_def xreal.case by linarith
  then have mono: "Fin ?l < SNR xs" if "Fin (2 * ?l) < SNR xs"
    using that by (rule le_less_trans)
  have strong: "Fin (2 * ?l) < SNR xs \<longleftrightarrow> 8 * ln (1 / alpha) * variance_of xs < real (length xs) * (mean_of xs)\<^sup>2"
    using SNR_exceeds [OF assms(1-4), of 2] by simp
  have weak: "Fin ?l < SNR xs \<longleftrightarrow> 2 * ln (1 / alpha) * variance_of xs < real (length xs) * (mean_of xs)\<^sup>2"
    using SNR_exceeds [OF assms(1-4), of 1] by simp
  have c: "Classify xs alpha = (if Fin (2 * ?l) < SNR xs then StronglyDetectable
      else if Fin ?l < SNR xs then WeaklyDetectable else Undetectable)"
    using assms(1) by (simp add: Classify_def lim xtwice_def Let_def)
  have scaled: "Detectability (map ((*) c) xs) alpha = Detectability xs alpha"
    using assms(5) by (simp add: Detectability_def Classify_def SNR_scale)
  show ?thesis
    unfolding c IsDetectable_def lim strong [symmetric] weak [symmetric] scaled
    using mono by (simp add: Detectability_def c)
qed

theorem detectability_characterised_witness:
  "Classify [1, 1] (1 / 2) = StronglyDetectable \<and> IsDetectable [1, 1] (1 / 2)"
  using detectability_characterised [of "[1, 1]" "1 / 2" 3] by (simp add: mean_of_def variance_of_def)

text \<open>
  C17. The concealment probability score of non-negative tensions lies in [0, 1); it is positive
  exactly when the tensions are detectable and the concealment cost is positive; and it does
  not decrease when the cost grows, strictly increasing on detectable tensions.
\<close>

theorem CPS_score:
  assumes "\<forall>t \<in> set xs. 0 \<le> t" and "w < w'"
  shows "0 \<le> CPS xs w alpha \<and> CPS xs w alpha < 1 \<and>
     (0 < CPS xs w alpha \<longleftrightarrow> IsDetectable xs alpha \<and> 0 < w) \<and>
     CPS xs w alpha \<le> CPS xs w' alpha \<and>
     (IsDetectable xs alpha \<and> 0 < w' \<longleftrightarrow> CPS xs w alpha < CPS xs w' alpha)"
proof (cases "IsDetectable xs alpha")
  case False
  then show ?thesis by (simp add: CPS_eq [OF assms(1)])
next
  case True
  then have m: "0 < mean_of xs" using detectable_mean [OF True] mean_nonneg [OF assms(1)] by simp
  have "2 / (1 + exp (- (w / mean_of xs))) < 2 / (1 + exp (- (w' / mean_of xs)))"
    using assms(2) m by (intro divide_strict_left_mono mult_pos_pos add_pos_pos) (simp_all add: divide_strict_right_mono)
  then show ?thesis
    using True m assms(2) sigmoid_range [of "w / mean_of xs"] sigmoid_range [of "w' / mean_of xs"]
    by (auto simp: CPS_eq [OF assms(1)])
qed

theorem CPS_score_witness:
  "0 < CPS [1, 1] 1 (1 / 2) \<and> CPS [1, 1] 1 (1 / 2) < 1"
proof -
  have "IsDetectable [1, 1] (1 / 2)"
    by (simp add: IsDetectable_def SNR_eq YharimLimit_def mean_of_def variance_of_def less_xreal_def)
  then show ?thesis using CPS_score [of "[1, 1]" 1 2 "1 / 2"] by simp
qed

end
