(* ===== verification/Calibrator.thy ===== *)
theory Calibrator
  imports Types
begin

text \<open>
  \<open>analysis/calibrator.go\<close>: the anomaly threshold \<open>median + k * MAD\<close> learned from the first
  observations. The options are functions on the struct, applied in the order they are given.
  The mutex makes each method one step. The locale \<open>calibrator\<close> is the interface of
  \<open>callbacks.go\<close> the engine and the snapshots use, with what they rely on.
\<close>

section \<open>The calibrator\<close>

record MADCalibrator =
  c_observations :: "real list"
  c_k :: real
  c_warmupSize :: int
  c_warmedUp :: bool
  c_median :: real
  c_mad :: real
  c_threshold :: real
  c_lastRecal :: time

record CalibratorStats =
  st_SamplesObserved :: nat
  st_Median :: real
  st_MAD :: real
  st_Threshold :: real
  st_K :: real
  st_IsWarmedUp :: bool
  st_LastRecalibration :: time

type_synonym CalibratorOption = "MADCalibrator \<Rightarrow> MADCalibrator"

definition WithK :: "real \<Rightarrow> CalibratorOption" where
  "WithK k = (\<lambda>c. c\<lparr>c_k := k\<rparr>)"

definition WithWarmupSize :: "int \<Rightarrow> CalibratorOption" where
  "WithWarmupSize n = (\<lambda>c. c\<lparr>c_warmupSize := n\<rparr>)"

definition WithPrecomputedBaseline :: "time \<Rightarrow> real \<Rightarrow> real \<Rightarrow> CalibratorOption" where
  "WithPrecomputedBaseline now median mad = (\<lambda>c. c\<lparr>c_median := median, c_mad := mad,
     c_threshold := median + c_k c * mad, c_warmedUp := True, c_lastRecal := now\<rparr>)"

definition NewCalibrator :: "CalibratorOption list \<Rightarrow> MADCalibrator" where
  "NewCalibrator opts = fold (\<lambda>opt c. opt c) opts
     \<lparr>c_observations = [], c_k = 3, c_warmupSize = 1000, c_warmedUp = False, c_median = 0, c_mad = 0,
      c_threshold = 0, c_lastRecal = 0\<rparr>"

definition computeMedian :: "real list \<Rightarrow> real" where
  "computeMedian data =
     (if length data = 0 then 0
      else let sorted = sort data; n = length sorted
           in if n mod 2 = 0 then (sorted ! (n div 2 - 1) + sorted ! (n div 2)) / 2
              else sorted ! (n div 2))"

definition recalibrate :: "time \<Rightarrow> MADCalibrator \<Rightarrow> MADCalibrator" where
  "recalibrate now c =
     (let median = computeMedian (c_observations c);
          deviations = map (\<lambda>v. \<bar>v - median\<bar>) (c_observations c);
          mad = computeMedian deviations
      in c\<lparr>c_median := median, c_mad := mad, c_threshold := median + c_k c * mad,
           c_warmedUp := True, c_lastRecal := now\<rparr>)"

definition Observe :: "time \<Rightarrow> real \<Rightarrow> MADCalibrator \<Rightarrow> MADCalibrator" where
  "Observe now tension c =
     (let c1 = c\<lparr>c_observations := c_observations c @ [tension]\<rparr>
      in if \<not> c_warmedUp c1 \<and> int (length (c_observations c1)) \<ge> c_warmupSize c1
         then recalibrate now c1 else c1)"

definition IsWarmedUp :: "MADCalibrator \<Rightarrow> bool" where
  "IsWarmedUp c = c_warmedUp c"

definition Threshold :: "MADCalibrator \<Rightarrow> real" where
  "Threshold c = c_threshold c"

definition IsAnomaly :: "real \<Rightarrow> MADCalibrator \<Rightarrow> bool" where
  "IsAnomaly tension c = (if \<not> c_warmedUp c then False else tension > c_threshold c)"

definition Calibrator_Stats :: "MADCalibrator \<Rightarrow> CalibratorStats" where
  "Calibrator_Stats c = \<lparr>st_SamplesObserved = length (c_observations c), st_Median = c_median c,
     st_MAD = c_mad c, st_Threshold = c_threshold c, st_K = c_k c, st_IsWarmedUp = c_warmedUp c,
     st_LastRecalibration = c_lastRecal c\<rparr>"

definition Recalibrate :: "time \<Rightarrow> MADCalibrator \<Rightarrow> MADCalibrator" where
  "Recalibrate now c = (if length (c_observations c) > 0 then recalibrate now c else c)"

section \<open>The interface\<close>

text \<open>
  What a user of a calibrator relies on: nothing is anomalous before the warm-up; observing
  never undoes the warm-up and, after it, never moves the verdicts.
\<close>

locale calibrator =
  fixes observe :: "time \<Rightarrow> real \<Rightarrow> 'c \<Rightarrow> 'c"
    and warmed :: "'c \<Rightarrow> bool"
    and anomalous :: "real \<Rightarrow> 'c \<Rightarrow> bool"
  assumes cold_quiet: "\<not> warmed c \<Longrightarrow> \<not> anomalous t c"
    and stays_warm: "warmed c \<Longrightarrow> warmed (observe now t c)"
    and verdict_stable: "warmed c \<Longrightarrow> anomalous s (observe now t c) = anomalous s c"
    and verdict_mono: "anomalous s c \<Longrightarrow> s \<le> t \<Longrightarrow> anomalous t c"
begin

definition observe_all :: "(time \<times> real) list \<Rightarrow> 'c \<Rightarrow> 'c" where
  "observe_all samples = fold (\<lambda>(now, t). observe now t) samples"

lemma warm_forever:
  "warmed c \<Longrightarrow> warmed (observe_all samples c) \<and> anomalous s (observe_all samples c) = anomalous s c"
  by (induction samples arbitrary: c) (auto simp: observe_all_def stays_warm verdict_stable)

lemma observe_all_append: "observe_all (xs @ ys) c = observe_all ys (observe_all xs c)"
  by (simp add: observe_all_def)

end

interpretation mad: calibrator Observe IsWarmedUp IsAnomaly
  by unfold_locales (auto simp: Observe_def IsWarmedUp_def IsAnomaly_def Let_def split: if_splits)

section \<open>The warm-up\<close>

definition median_of :: "real list \<Rightarrow> real" where
  "median_of = AggMedian"

definition deviations_of :: "real list \<Rightarrow> real list" where
  "deviations_of xs = map (\<lambda>v. \<bar>v - median_of xs\<bar>) xs"

definition mad_threshold :: "real \<Rightarrow> real list \<Rightarrow> real" where
  "mad_threshold k xs = median_of xs + k * median_of (deviations_of xs)"

lemma computeMedian_eq: "computeMedian = median_of"
  by (rule ext) (simp add: computeMedian_def median_of_def AggMedian_def)

lemma recalibrate_threshold:
  "c_threshold (recalibrate now c) = mad_threshold (c_k c) (c_observations c)"
  "c_warmedUp (recalibrate now c)" "c_observations (recalibrate now c) = c_observations c"
  "c_k (recalibrate now c) = c_k c" "c_warmupSize (recalibrate now c) = c_warmupSize c"
  by (simp_all add: recalibrate_def Let_def computeMedian_eq mad_threshold_def deviations_of_def)

text \<open>The number of samples after which the calibrator is warm: never before the first.\<close>

definition warmup_samples :: "int \<Rightarrow> nat" where
  "warmup_samples n = max 1 (nat n)"

definition calibrated :: "real \<Rightarrow> int \<Rightarrow> real list \<Rightarrow> MADCalibrator \<Rightarrow> bool" where
  "calibrated k n xs c \<longleftrightarrow> c_observations c = xs \<and> c_k c = k \<and> c_warmupSize c = n \<and>
     (c_warmedUp c \<longleftrightarrow> warmup_samples n \<le> length xs) \<and>
     c_threshold c = (if warmup_samples n \<le> length xs then mad_threshold k (take (warmup_samples n) xs) else 0)"

lemma calibrated_start: "calibrated k n [] (NewCalibrator [WithK k, WithWarmupSize n])"
  by (simp add: calibrated_def NewCalibrator_def WithK_def WithWarmupSize_def warmup_samples_def)

lemma calibrated_observe:
  assumes "calibrated k n xs c"
  shows "calibrated k n (xs @ [x]) (Observe now x c)"
proof -
  have due: "n \<le> 1 + int (length xs) \<longleftrightarrow> warmup_samples n \<le> Suc (length xs)"
    by (auto simp: warmup_samples_def)
  have new: "warmup_samples n \<le> Suc (length xs) \<longleftrightarrow> warmup_samples n \<le> length xs \<or> warmup_samples n = Suc (length xs)"
    by auto
  show ?thesis
    using assms unfolding calibrated_def Observe_def
    by (clarsimp simp: Let_def recalibrate_threshold) (use due new in auto)
qed

lemma calibrated_all:
  "calibrated k n xs c \<Longrightarrow> calibrated k n (xs @ map snd samples) (mad.observe_all samples c)"
proof (induction samples arbitrary: xs c)
  case (Cons s samples)
  from calibrated_observe [OF Cons.prems] Cons.IH [of "xs @ [snd s]" "Observe (fst s) (snd s) c"]
  show ?case by (simp add: mad.observe_all_def case_prod_beta)
qed (simp add: mad.observe_all_def)

lemma length_filter_mono:
  "(\<And>x. P x \<Longrightarrow> Q x) \<Longrightarrow> length (filter P xs) \<le> length (filter Q xs)"
  by (induction xs) (auto simp: le_Suc_eq)

text \<open>At least half of the samples lie within one MAD of the median.\<close>

lemma within_mad:
  assumes "xs \<noteq> []" and "1 \<le> k"
  shows "length xs \<le> 2 * length (filter (\<lambda>x. x \<le> mad_threshold k xs) xs)"
proof -
  let ?m = "median_of xs" and ?d = "median_of (deviations_of xs)"
  have ne: "deviations_of xs \<noteq> []" using assms(1) by (simp add: deviations_of_def)
  have nn: "0 \<le> ?d"
    using AggMedian_bounds [OF ne, of 0 "Max (set (deviations_of xs))"]
    by (auto simp: median_of_def deviations_of_def)
  then have "?d \<le> k * ?d" using assms(2) mult_right_mono [of 1 k ?d] by simp
  then have "\<bar>x - ?m\<bar> \<le> ?d \<Longrightarrow> x \<le> mad_threshold k xs" for x by (simp add: mad_threshold_def)
  then have "length (filter (\<lambda>x. \<bar>x - ?m\<bar> \<le> ?d) xs) \<le> length (filter (\<lambda>x. x \<le> mad_threshold k xs) xs)"
    by (rule length_filter_mono)
  moreover have "length (filter (\<lambda>d. d \<le> ?d) (deviations_of xs)) = length (filter (\<lambda>x. \<bar>x - ?m\<bar> \<le> ?d) xs)"
    by (simp add: deviations_of_def filter_map comp_def)
  moreover have "length xs \<le> 2 * length (filter (\<lambda>d. d \<le> ?d) (deviations_of xs))"
    using AggMedian_splits(1) [OF ne] by (simp add: median_of_def deviations_of_def)
  ultimately show ?thesis by linarith
qed

text \<open>The order of the options matters: a baseline given before \<open>WithK\<close> keeps the default factor.\<close>

lemma baseline_before_k:
  "Threshold (NewCalibrator [WithPrecomputedBaseline now m d, WithK k]) = m + 3 * d"
  "c_k (NewCalibrator [WithPrecomputedBaseline now m d, WithK k]) = k"
  "Threshold (NewCalibrator [WithK k, WithPrecomputedBaseline now m d]) = m + k * d"
  by (simp_all add: NewCalibrator_def WithPrecomputedBaseline_def WithK_def Threshold_def)

section \<open>Properties\<close>

text \<open>
  C18. Life of a calibrator with factor \<open>k\<close> and warm-up size \<open>n\<close>. After any samples it is warm
  exactly when there were \<open>max 1 n\<close> of them; from then on its threshold is
  \<open>median + k * MAD\<close> of the first \<open>max 1 n\<close> samples, whatever is observed later, until
  \<open>Recalibrate\<close> sets it to that of all samples; before that nothing is an anomaly. With
  \<open>k \<ge> 1\<close> at most half of the samples it was calibrated on are anomalies. A precomputed baseline
  uses the factor set so far: given before \<open>WithK\<close> its threshold keeps the default factor 3.
\<close>

theorem calibrator_warmup:
  assumes "c = fold (\<lambda>(now, t). Observe now t) samples (NewCalibrator [WithK k, WithWarmupSize n])"
    and "m = max 1 (nat n)"
  shows "(IsWarmedUp c \<longleftrightarrow> m \<le> length samples) \<and>
     IsAnomaly t c = (m \<le> length samples \<and> mad_threshold k (take m (map snd samples)) < t) \<and>
     (samples \<noteq> [] \<longrightarrow> Threshold (Recalibrate now c) = mad_threshold k (map snd samples)) \<and>
     (1 \<le> k \<and> m \<le> length samples \<longrightarrow>
        2 * length (filter (\<lambda>s. IsAnomaly s c) (take m (map snd samples))) \<le> m) \<and>
     Threshold (NewCalibrator [WithK k, WithPrecomputedBaseline now med d]) = med + k * d \<and>
     Threshold (NewCalibrator [WithPrecomputedBaseline now med d, WithK k]) = med + 3 * d"
proof -
  have m: "m = warmup_samples n" using assms(2) by (simp add: warmup_samples_def)
  have c: "calibrated k n (map snd samples) c"
    using calibrated_all [OF calibrated_start, of k n samples] assms(1) by (simp add: mad.observe_all_def)
  let ?xs = "take m (map snd samples)"
  have half: "2 * length (filter (\<lambda>s. IsAnomaly s c) ?xs) \<le> m" if "1 \<le> k" "m \<le> length samples"
  proof -
    have len: "length ?xs = m" using that by simp
    have "m \<noteq> 0" using m by (simp add: warmup_samples_def)
    with len have "?xs \<noteq> []" by (metis list.size(3))
    from within_mad [OF this that(1)] sum_length_filter_compl [of "\<lambda>x. x \<le> mad_threshold k ?xs" ?xs] len
    have "2 * length (filter (\<lambda>x. \<not> x \<le> mad_threshold k ?xs) ?xs) \<le> m" by linarith
    moreover have "IsAnomaly s c \<longleftrightarrow> \<not> s \<le> mad_threshold k ?xs" for s
      using c that(2) by (simp add: calibrated_def m IsAnomaly_def not_le)
    ultimately show ?thesis by simp
  qed
  show ?thesis
    using c half
    by (auto simp: baseline_before_k [unfolded Threshold_def] calibrated_def m IsWarmedUp_def IsAnomaly_def Threshold_def Recalibrate_def recalibrate_threshold)
qed

theorem calibrator_warmup_witness:
  "IsWarmedUp (fold (\<lambda>(now, t). Observe now t) [(0, 1), (0, 2), (0, 9)] (NewCalibrator [WithK 2, WithWarmupSize 3]))"
  using calibrator_warmup [OF refl refl, of "[(0, 1), (0, 2), (0, 9)]" 2 3] by simp

end
