(* ===== verification/Hops.thy ===== *)
theory Hops
  imports Prelude
begin

text \<open>
  Breadth-first search, as the analysis package uses it three times (\<open>concealment.go\<close>,
  \<open>curvature.go\<close>, \<open>laplacian.go\<close>): the balls and layers of a neighbour function, their reading as
  shortest walks, and the step all three share, which records a node the first time it is met and
  appends it to a work list.
\<close>

section \<open>Balls and layers\<close>

fun ball :: "('a \<Rightarrow> 'a list) \<Rightarrow> nat \<Rightarrow> 'a \<Rightarrow> 'a set" where
  "ball N 0 s = {s}"
| "ball N (Suc k) s = ball N k s \<union> (\<Union>u \<in> ball N k s. set (N u))"

definition layer :: "('a \<Rightarrow> 'a list) \<Rightarrow> nat \<Rightarrow> 'a \<Rightarrow> 'a set" where
  "layer N k s = (if k = 0 then {s} else ball N k s - ball N (k - 1) s)"

definition step_rel :: "('a \<Rightarrow> 'a list) \<Rightarrow> ('a \<times> 'a) set" where
  "step_rel N = {(u, v). v \<in> set (N u)}"

lemma finite_ball [simp]: "finite (ball N k s)"
  by (induction k) auto

lemma finite_layer [simp]: "finite (layer N k s)"
  by (simp add: layer_def)

lemma ball_mono: "j \<le> k \<Longrightarrow> ball N j s \<subseteq> ball N k s"
  by (induction k) (auto simp: le_Suc_eq)

lemma ex_le_Suc: "(\<exists>i \<le> Suc k. P i) \<longleftrightarrow> (\<exists>i \<le> k. P i) \<or> P (Suc k)"
  by (auto simp: le_Suc_eq)

lemma ball_walks: "v \<in> ball N k s \<longleftrightarrow> (\<exists>j \<le> k. (s, v) \<in> step_rel N ^^ j)"
proof (induction k arbitrary: v)
  case (Suc k)
  have "v \<in> ball N (Suc k) s \<longleftrightarrow> v \<in> ball N k s \<or> (\<exists>u \<in> ball N k s. (u, v) \<in> step_rel N)"
    by (auto simp: step_rel_def)
  also have "(\<exists>u \<in> ball N k s. (u, v) \<in> step_rel N) \<longleftrightarrow> (\<exists>j \<le> k. (s, v) \<in> step_rel N ^^ Suc j)"
    unfolding Bex_def Suc.IH by (simp only: relpow.simps relcomp_unfold mem_Collect_eq case_prod_conv) blast
  also have "v \<in> ball N k s \<or> (\<exists>j \<le> k. (s, v) \<in> step_rel N ^^ Suc j) \<longleftrightarrow> (\<exists>j \<le> Suc k. (s, v) \<in> step_rel N ^^ j)"
    unfolding Suc.IH by (metis Suc_le_mono le_SucI not0_implies_Suc le0)
  finally show ?case .
qed auto

lemma layer_shortest:
  "v \<in> layer N k s \<longleftrightarrow> (s, v) \<in> step_rel N ^^ k \<and> (\<forall>j < k. (s, v) \<notin> step_rel N ^^ j)"
proof (cases k)
  case (Suc i)
  have "(\<exists>j \<le> Suc i. P j) \<and> \<not> (\<exists>j \<le> i. P j) \<longleftrightarrow> P (Suc i) \<and> (\<forall>j < Suc i. \<not> P j)" for P
    by (metis le_Suc_eq less_Suc_eq_le)
  then show ?thesis unfolding Suc layer_def by (simp add: ball_walks del: ball.simps relpow.simps)
qed (auto simp: layer_def)

lemma layers_disjoint: "i \<noteq> j \<Longrightarrow> layer N i s \<inter> layer N j s = {}"
  by (auto simp: layer_shortest) (metis linorder_neqE_nat)

lemma layers_ball: "(\<Union>i \<in> {..k}. layer N i s) = ball N k s"
  by (induction k) (auto simp: layer_def atMost_Suc)

lemma ball_Suc_layer: "ball N (Suc k) s = ball N k s \<union> (\<Union>u \<in> layer N k s. set (N u))"
proof (cases k)
  case (Suc i)
  have "set (N u) \<subseteq> ball N k s" if "u \<in> ball N i s" for u using that Suc by auto
  then show ?thesis using Suc by (auto simp: layer_def)
qed (simp add: layer_def)

section \<open>Recording new nodes\<close>

definition discover :: "'d \<Rightarrow> 'a \<Rightarrow> ('a, 'd) gomap \<times> 'a list \<Rightarrow> ('a, 'd) gomap \<times> 'a list" where
  "discover d v = (\<lambda>(seen, work).
     if map_of seen v = None then (AList.update v d seen, work @ [v]) else (seen, work))"

lemma discover_loop:
  "fold (discover d) vs (seen, work) = (seen', work') \<Longrightarrow>
     (\<forall>v. map_of seen' v = (if v \<in> set vs \<and> map_of seen v = None then Some d else map_of seen v)) \<and>
     (\<exists>new. work' = work @ new \<and> set new = {v \<in> set vs. map_of seen v = None} \<and> distinct new)"
proof (induction vs arbitrary: seen work)
  case (Cons v vs)
  show ?case
  proof (cases "map_of seen v = None")
    case True
    then have "discover d v (seen, work) = (AList.update v d seen, work @ [v])" by (simp add: discover_def)
    with Cons.prems have "fold (discover d) vs (AList.update v d seen, work @ [v]) = (seen', work')" by simp
    from Cons.IH [OF this] obtain new where
      n: "work' = (work @ [v]) @ new" "set new = {w \<in> set vs. map_of (AList.update v d seen) w = None}" "distinct new"
      and s: "\<And>w. map_of seen' w = (if w \<in> set vs \<and> map_of (AList.update v d seen) w = None then Some d
          else map_of (AList.update v d seen) w)" by blast
    have "work' = work @ (v # new)" "set (v # new) = {w \<in> set (v # vs). map_of seen w = None}" "distinct (v # new)"
      using n True by auto
    moreover have "map_of seen' w = (if w \<in> set (v # vs) \<and> map_of seen w = None then Some d else map_of seen w)" for w
      using s [of w] True by auto
    ultimately show ?thesis by blast
  next
    case False
    then have "discover d v (seen, work) = (seen, work)" by (auto simp: discover_def)
    with Cons.prems have "fold (discover d) vs (seen, work) = (seen', work')" by simp
    from Cons.IH [OF this] False show ?thesis by (auto simp: set_eq_iff)
  qed
qed simp

text \<open>Expanding a whole layer finds the next one.\<close>

lemma next_layer:
  assumes "set front = layer N k s" and "dom (map_of seen) = ball N k s"
    and "fold (discover d) (concat (map N front)) (seen, []) = (seen', next)"
  shows "set next = layer N (Suc k) s" and "distinct next" and "dom (map_of seen') = ball N (Suc k) s"
    and "\<And>v. map_of seen' v = (if v \<in> layer N (Suc k) s then Some d else map_of seen v)"
proof -
  note r = discover_loop [OF assms(3)]
  have found: "{v \<in> set (concat (map N front)). map_of seen v = None} = layer N (Suc k) s"
  proof -
    have "map_of seen v = None \<longleftrightarrow> v \<notin> ball N k s" for v using assms(2) by (metis domIff)
    then show ?thesis using assms(1) ball_Suc_layer [of N k s] by (auto simp: layer_def [of N "Suc k"] simp del: ball.simps)
  qed
  from r found show n: "set next = layer N (Suc k) s" "distinct next" by auto
  show m: "map_of seen' v = (if v \<in> layer N (Suc k) s then Some d else map_of seen v)" for v
    using r found by (metis (mono_tags, lifting) mem_Collect_eq)
  show "dom (map_of seen') = ball N (Suc k) s"
    using m assms(2) ball_mono [of k "Suc k" N s] by (auto simp: layer_def dom_def split: if_splits)
qed

end
