(* ===== verification/Concealment.thy ===== *)
theory Concealment
  imports Hops Tension
begin

text \<open>
  \<open>analysis/concealment.go\<close>: the concealment cost of a node, a sum of tensions over its
  neighbourhood that decays with the hop distance. The breadth-first walk is modelled with its
  \<open>visited\<close> map and its frontiers; the lemmas show that the frontier of round \<open>k\<close> is the set of
  nodes whose shortest walk has length \<open>k\<close>, each visited once.
\<close>

section \<open>The calculator\<close>

record ConcealmentCalculator =
  co_lambda :: real
  co_tension :: DivergenceFunc

definition NewConcealmentCalculator :: "real \<Rightarrow> DivergenceFunc \<Rightarrow> ConcealmentCalculator" where
  "NewConcealmentCalculator lambda tc = \<lparr>co_lambda = lambda, co_tension = tc\<rparr>"

definition add_costs :: "ConcealmentCalculator \<Rightarrow> GraphView \<Rightarrow> int \<Rightarrow> string list \<Rightarrow> real \<Rightarrow> real option" where
  "add_costs cc V k = ofold (\<lambda>vid acc. do {
     tau \<leftarrow> Calculate (co_tension cc) V vid;
     Some (acc + tau * exp (- co_lambda cc * real_of_int k))
   })"

definition expand_frontier ::
  "GraphView \<Rightarrow> int \<Rightarrow> string list \<Rightarrow> (string, int) gomap \<Rightarrow> (string, int) gomap \<times> string list" where
  "expand_frontier V k frontier visited =
     fold (\<lambda>vid st. fold (discover (k + 1)) (gv_Neighbors V vid) st) frontier (visited, [])"

function hop_loop ::
  "ConcealmentCalculator \<Rightarrow> GraphView \<Rightarrow> int \<Rightarrow> int \<Rightarrow> (string, int) gomap \<Rightarrow> string list \<Rightarrow> real \<Rightarrow> real option" where
  "hop_loop cc V maxHops k visited frontier acc =
     (if k \<le> maxHops then do {
        acc' \<leftarrow> add_costs cc V k frontier acc;
        if k = maxHops then Some acc'
        else (let (visited', nextFrontier) = expand_frontier V k frontier visited
              in hop_loop cc V maxHops (k + 1) visited' nextFrontier acc')
      } else Some acc)"
  by pat_completeness auto
termination
  by (relation "measure (\<lambda>(cc, V, maxHops, k, _). nat (maxHops - k + 1))") auto

declare hop_loop.simps [simp del]

definition CalculateNode :: "ConcealmentCalculator \<Rightarrow> GraphView \<Rightarrow> string \<Rightarrow> int \<Rightarrow> real option" where
  "CalculateNode cc V nodeID maxHops = (case gv_GetNode V nodeID of
     None \<Rightarrow> Some 0
   | Some _ \<Rightarrow> hop_loop cc V maxHops 0 [(nodeID, 0)] [nodeID] 0)"

definition Concealment_Calculate :: "ConcealmentCalculator \<Rightarrow> GraphView \<Rightarrow> string list \<Rightarrow> int \<Rightarrow> real option" where
  "Concealment_Calculate cc V nodeIDs maxHops = ofold (\<lambda>nid acc. do {
     c \<leftarrow> CalculateNode cc V nid maxHops;
     Some (acc + c)
   }) nodeIDs 0"

section \<open>The rounds of the walk\<close>

lemma expand_frontier_flat:
  "expand_frontier V k frontier visited =
     fold (discover (k + 1)) (concat (map (gv_Neighbors V) frontier)) (visited, [])"
proof -
  have "fold (\<lambda>vid st. fold (discover (k + 1)) (gv_Neighbors V vid) st) xs st =
      fold (discover (k + 1)) (concat (map (gv_Neighbors V) xs)) st" for xs st
    by (induction xs arbitrary: st) auto
  then show ?thesis by (simp add: expand_frontier_def)
qed

definition layer_cost :: "DivergenceFunc \<Rightarrow> GraphView \<Rightarrow> string \<Rightarrow> nat \<Rightarrow> real" where
  "layer_cost compute V s k = (\<Sum>v \<in> layer (gv_Neighbors V) k s. the (Calculate compute V v))"

context divergence begin

lemma add_costs_eq:
  assumes "nonneg_weights V" and "co_tension cc = compute"
  shows "add_costs cc V k vs acc =
    Some (acc + (\<Sum>v \<leftarrow> vs. the (Calculate compute V v)) * exp (- co_lambda cc * real_of_int k))"
proof (induction vs arbitrary: acc)
  case (Cons v vs)
  obtain t where "Calculate compute V v = Some t" using Calculate_nonneg [OF assms(1)] by blast
  with Cons show ?case
    by (simp add: add_costs_def assms(2) algebra_simps)
qed (simp add: add_costs_def)

lemma hop_loop_eq:
  assumes "nonneg_weights V" and "co_tension cc = compute"
    and "set frontier = layer (gv_Neighbors V) k s" and "distinct frontier"
    and "dom (map_of visited) = ball (gv_Neighbors V) k s" and "k + n = m"
  shows "hop_loop cc V (int m) (int k) visited frontier acc =
    Some (acc + (\<Sum>i \<in> {k..m}. exp (- co_lambda cc * real i) * layer_cost compute V s i))"
  using assms(3-6)
proof (induction n arbitrary: k visited frontier acc)
  case (0 k)
  then show ?case
    by (subst hop_loop.simps)
      (simp add: add_costs_eq [OF assms(1,2)] sum_list_distinct_conv_sum_set layer_cost_def mult.commute)
next
  case (Suc n k)
  obtain visited' nxt where e: "expand_frontier V (int k) frontier visited = (visited', nxt)" by force
  note nx = next_layer [OF Suc.prems(1,3) e [unfolded expand_frontier_flat]]
  have costs: "add_costs cc V (int k) frontier acc =
      Some (acc + exp (- co_lambda cc * real k) * layer_cost compute V s k)"
    using Suc.prems by (simp add: add_costs_eq [OF assms(1,2)] sum_list_distinct_conv_sum_set layer_cost_def mult.commute)
  have "k < m" using Suc.prems by simp
  then have split: "{k..m} = insert k {Suc k..m}" by auto
  have "hop_loop cc V (int m) (int k) visited frontier acc =
      hop_loop cc V (int m) (int (Suc k)) visited' nxt (acc + exp (- co_lambda cc * real k) * layer_cost compute V s k)"
    using \<open>k < m\<close> costs e by (subst hop_loop.simps) (simp add: add.commute)
  also have "\<dots> = Some (acc + exp (- co_lambda cc * real k) * layer_cost compute V s k +
      (\<Sum>i \<in> {Suc k..m}. exp (- co_lambda cc * real i) * layer_cost compute V s i))"
    by (rule Suc.IH [OF nx(1,2,3)]) (use Suc.prems in simp)
  finally show ?case unfolding split by simp
qed

lemma CalculateNode_eq:
  assumes "nonneg_weights V" and "co_tension cc = compute" and "gv_GetNode V s \<noteq> None"
  shows "CalculateNode cc V s (int m) =
    Some (\<Sum>i \<le> m. exp (- co_lambda cc * real i) * layer_cost compute V s i)"
proof -
  have "CalculateNode cc V s (int m) = hop_loop cc V (int m) (int 0) [(s, 0)] [s] 0"
    using assms(3) by (auto simp: CalculateNode_def)
  also have "\<dots> = Some (0 + (\<Sum>i \<in> {0..m}. exp (- co_lambda cc * real i) * layer_cost compute V s i))"
    by (rule hop_loop_eq [OF assms(1,2)]) (auto simp: layer_def)
  finally show ?thesis by (simp add: atMost_atLeast0)
qed

lemma layer_cost_nonneg:
  assumes "nonneg_weights V"
  shows "0 \<le> layer_cost compute V s k"
  unfolding layer_cost_def
proof (rule sum_nonneg)
  fix v
  show "0 \<le> the (Calculate compute V v)" using Calculate_nonneg [OF assms, of v] by auto
qed

lemma CalculateNode_mono:
  assumes "nonneg_weights V" and "co_tension cc = compute" and "gv_GetNode V s \<noteq> None" and "m \<le> m'"
  shows "\<exists>a b. CalculateNode cc V s (int m) = Some a \<and> CalculateNode cc V s (int m') = Some b \<and> 0 \<le> a \<and> a \<le> b"
proof -
  have "(\<Sum>i \<le> m. exp (- co_lambda cc * real i) * layer_cost compute V s i) \<le>
      (\<Sum>i \<le> m'. exp (- co_lambda cc * real i) * layer_cost compute V s i)"
    using assms(4) layer_cost_nonneg [OF assms(1)] by (intro sum_mono2) auto
  moreover have "0 \<le> (\<Sum>i \<le> m. exp (- co_lambda cc * real i) * layer_cost compute V s i)"
    using layer_cost_nonneg [OF assms(1)] by (intro sum_nonneg) auto
  ultimately show ?thesis by (simp add: CalculateNode_eq [OF assms(1-3)])
qed

end

section \<open>Properties\<close>

text \<open>
  C19. On a view with non-negative weights, the breadth-first walk computes the defining sum: the
  cost of a present node within \<open>m\<close> hops is the sum over \<open>k \<le> m\<close> of \<open>exp (- lambda * k)\<close> times the
  tensions of the nodes whose shortest walk to the node has length \<open>k\<close>. It is not negative and
  grows with the number of hops; with zero hops it is the node's own tension; an absent node and
  a negative number of hops cost nothing.
\<close>

theorem concealment_by_distance:
  assumes "uv_ok v" and "nonneg_weights (unified_view v)" and "UV_GetNode u v \<noteq> None"
    and "cc = NewConcealmentCalculator lambda JSD_Compute"
    and "N = step_rel (gv_Neighbors (unified_view v))"
  shows "CalculateNode cc (unified_view v) u (int m) = Some (\<Sum>k \<le> m. exp (- lambda * real k) *
       (\<Sum>w \<in> {w. (u, w) \<in> N ^^ k \<and> (\<forall>j < k. (u, w) \<notin> N ^^ j)}.
          the (Calculate JSD_Compute (unified_view v) w))) \<and>
     CalculateNode cc (unified_view v) u 0 = Calculate JSD_Compute (unified_view v) u \<and>
     (\<exists>a b. CalculateNode cc (unified_view v) u (int m) = Some a \<and>
        CalculateNode cc (unified_view v) u (int (m + d)) = Some b \<and> 0 \<le> a \<and> a \<le> b) \<and>
     CalculateNode cc (unified_view v) u (- 1) = Some 0 \<and>
     (UV_GetNode x v = None \<longrightarrow> CalculateNode cc (unified_view v) x maxHops = Some 0)"
proof -
  have cc: "co_tension cc = JSD_Compute" "co_lambda cc = lambda"
    using assms(4) by (simp_all add: NewConcealmentCalculator_def)
  have node: "gv_GetNode (unified_view v) u \<noteq> None" using assms(3) by simp
  have lay: "{w. (u, w) \<in> N ^^ k \<and> (\<forall>j < k. (u, w) \<notin> N ^^ j)} = layer (gv_Neighbors (unified_view v)) k u" for k
    unfolding assms(5) by (auto simp: layer_shortest)
  note eq = jsd.CalculateNode_eq [OF assms(2) cc(1) node]
  have "CalculateNode cc (unified_view v) u 0 = Calculate JSD_Compute (unified_view v) u"
    using eq [of 0] jsd.Calculate_nonneg [OF assms(2), of u] by (auto simp: layer_cost_def layer_def)
  moreover have "CalculateNode cc (unified_view v) u (- 1) = Some 0"
    using assms(3) by (auto simp: CalculateNode_def hop_loop.simps)
  ultimately show ?thesis
    using eq [of m] jsd.CalculateNode_mono [OF assms(2) cc(1) node, of m "m + d"]
    unfolding lay by (simp add: cc(2) layer_cost_def CalculateNode_def del: not_None_eq)
qed

theorem concealment_by_distance_witness:
  "CalculateNode (NewConcealmentCalculator 1 JSD_Compute) (unified_view sample_view) ''a'' 0 =
     Calculate JSD_Compute (unified_view sample_view) ''a''"
  using concealment_by_distance [OF sample_view_ok sample_view_nonneg sample_view_node refl refl, of 1] by blast

end
