(* ===== verification/Insertion_Sort.thy ===== *)
theory Insertion_Sort
  imports Prelude
begin

text \<open>
  The in-place insertion sort the code writes out twice (\<open>sortStrings\<close> of \<open>analysis/curvature.go\<close>
  and \<open>sortCSRRow\<close> of \<open>gpu/serialize.go\<close>), with a key function. The loop variable of the code
  is \<open>j = p - 1\<close>: the loop condition \<open>j >= 0 && s[j] > key\<close> is \<open>p > 0 \<and> s ! (p - 1) > key\<close>, and
  the final write goes to \<open>s[j + 1] = s[p]\<close>.
\<close>

fun shift_insert :: "('a \<Rightarrow> 'b::linorder) \<Rightarrow> 'a \<Rightarrow> 'a list \<Rightarrow> nat \<Rightarrow> 'a list" where
  "shift_insert f x s 0 = s[0 := x]"
| "shift_insert f x s (Suc p) =
     (if f (s ! p) > f x then shift_insert f x (s[Suc p := s ! p]) p else s[Suc p := x])"

definition insertion_sort :: "('a \<Rightarrow> 'b::linorder) \<Rightarrow> 'a list \<Rightarrow> 'a list" where
  "insertion_sort f s = fold (\<lambda>i s. shift_insert f (s ! i) s i) [1..<length s] s"

lemma shift_insert_sorted:
  "p < length s \<Longrightarrow> sorted (map f (take p s)) \<Longrightarrow>
   shift_insert f x s p = filter (\<lambda>y. f y \<le> f x) (take p s) @ x # filter (\<lambda>y. f y > f x) (take p s) @ drop (Suc p) s"
proof (induction p arbitrary: s)
  case 0
  then show ?case by (cases s) auto
next
  case (Suc p)
  have tk: "take (Suc p) s = take p s @ [s ! p]" using Suc.prems by (simp add: take_Suc_conv_app_nth)
  show ?case
  proof (cases "f (s ! p) > f x")
    case True
    let ?s = "s[Suc p := s ! p]"
    have "shift_insert f x ?s p = filter (\<lambda>y. f y \<le> f x) (take p ?s) @ x # filter (\<lambda>y. f y > f x) (take p ?s) @ drop (Suc p) ?s"
      using Suc.prems by (intro Suc.IH) (auto simp: tk sorted_append)
    moreover have "drop (Suc p) ?s = s ! p # drop (Suc (Suc p)) s"
      using Suc.prems by (simp add: Cons_nth_drop_Suc [symmetric])
    ultimately show ?thesis using True Suc.prems by (simp add: tk)
  next
    case False
    have "f y \<le> f x" if "y \<in> set (take (Suc p) s)" for y
      using that False Suc.prems(2) by (auto simp: tk sorted_append not_less)
    then have "filter (\<lambda>y. f y \<le> f x) (take (Suc p) s) = take (Suc p) s"
      and "filter (\<lambda>y. f y > f x) (take (Suc p) s) = []"
      by (auto simp: filter_empty_conv not_less)
    then show ?thesis using False Suc.prems by (simp add: upd_conv_take_nth_drop)
  qed
qed

lemma length_shift_insert [simp]: "length (shift_insert f x s p) = length s"
  by (induction p arbitrary: s) auto

lemma sort_key_snoc:
  "sort_key f (xs @ [x]) = filter (\<lambda>y. f y \<le> f x) (sort_key f xs) @ x # filter (\<lambda>y. f y > f x) (sort_key f xs)"
proof (rule properties_for_sort_key)
  let ?s = "sort_key f xs"
  let ?r = "filter (\<lambda>y. f y \<le> f x) ?s @ x # filter (\<lambda>y. f y > f x) ?s"
  have "mset (filter (\<lambda>y. f y \<le> f x) ?s) + mset (filter (\<lambda>y. \<not> f y \<le> f x) ?s) = mset xs"
    by (metis mset_filter mset_sort multiset_partition)
  then show "mset ?r = mset (xs @ [x])" by (simp add: not_le)
  show "filter (\<lambda>y. f k = f y) ?r = filter (\<lambda>y. f k = f y) (xs @ [x])" for k
  proof -
    have st: "filter (\<lambda>y. f k = f y) ?s = filter (\<lambda>y. f k = f y) xs"
      using sort_key_stable [of f "f k" xs] by (simp add: eq_commute)
    have a: "filter (\<lambda>y. f y \<le> f x \<and> f k = f y) ?s = (if f k \<le> f x then filter (\<lambda>y. f k = f y) ?s else [])"
      by (auto simp: filter_empty_conv intro: filter_cong)
    have b: "filter (\<lambda>y. f x < f y \<and> f k = f y) ?s = (if f k \<le> f x then [] else filter (\<lambda>y. f k = f y) ?s)"
      by (auto simp: filter_empty_conv not_le intro: filter_cong)
    show ?thesis using a b st by (auto simp: conj_commute)
  qed
  show "sorted (map f ?r)"
    by (fastforce simp: sorted_append sorted_filter intro: less_imp_le order.trans)
qed

lemma insertion_prefix:
  "i < length s \<Longrightarrow>
   fold (\<lambda>i s. shift_insert f (s ! i) s i) [1..<Suc i] s = sort_key f (take (Suc i) s) @ drop (Suc i) s"
proof (induction i)
  case 0
  then show ?case by (cases s) auto
next
  case (Suc i)
  let ?t = "sort_key f (take (Suc i) s) @ drop (Suc i) s"
  have "shift_insert f (?t ! Suc i) ?t (Suc i) = filter (\<lambda>y. f y \<le> f (?t ! Suc i)) (take (Suc i) ?t) @
      ?t ! Suc i # filter (\<lambda>y. f y > f (?t ! Suc i)) (take (Suc i) ?t) @ drop (Suc (Suc i)) ?t"
    using Suc.prems by (intro shift_insert_sorted) auto
  moreover have "take (Suc i) ?t = sort_key f (take (Suc i) s)" "?t ! Suc i = s ! Suc i"
    "drop (Suc (Suc i)) ?t = drop (Suc (Suc i)) s"
    using Suc.prems by (simp_all add: nth_append)
  moreover have "take (Suc (Suc i)) s = take (Suc i) s @ [s ! Suc i]"
    using Suc.prems by (rule take_Suc_conv_app_nth)
  moreover have "[1..<Suc (Suc i)] = [1..<Suc i] @ [Suc i]" by (rule upt_Suc_append) simp
  ultimately show ?case using Suc by (simp add: sort_key_snoc del: shift_insert.simps upt_Suc)
qed

lemma insertion_sort_correct: "insertion_sort f s = sort_key f s"
proof (cases "length s")
  case (Suc n)
  with insertion_prefix [of n s f] show ?thesis by (simp add: insertion_sort_def del: upt_Suc)
qed (simp add: insertion_sort_def)

end
