(* ===== verification/Sinkhorn.thy ===== *)
theory Sinkhorn
  imports Types
begin

text \<open>
  The Sinkhorn iteration of \<open>analysis/curvature.go\<close> and what it returns. The code skips a division
  by a row or column sum of at most \<open>1e-300\<close>; for kernels with entries between \<open>a\<close> and 1 and
  positive diagonal sums the lemmas bound these sums from below in every round, so the skip never
  happens on supports of realistic size and the last row update makes the first marginal of the
  transport plan exact. The argument: a round does not increase the weighted mean of the logarithms
  of the sums, and all sums of a round are within a factor \<open>1 / a\<close> of each other.
\<close>

section \<open>Sinkhorn's iteration\<close>

text \<open>
  The two updates of a round. An entry depends on the other vector only, so writing the entries
  one after the other in place is mapping over the indices.
\<close>

definition guard :: real where
  "guard = 1 / 10 ^ 300"

definition gibbs_kernel :: "real list list \<Rightarrow> real \<Rightarrow> nat \<Rightarrow> nat \<Rightarrow> real list list" where
  "gibbs_kernel cost reg n m = map (\<lambda>i. map (\<lambda>j. exp (- (cost ! i ! j) / reg)) [0..<m]) [0..<n]"

definition scale_v :: "real list list \<Rightarrow> real list \<Rightarrow> real list \<Rightarrow> real list \<Rightarrow> nat \<Rightarrow> nat \<Rightarrow> real list" where
  "scale_v K nu u v n m = map (\<lambda>j.
     let sum = fold (\<lambda>i acc. acc + K ! i ! j * u ! i) [0..<n] 0
     in if sum > guard then nu ! j / sum else v ! j) [0..<m]"

definition scale_u :: "real list list \<Rightarrow> real list \<Rightarrow> real list \<Rightarrow> real list \<Rightarrow> nat \<Rightarrow> nat \<Rightarrow> real list" where
  "scale_u K mu v u n m = map (\<lambda>i.
     let sum = fold (\<lambda>j acc. acc + K ! i ! j * v ! j) [0..<m] 0
     in if sum > guard then mu ! i / sum else u ! i) [0..<n]"

definition sink_round ::
  "real list list \<Rightarrow> real list \<Rightarrow> real list \<Rightarrow> nat \<Rightarrow> nat \<Rightarrow> real list \<times> real list \<Rightarrow> real list \<times> real list" where
  "sink_round K mu nu n m = (\<lambda>(u, v).
     let v' = scale_v K nu u v n m; u' = scale_u K mu v' u n m in (u', v'))"

definition sinkhorn :: "real list \<Rightarrow> real list \<Rightarrow> real list list \<Rightarrow> real \<Rightarrow> int \<Rightarrow> real" where
  "sinkhorn mu nu cost reg maxIter =
     (let n = length mu; m = length nu in
      if n = 0 \<or> m = 0 then 0
      else
        let K = gibbs_kernel cost reg n m;
            (u, v) = (sink_round K mu nu n m ^^ nat maxIter) (replicate n 1, replicate m 1)
        in fold (\<lambda>i acc. fold (\<lambda>j acc. acc + u ! i * K ! i ! j * v ! j * cost ! i ! j) [0..<m] acc)
             [0..<n] 0)"

section \<open>Entries of the vectors\<close>

definition row_sum :: "(nat \<Rightarrow> nat \<Rightarrow> real) \<Rightarrow> nat \<Rightarrow> real list \<Rightarrow> nat \<Rightarrow> real" where
  "row_sum k m v i = (\<Sum>j < m. k i j * v ! j)"

definition col_sum :: "(nat \<Rightarrow> nat \<Rightarrow> real) \<Rightarrow> nat \<Rightarrow> real list \<Rightarrow> nat \<Rightarrow> real" where
  "col_sum k n u j = (\<Sum>i < n. k i j * u ! i)"

lemma sum_upt: "(\<Sum>j \<leftarrow> [0..<m]. f j) = (\<Sum>j < m. f j :: real)"
  by (simp add: sum_list_distinct_conv_sum_set lessThan_atLeast0)

lemma gibbs_nth: "i < n \<Longrightarrow> j < m \<Longrightarrow> gibbs_kernel cost reg n m ! i ! j = exp (- (cost ! i ! j) / reg)"
  by (simp add: gibbs_kernel_def)

lemma scale_v_nth:
  assumes "j < m" and "\<And>i j. i < n \<Longrightarrow> j < m \<Longrightarrow> K ! i ! j = k i j"
  shows "scale_v K nu u v n m ! j = (if guard < col_sum k n u j then nu ! j / col_sum k n u j else v ! j)"
proof -
  have "(\<Sum>i < n. K ! i ! j * u ! i) = col_sum k n u j"
    unfolding col_sum_def by (rule sum.cong) (auto simp: assms)
  then show ?thesis using assms(1) by (simp add: scale_v_def loop_simps sum_upt Let_def)
qed

lemma scale_u_nth:
  assumes "i < n" and "\<And>i j. i < n \<Longrightarrow> j < m \<Longrightarrow> K ! i ! j = k i j"
  shows "scale_u K mu v u n m ! i = (if guard < row_sum k m v i then mu ! i / row_sum k m v i else u ! i)"
proof -
  have "(\<Sum>j < m. K ! i ! j * v ! j) = row_sum k m v i"
    unfolding row_sum_def by (rule sum.cong) (auto simp: assms)
  then show ?thesis using assms(1) by (simp add: scale_u_def loop_simps sum_upt Let_def)
qed

lemma double_loop: "fold (\<lambda>i. fold (\<lambda>j acc. acc + f i j) [0..<m]) [0..<n] z = z + (\<Sum>i < n. \<Sum>j < m. f i j :: real)"
proof -
  have "fold (\<lambda>j acc. acc + f i j) [0..<m] y = y + (\<Sum>j < m. f i j)" for i y
    by (simp add: loop_simps sum_upt)
  then have "(\<lambda>i. fold (\<lambda>j acc. acc + f i j) [0..<m]) = (\<lambda>i y. y + (\<Sum>j < m. f i j))" by (intro ext)
  then show ?thesis by (simp add: loop_simps sum_upt)
qed

lemma sinkhorn_eq:
  assumes "0 < length mu" and "0 < length nu"
    and "(sink_round (gibbs_kernel cost reg (length mu) (length nu)) mu nu (length mu) (length nu) ^^ nat it)
           (replicate (length mu) 1, replicate (length nu) 1) = (u, v)"
  shows "sinkhorn mu nu cost reg it = (\<Sum>i < length mu. \<Sum>j < length nu.
     u ! i * exp (- (cost ! i ! j) / reg) * v ! j * cost ! i ! j)"
proof -
  let ?K = "gibbs_kernel cost reg (length mu) (length nu)"
  have "sinkhorn mu nu cost reg it =
      (\<Sum>i < length mu. \<Sum>j < length nu. u ! i * ?K ! i ! j * v ! j * cost ! i ! j)"
    using assms by (simp add: sinkhorn_def Let_def double_loop)
  also have "\<dots> = (\<Sum>i < length mu. \<Sum>j < length nu. u ! i * exp (- (cost ! i ! j) / reg) * v ! j * cost ! i ! j)"
    by (intro sum.cong refl) (simp add: gibbs_nth)
  finally show ?thesis .
qed

section \<open>Sums of one round\<close>

lemma weighted_logs_decrease:
  fixes p r r' :: "nat \<Rightarrow> real"
  assumes "\<And>i. i < n \<Longrightarrow> 0 \<le> p i \<and> 0 < r i \<and> 0 < r' i" and "(\<Sum>i < n. p i) = 1"
    and "(\<Sum>i < n. p i * (r' i / r i)) = 1" and "(\<Sum>i < n. p i * ln (r i)) \<le> B"
  shows "(\<Sum>i < n. p i * ln (r' i)) \<le> B"
proof -
  have "(\<Sum>i < n. p i * ln (r' i)) = (\<Sum>i < n. p i * ln (r' i / r i)) + (\<Sum>i < n. p i * ln (r i))"
    unfolding sum.distrib [symmetric]
  proof (rule sum.cong [OF refl])
    fix i
    assume "i \<in> {..<n}"
    with assms(1) have "0 < r i" "0 < r' i" by auto
    then show "p i * ln (r' i) = p i * ln (r' i / r i) + p i * ln (r i)" by (simp add: ln_div algebra_simps)
  qed
  moreover have "(\<Sum>i < n. p i * ln (r' i / r i)) \<le> (\<Sum>i < n. p i * (r' i / r i - 1))"
    using assms(1) by (intro sum_mono mult_left_mono ln_le_minus_one) auto
  moreover have "(\<Sum>i < n. p i * (r' i / r i - 1)) = 0"
    using assms(2,3) by (simp add: right_diff_distrib sum_subtractf)
  ultimately show ?thesis using assms(4) by linarith
qed

lemma logs_bound_values:
  fixes p r :: "nat \<Rightarrow> real"
  assumes "\<And>i. i < n \<Longrightarrow> 0 \<le> p i \<and> 0 < r i" and "(\<Sum>i < n. p i) = 1" and "0 < a"
    and "(\<Sum>i < n. p i * ln (r i)) \<le> B" and "\<And>i j. i < n \<Longrightarrow> j < n \<Longrightarrow> a * r i \<le> r j" and "i < n"
  shows "r i \<le> exp B / a"
proof -
  have "ln (a * r i) = (\<Sum>j < n. p j * ln (a * r i))"
    using assms(2) by (simp add: sum_distrib_right [symmetric])
  also have "\<dots> \<le> (\<Sum>j < n. p j * ln (r j))"
    using assms(1,3,5,6) by (intro sum_mono mult_left_mono) (auto intro!: ln_mono)
  also have "\<dots> \<le> B" by (rule assms(4))
  finally have "exp (ln (a * r i)) \<le> exp B" by simp
  then have "a * r i \<le> exp B" using assms(1,3,6) by (simp add: exp_ln)
  then show ?thesis using assms(3) by (simp add: pos_le_divide_eq mult.commute)
qed

section \<open>All rounds\<close>

definition kernel_ok :: "(nat \<Rightarrow> nat \<Rightarrow> real) \<Rightarrow> real \<Rightarrow> nat \<Rightarrow> bool" where
  "kernel_ok k a n \<longleftrightarrow> 0 < a \<and> a \<le> 1 \<and> (\<forall>i < n. \<forall>j < n. a \<le> k i j \<and> k i j \<le> 1) \<and> (\<forall>i < n. k i i = 1)"

definition prob_vec :: "nat \<Rightarrow> real list \<Rightarrow> bool" where
  "prob_vec n p \<longleftrightarrow> length p = n \<and> (\<forall>i < n. 0 \<le> p ! i) \<and> (\<Sum>i < n. p ! i) = 1"

text \<open>The state after at least one round.\<close>

definition balanced ::
  "(nat \<Rightarrow> nat \<Rightarrow> real) \<Rightarrow> real list \<Rightarrow> real list \<Rightarrow> nat \<Rightarrow> real list \<Rightarrow> real list \<Rightarrow> (nat \<Rightarrow> real) \<Rightarrow> bool" where
  "balanced k mu nu n u v s \<longleftrightarrow>
     (\<forall>i < n. 0 < row_sum k n v i \<and> u ! i = mu ! i / row_sum k n v i) \<and>
     (\<forall>j < n. 0 < s j \<and> v ! j = nu ! j / s j) \<and>
     (\<Sum>i < n. mu ! i * ln (row_sum k n v i)) \<le> 0 \<and> (\<Sum>j < n. nu ! j * ln (s j)) \<le> ln (real n)"

lemma weighted_bounds:
  fixes w x :: "nat \<Rightarrow> real"
  assumes "\<And>i. i < n \<Longrightarrow> 0 \<le> x i \<and> a \<le> w i \<and> w i \<le> 1"
  shows "a * (\<Sum>i < n. x i) \<le> (\<Sum>i < n. w i * x i)" and "(\<Sum>i < n. w i * x i) \<le> (\<Sum>i < n. x i)"
proof -
  show "a * (\<Sum>i < n. x i) \<le> (\<Sum>i < n. w i * x i)"
    unfolding sum_distrib_left using assms by (intro sum_mono mult_right_mono) auto
  have "w i * x i \<le> x i" if "i < n" for i
    using assms [OF that] mult_right_mono [of "w i" 1 "x i"] by simp
  then show "(\<Sum>i < n. w i * x i) \<le> (\<Sum>i < n. x i)" by (intro sum_mono) auto
qed

lemma sums_comparable:
  fixes x :: "nat \<Rightarrow> real"
  assumes "kernel_ok k a n" and "\<And>i. i < n \<Longrightarrow> 0 \<le> x i" and "i < n" and "j < n"
  shows "a * (\<Sum>l < n. k i l * x l) \<le> (\<Sum>l < n. k j l * x l)"
    and "a * (\<Sum>l < n. k l i * x l) \<le> (\<Sum>l < n. k l j * x l)"
proof -
  have k: "\<And>p q. p < n \<Longrightarrow> q < n \<Longrightarrow> a \<le> k p q \<and> k p q \<le> 1" "0 < a" using assms(1) by (auto simp: kernel_ok_def)
  note b = weighted_bounds [of n x a]
  have "a * (\<Sum>l < n. k i l * x l) \<le> a * (\<Sum>l < n. x l)" using b(2) k assms by (intro mult_left_mono) auto
  also have "\<dots> \<le> (\<Sum>l < n. k j l * x l)" using b(1) k assms by auto
  finally show "a * (\<Sum>l < n. k i l * x l) \<le> (\<Sum>l < n. k j l * x l)" .
  have "a * (\<Sum>l < n. k l i * x l) \<le> a * (\<Sum>l < n. x l)" using b(2) k assms by (intro mult_left_mono) auto
  also have "\<dots> \<le> (\<Sum>l < n. k l j * x l)" using b(1) k assms by auto
  finally show "a * (\<Sum>l < n. k l i * x l) \<le> (\<Sum>l < n. k l j * x l)" .
qed

text \<open>A sum of quotients of a distribution, when the divisors are bounded.\<close>

lemma quotient_sum_lower:
  assumes "prob_vec n p" and "\<And>i. i < n \<Longrightarrow> 0 < s i \<and> s i \<le> M"
  shows "1 / M \<le> (\<Sum>i < n. p ! i / s i)"
proof -
  have "1 / M = (\<Sum>i < n. p ! i / M)" using assms(1) by (simp add: prob_vec_def sum_divide_distrib [symmetric])
  also have "\<dots> \<le> (\<Sum>i < n. p ! i / s i)"
  proof (rule sum_mono)
    fix i
    assume "i \<in> {..<n}"
    with assms show "p ! i / M \<le> p ! i / s i"
      by (intro divide_left_mono mult_pos_pos) (auto simp: prob_vec_def intro: less_le_trans)
  qed
  finally show ?thesis .
qed

text \<open>
  The two halves of a round over given sums: what the row update makes of a column update whose
  sums are bounded.
\<close>

definition small_support :: "real \<Rightarrow> nat \<Rightarrow> bool" where
  "small_support a n \<longleftrightarrow> 0 < n \<and> guard < a\<^sup>2 / real n \<and> guard < a\<^sup>2"

lemma row_after_columns:
  assumes K: "kernel_ok k a n" and nu: "prob_vec n nu" and n: "0 < n"
    and v: "\<And>j. j < n \<Longrightarrow> v ! j = nu ! j / s j"
    and s: "\<And>j. j < n \<Longrightarrow> 0 < s j" "\<And>i j. i < n \<Longrightarrow> j < n \<Longrightarrow> a * s i \<le> s j"
      "(\<Sum>j < n. nu ! j * ln (s j)) \<le> ln (real n)"
    and i: "i < n"
  shows "a\<^sup>2 / real n \<le> row_sum k n v i"
proof -
  have a: "0 < a" using K by (simp add: kernel_ok_def)
  have "s j \<le> exp (ln (real n)) / a" if "j < n" for j
    by (rule logs_bound_values [of n "(!) nu"]) (use nu s a that in \<open>auto simp: prob_vec_def\<close>)
  then have "s j \<le> real n / a" if "j < n" for j using that n by simp
  with quotient_sum_lower [OF nu, of s "real n / a"] s(1) have "a / real n \<le> (\<Sum>j < n. nu ! j / s j)" by simp
  then have "a * (a / real n) \<le> a * (\<Sum>j < n. v ! j)"
    using a v by (intro mult_left_mono) auto
  also have "\<dots> \<le> row_sum k n v i"
    unfolding row_sum_def
  proof (rule weighted_bounds(1))
    fix j
    assume "j < n"
    then show "0 \<le> v ! j \<and> a \<le> k i j \<and> k i j \<le> 1"
      using K i nu s(1) v by (auto simp: kernel_ok_def prob_vec_def intro!: divide_nonneg_pos)
  qed
  finally show ?thesis by (simp add: power2_eq_square)
qed

lemma col_after_rows:
  assumes K: "kernel_ok k a n" and mu: "prob_vec n mu"
    and u: "\<And>i. i < n \<Longrightarrow> u ! i = mu ! i / r i"
    and r: "\<And>i. i < n \<Longrightarrow> 0 < r i" "\<And>i j. i < n \<Longrightarrow> j < n \<Longrightarrow> a * r i \<le> r j" "(\<Sum>i < n. mu ! i * ln (r i)) \<le> 0"
    and j: "j < n"
  shows "a\<^sup>2 \<le> col_sum k n u j"
proof -
  have a: "0 < a" using K by (simp add: kernel_ok_def)
  have "r i \<le> exp 0 / a" if "i < n" for i
    by (rule logs_bound_values [of n "(!) mu"]) (use mu r a that in \<open>auto simp: prob_vec_def\<close>)
  then have "a \<le> (\<Sum>i < n. mu ! i / r i)" using quotient_sum_lower [OF mu, of r "1 / a"] r(1) by simp
  then have "a * a \<le> a * (\<Sum>i < n. u ! i)"
    using a u by (intro mult_left_mono) auto
  also have "\<dots> \<le> col_sum k n u j"
    unfolding col_sum_def
  proof (rule weighted_bounds(1))
    fix i
    assume "i < n"
    then show "0 \<le> u ! i \<and> a \<le> k i j \<and> k i j \<le> 1"
      using K j mu r(1) u by (auto simp: kernel_ok_def prob_vec_def intro!: divide_nonneg_pos)
  qed
  finally show ?thesis by (simp add: power2_eq_square)
qed

lemma comparable_rows:
  assumes "kernel_ok k a n" and "prob_vec n nu" and "\<And>j. j < n \<Longrightarrow> 0 < s j \<and> v ! j = nu ! j / s j"
    and "i < n" and "l < n"
  shows "a * row_sum k n v i \<le> row_sum k n v l"
  unfolding row_sum_def using assms
  by (intro sums_comparable(1)) (auto simp: prob_vec_def intro!: divide_nonneg_pos)

lemma comparable_cols:
  assumes "kernel_ok k a n" and "\<And>i. i < n \<Longrightarrow> 0 \<le> u ! i" and "i < n" and "l < n"
  shows "a * col_sum k n u i \<le> col_sum k n u l"
  unfolding col_sum_def using assms by (intro sums_comparable(2)) auto

lemma sum_swap_quotients:
  assumes "\<And>j. j < n \<Longrightarrow> col_sum k n u j \<noteq> 0"
  shows "(\<Sum>i < n. u ! i * (\<Sum>j < n. k i j * (p ! j / col_sum k n u j))) = (\<Sum>j < n. p ! j)"
proof -
  have "(\<Sum>i < n. u ! i * (\<Sum>j < n. k i j * (p ! j / col_sum k n u j))) =
      (\<Sum>i < n. \<Sum>j < n. (k i j * u ! i) * (p ! j / col_sum k n u j))"
    unfolding sum_distrib_left by (intro sum.cong refl) (simp add: mult_ac)
  also have "\<dots> = (\<Sum>j < n. (\<Sum>i < n. k i j * u ! i) * (p ! j / col_sum k n u j))"
    unfolding sum_distrib_right by (rule sum.swap)
  also have "\<dots> = (\<Sum>j < n. p ! j)"
    by (intro sum.cong refl) (use assms in \<open>auto simp: col_sum_def\<close>)
  finally show ?thesis .
qed

lemma double_quotients:
  fixes u nu :: "real list"
  shows "(\<Sum>j < n. (nu ! j / s j) * (\<Sum>i < n. k i j * u ! i)) = (\<Sum>i < n. u ! i * (\<Sum>j < n. k i j * (nu ! j / s j)))"
proof -
  have "(\<Sum>j < n. (nu ! j / s j) * (\<Sum>i < n. k i j * u ! i)) = (\<Sum>j < n. \<Sum>i < n. u ! i * (k i j * (nu ! j / s j)))"
    by (rule sum.cong [OF refl], subst sum_distrib_left) (simp add: mult_ac)
  also have "\<dots> = (\<Sum>i < n. \<Sum>j < n. u ! i * (k i j * (nu ! j / s j)))" by (rule sum.swap)
  finally show ?thesis by (simp add: sum_distrib_left)
qed

lemma first_round:
  assumes K: "kernel_ok k a n" and mu: "prob_vec n mu" and nu: "prob_vec n nu" and small: "small_support a n"
    and Kk: "\<And>i j. i < n \<Longrightarrow> j < n \<Longrightarrow> K ! i ! j = k i j"
    and uv: "sink_round K mu nu n n (replicate n 1, replicate n 1) = (u, v)"
  shows "\<exists>s. balanced k mu nu n u v s"
proof -
  let ?s = "col_sum k n (replicate n 1)"
  have n: "0 < n" using small by (simp add: small_support_def)
  have kij: "\<And>i j. i < n \<Longrightarrow> j < n \<Longrightarrow> a \<le> k i j \<and> k i j \<le> 1" "0 < a" "\<And>i. i < n \<Longrightarrow> k i i = 1"
    using K by (auto simp: kernel_ok_def)
  have s_eq: "?s j = (\<Sum>i < n. k i j)" for j by (simp add: col_sum_def)
  have s1: "1 \<le> ?s j" if "j < n" for j
  proof -
    have "k j j \<le> (\<Sum>i < n. k i j)"
      using kij(1,2) that by (intro member_le_sum) (auto intro: less_imp_le less_le_trans)
    then show ?thesis using kij(3) that by (simp add: s_eq)
  qed
  have sn: "?s j \<le> real n" if "j < n" for j
    using sum_bounded_above [of "{..<n}" "\<lambda>i. k i j" 1] kij(1) that by (simp add: s_eq)
  have g: "guard < 1" by (simp add: guard_def)
  have v: "v ! j = nu ! j / ?s j" if "j < n" for j
    using uv that s1 [OF that] g by (auto simp: sink_round_def Let_def scale_v_nth [OF that Kk])
  have logs: "(\<Sum>j < n. nu ! j * ln (?s j)) \<le> ln (real n)"
  proof -
    have "(\<Sum>j < n. nu ! j * ln (?s j)) \<le> (\<Sum>j < n. nu ! j * ln (real n))"
      using nu s1 sn by (intro sum_mono mult_left_mono ln_mono) (auto simp: prob_vec_def intro: less_le_trans [of 0 1])
    then show ?thesis using nu by (simp add: prob_vec_def sum_distrib_right [symmetric])
  qed
  have spos: "0 < ?s j" if "j < n" for j using s1 [OF that] by simp
  have cmp: "a * ?s i \<le> ?s j" if "i < n" "j < n" for i j using comparable_cols [OF K] that by simp
  have r: "a\<^sup>2 / real n \<le> row_sum k n v i" if "i < n" for i
    by (rule row_after_columns [OF K nu n v spos cmp logs that])
  then have rg: "guard < row_sum k n v i" if "i < n" for i using small that by (fastforce simp: small_support_def)
  have r0: "0 < row_sum k n v i" if "i < n" for i using rg [OF that] by (simp add: guard_def)
  have u: "u ! i = mu ! i / row_sum k n v i" if "i < n" for i
    using uv that rg [OF that] by (auto simp: sink_round_def Let_def scale_u_nth [OF that Kk])
  have r1: "row_sum k n v i \<le> 1" if "i < n" for i
  proof -
    have nz: "0 \<le> v ! j" "v ! j \<le> nu ! j" if "j < n" for j
      using nu v [OF that] s1 [OF that] that by (auto simp: prob_vec_def divide_le_eq mult_le_cancel_left1)
    have "row_sum k n v i \<le> (\<Sum>j < n. v ! j)"
      unfolding row_sum_def using weighted_bounds(2) [of n "(!) v" a "k i"] nz kij(1) that by auto
    also have "\<dots> \<le> (\<Sum>j < n. nu ! j)" using nz(2) by (intro sum_mono) auto
    finally show ?thesis using nu by (simp add: prob_vec_def)
  qed
  have "(\<Sum>i < n. mu ! i * ln (row_sum k n v i)) \<le> 0"
    using mu r1 r0 by (intro sum_nonpos mult_nonneg_nonpos) (auto simp: prob_vec_def)
  then show ?thesis unfolding balanced_def using u v r0 spos logs by blast
qed

lemma later_round:
  assumes K: "kernel_ok k a n" and mu: "prob_vec n mu" and nu: "prob_vec n nu" and small: "small_support a n"
    and Kk: "\<And>i j. i < n \<Longrightarrow> j < n \<Longrightarrow> K ! i ! j = k i j"
    and bal: "balanced k mu nu n u v s" and uv: "sink_round K mu nu n n (u, v) = (u', v')"
  shows "\<exists>s'. balanced k mu nu n u' v' s'"
proof -
  let ?r = "row_sum k n v" and ?s = "col_sum k n u" and ?r' = "row_sum k n v'"
  have mu0: "\<And>i. i < n \<Longrightarrow> 0 \<le> mu ! i" and mu1: "(\<Sum>i < n. mu ! i) = 1"
    and nu0: "\<And>i. i < n \<Longrightarrow> 0 \<le> nu ! i" and nu1: "(\<Sum>i < n. nu ! i) = 1"
    using mu nu by (auto simp: prob_vec_def)
  have n: "0 < n" using small by (simp add: small_support_def)
  have b: "\<And>i. i < n \<Longrightarrow> 0 < ?r i" "\<And>i. i < n \<Longrightarrow> u ! i = mu ! i / ?r i"
    "\<And>j. j < n \<Longrightarrow> 0 < s j \<and> v ! j = nu ! j / s j"
    "(\<Sum>i < n. mu ! i * ln (?r i)) \<le> 0" "(\<Sum>j < n. nu ! j * ln (s j)) \<le> ln (real n)"
    using bal by (auto simp: balanced_def)
  have cr: "a * ?r i \<le> ?r l" if "i < n" "l < n" for i l by (rule comparable_rows [OF K nu b(3) that])
  have s2: "a\<^sup>2 \<le> ?s j" if "j < n" for j by (rule col_after_rows [OF K mu b(2,1) cr b(4) that])
  then have sg: "guard < ?s j" if "j < n" for j using small that by (fastforce simp: small_support_def)
  have spos: "0 < ?s j" if "j < n" for j using sg [OF that] by (simp add: guard_def)
  have v: "v' ! j = nu ! j / ?s j" if "j < n" for j
    using uv that sg [OF that] by (auto simp: sink_round_def Let_def scale_v_nth [OF that Kk])
  have u0: "0 \<le> u ! i" if "i < n" for i using mu b(1,2) that by (auto simp: prob_vec_def intro!: divide_nonneg_pos)
  have cs: "a * ?s i \<le> ?s l" if "i < n" "l < n" for i l by (rule comparable_cols [OF K u0 that])
  have "(\<Sum>j < n. nu ! j * (?s j / s j)) = (\<Sum>j < n. (nu ! j / s j) * (\<Sum>i < n. k i j * u ! i))"
    by (simp add: col_sum_def)
  also have "\<dots> = (\<Sum>i < n. u ! i * ?r i)"
    unfolding double_quotients
  proof (rule sum.cong [OF refl])
    fix i
    have "(\<Sum>j < n. k i j * (nu ! j / s j)) = ?r i"
      unfolding row_sum_def by (rule sum.cong [OF refl]) (simp add: b(3))
    then show "u ! i * (\<Sum>j < n. k i j * (nu ! j / s j)) = u ! i * ?r i" by simp
  qed
  also have "\<dots> = (\<Sum>i < n. mu ! i)" using b(1,2) by (intro sum.cong refl) fastforce
  also have "\<dots> = 1" using mu by (simp add: prob_vec_def)
  finally have "(\<Sum>j < n. nu ! j * (?s j / s j)) = 1" .
  then have logs: "(\<Sum>j < n. nu ! j * ln (?s j)) \<le> ln (real n)"
    by (intro weighted_logs_decrease [OF _ nu1 _ b(5)]) (use nu0 spos b(3) in blast)
  have r2: "a\<^sup>2 / real n \<le> ?r' i" if "i < n" for i
    by (rule row_after_columns [OF K nu n v spos cs logs that])
  then have rg: "guard < ?r' i" if "i < n" for i using small that by (fastforce simp: small_support_def)
  have r0: "0 < ?r' i" if "i < n" for i using rg [OF that] by (simp add: guard_def)
  have u': "u' ! i = mu ! i / ?r' i" if "i < n" for i
    using uv that rg [OF that] by (auto simp: sink_round_def Let_def scale_u_nth [OF that Kk])
  have "(\<Sum>i < n. mu ! i * (?r' i / ?r i)) = (\<Sum>i < n. u ! i * (\<Sum>j < n. k i j * (nu ! j / ?s j)))"
  proof (rule sum.cong [OF refl])
    fix i
    assume i: "i \<in> {..<n}"
    have "?r' i = (\<Sum>j < n. k i j * (nu ! j / ?s j))"
      unfolding row_sum_def by (rule sum.cong [OF refl]) (simp add: v)
    then show "mu ! i * (?r' i / ?r i) = u ! i * (\<Sum>j < n. k i j * (nu ! j / ?s j))"
      using b(2) [of i] i by simp
  qed
  also have "\<dots> = (\<Sum>j < n. nu ! j)" by (rule sum_swap_quotients) (use spos in force)
  also have "\<dots> = 1" by (rule nu1)
  finally have "(\<Sum>i < n. mu ! i * ln (?r' i)) \<le> 0"
    by (intro weighted_logs_decrease [OF _ mu1 _ b(4)]) (use mu0 r0 b(1) in blast)
  then show ?thesis unfolding balanced_def using u' v r0 spos logs by blast
qed

text \<open>So after any positive number of rounds every row of the plan carries exactly its mass.\<close>

lemma rounds_balanced:
  assumes "kernel_ok k a n" and "prob_vec n mu" and "prob_vec n nu" and "small_support a n"
    and "\<And>i j. i < n \<Longrightarrow> j < n \<Longrightarrow> K ! i ! j = k i j"
    and "(sink_round K mu nu n n ^^ Suc t) (replicate n 1, replicate n 1) = (u, v)"
  shows "\<exists>s. balanced k mu nu n u v s"
  using assms(6)
proof (induction t arbitrary: u v)
  case 0
  then show ?case using first_round [OF assms(1-5)] by simp
next
  case (Suc t)
  obtain u1 v1 where p: "(sink_round K mu nu n n ^^ Suc t) (replicate n 1, replicate n 1) = (u1, v1)" by force
  with Suc.prems have "sink_round K mu nu n n (u1, v1) = (u, v)" by simp
  with Suc.IH [OF p] later_round [OF assms(1-5)] show ?case by blast
qed

lemma sinkhorn_bounds:
  assumes mu: "prob_vec n mu" and nu: "prob_vec n nu" and small: "small_support (exp (- D / reg)) n"
    and cost: "\<And>i j. i < n \<Longrightarrow> j < n \<Longrightarrow> 0 \<le> cost ! i ! j \<and> cost ! i ! j \<le> D" "\<And>i. i < n \<Longrightarrow> cost ! i ! i = 0"
    and reg: "0 < reg" and it: "0 < it"
  shows "0 \<le> sinkhorn mu nu cost reg it \<and> sinkhorn mu nu cost reg it \<le> D"
proof -
  let ?k = "\<lambda>i j. exp (- (cost ! i ! j) / reg)" and ?a = "exp (- D / reg)"
  let ?K = "gibbs_kernel cost reg n n"
  have n: "0 < n" "length mu = n" "length nu = n" using small mu nu by (auto simp: small_support_def prob_vec_def)
  have "0 \<le> D" using cost(1) [of 0 0] n by linarith
  then have K: "kernel_ok ?k ?a n"
    using cost reg by (auto simp: kernel_ok_def divide_right_mono)
  obtain t where t: "nat it = Suc t" using it by (metis not0_implies_Suc nat_0_iff not_le)
  obtain u v where uv: "(sink_round ?K mu nu n n ^^ nat it) (replicate n 1, replicate n 1) = (u, v)" by force
  have "\<exists>s. balanced ?k mu nu n u v s"
    by (rule rounds_balanced [OF K mu nu small _ uv [unfolded t]]) (simp add: gibbs_nth)
  then obtain s where b: "balanced ?k mu nu n u v s" ..
  then have r: "\<And>i. i < n \<Longrightarrow> 0 < row_sum ?k n v i \<and> u ! i = mu ! i / row_sum ?k n v i"
    and v: "\<And>j. j < n \<Longrightarrow> 0 \<le> v ! j"
    using nu by (auto simp: balanced_def prob_vec_def intro!: divide_nonneg_pos)
  have mu0: "\<And>i. i < n \<Longrightarrow> 0 \<le> mu ! i" using mu by (simp add: prob_vec_def)
  have u: "0 \<le> u ! i" if "i < n" for i using r mu0 that by (auto intro!: divide_nonneg_pos)
  have eq: "sinkhorn mu nu cost reg it = (\<Sum>i < n. \<Sum>j < n. u ! i * ?k i j * v ! j * cost ! i ! j)"
    using sinkhorn_eq [where mu = mu and nu = nu and cost = cost and reg = reg and it = it] uv n by simp
  have row: "(\<Sum>j < n. u ! i * ?k i j * v ! j * cost ! i ! j) \<le> D * mu ! i" if i: "i < n" for i
  proof -
    have "(\<Sum>j < n. u ! i * ?k i j * v ! j * cost ! i ! j) \<le> (\<Sum>j < n. u ! i * ?k i j * v ! j * D)"
      using u v cost(1) i by (intro sum_mono mult_left_mono) auto
    also have "\<dots> = D * (u ! i * row_sum ?k n v i)"
      unfolding row_sum_def sum_distrib_left by (intro sum.cong refl) (simp add: mult_ac)
    also have "u ! i * row_sum ?k n v i = mu ! i" using r [OF i] by simp
    finally show ?thesis .
  qed
  have "(\<Sum>i < n. \<Sum>j < n. u ! i * ?k i j * v ! j * cost ! i ! j) \<le> (\<Sum>i < n. D * mu ! i)"
    using row by (intro sum_mono) auto
  also have "\<dots> = D" using mu by (simp add: sum_distrib_left [symmetric] prob_vec_def)
  finally have "sinkhorn mu nu cost reg it \<le> D" unfolding eq .
  moreover have "0 \<le> sinkhorn mu nu cost reg it"
    unfolding eq using u v cost(1) by (intro sum_nonneg mult_nonneg_nonneg) auto
  ultimately show ?thesis by simp
qed

end
