(* ===== verification/Curvature.thy ===== *)
theory Curvature
  imports Hops Insertion_Sort Sinkhorn Graph_View
begin

text \<open>
  \<open>analysis/curvature.go\<close>: Ollivier-Ricci curvature of an edge, one minus the transport distance
  of the lazy random walk measures of its endpoints. The queue search \<open>bfsDistances\<close> has no
  structural measure, so it is a partial function whose value is proved to exist; Sinkhorn's
  iteration runs a fixed number of rounds. The lemmas show that the search finds the lengths of
  the shortest walks, that the measures are distributions, and the bounds of the result.
\<close>

section \<open>The walk measures\<close>

record CurvatureCalculator =
  cc_alpha :: real
  cc_reg :: real
  cc_maxIter :: int

definition NewCurvatureCalculator :: "real \<Rightarrow> CurvatureCalculator" where
  "NewCurvatureCalculator alpha = \<lparr>cc_alpha = alpha, cc_reg = 1 / 10, cc_maxIter = 100\<rparr>"

definition buildMeasure :: "CurvatureCalculator \<Rightarrow> GraphView \<Rightarrow> string \<Rightarrow> (string, real) gomap" where
  "buildMeasure cc V nodeID =
     (let neighbors = gv_Neighbors V nodeID in
      if length neighbors = 0 then AList.update nodeID 1 []
      else let share = (1 - cc_alpha cc) / real (length neighbors)
           in fold (\<lambda>nID m. AList.update nID (lookup0 m nID + share) m) neighbors
                (AList.update nodeID (cc_alpha cc) []))"

section \<open>Shortest-path distances\<close>

definition bfs_visit ::
  "GraphView \<Rightarrow> string \<Rightarrow> (string, int) gomap \<Rightarrow> string list \<Rightarrow> (string, int) gomap \<times> string list" where
  "bfs_visit V cur seen rest = fold (discover (lookup0 seen cur + 1)) (gv_Neighbors V cur) (seen, rest)"

partial_function (option) bfs_loop ::
  "GraphView \<Rightarrow> int \<Rightarrow> (string, int) gomap \<Rightarrow> string list \<Rightarrow> (string, int) gomap option" where
  "bfs_loop V maxDepth seen queue =
     (if queue = [] then Some seen
      else if lookup0 seen (hd queue) \<ge> maxDepth then bfs_loop V maxDepth seen (tl queue)
      else bfs_loop V maxDepth (fst (bfs_visit V (hd queue) seen (tl queue)))
             (snd (bfs_visit V (hd queue) seen (tl queue))))"

definition bfsDistances :: "GraphView \<Rightarrow> string \<Rightarrow> int \<Rightarrow> (string, int) gomap option" where
  "bfsDistances V src maxDepth = bfs_loop V maxDepth [(src, 0)] [src]"

definition cost_row :: "(string, int) gomap \<Rightarrow> string list \<Rightarrow> nat \<Rightarrow> real list \<Rightarrow> real list" where
  "cost_row found support i row = fold (\<lambda>j row.
     if i = j then row
     else case map_of found (support ! j) of Some d \<Rightarrow> row[j := real_of_int d] | None \<Rightarrow> row)
     [0..<length support] row"

definition buildCostMatrix :: "GraphView \<Rightarrow> string list \<Rightarrow> real list list option" where
  "buildCostMatrix V support =
     (let n = length support;
          cost = map (\<lambda>i. map (\<lambda>j. if i \<noteq> j then 4 else 0) [0..<n]) [0..<n]
      in ofold (\<lambda>i cost. do {
           found \<leftarrow> bfsDistances V (support ! i) 4;
           Some (cost[i := cost_row found support i (cost ! i)])
         }) [0..<n] cost)"

section \<open>Curvature\<close>

definition sortStrings :: "string list \<Rightarrow> string list" where
  "sortStrings s = insertion_sort (\<lambda>x. x) s"

definition support_of :: "(string, real) gomap \<Rightarrow> (string, real) gomap \<Rightarrow> string list" where
  "support_of muFrom muTo =
     (let supportSet = fold (\<lambda>(nid, _). AList.update nid True) muTo
            (fold (\<lambda>(nid, _). AList.update nid True) muFrom [])
      in sortStrings (fold (\<lambda>(nid, _) support. support @ [nid]) supportSet []))"

definition Curvature_Calculate :: "CurvatureCalculator \<Rightarrow> GraphView \<Rightarrow> string \<Rightarrow> string \<Rightarrow> real option" where
  "Curvature_Calculate cc V from to = (case gv_GetEdge V from to of
     None \<Rightarrow> Some 0
   | Some _ \<Rightarrow>
       let muFrom = buildMeasure cc V from;
           muTo = buildMeasure cc V to;
           support = support_of muFrom muTo;
           mu = map (\<lambda>nid. lookup0 muFrom nid) support;
           nu = map (\<lambda>nid. lookup0 muTo nid) support
       in do {
         cost \<leftarrow> buildCostMatrix V support;
         let w1 = sinkhorn mu nu cost (cc_reg cc) (cc_maxIter cc);
         Some (1 - w1)
       })"

definition Curvature_CalculateAll ::
  "CurvatureCalculator \<Rightarrow> GraphView \<Rightarrow> (string \<times> string, real) gomap option" where
  "Curvature_CalculateAll cc V = ofold (\<lambda>e result. do {
     c \<leftarrow> Curvature_Calculate cc V (e_From e) (e_To e);
     Some (AList.update (e_From e, e_To e) c result)
   }) (gv_edges V) []"

section \<open>The search finds shortest walks\<close>

lemma bfs_Nil [simp]: "bfs_loop V D seen [] = Some seen"
  by (subst bfs_loop.simps) simp

lemma bfs_Cons: "bfs_loop V D seen (cur # rest) =
    (if lookup0 seen cur \<ge> D then bfs_loop V D seen rest
     else (let st = fold (discover (lookup0 seen cur + 1)) (gv_Neighbors V cur) (seen, rest)
           in bfs_loop V D (fst st) (snd st)))"
  by (subst bfs_loop.simps) (simp add: Let_def bfs_visit_def)

lemma discover_keeps:
  "map_of seen v = Some d \<Longrightarrow> map_of (fst (fold (discover e) vs (seen, work))) v = Some d"
  using discover_loop [of e vs seen work] by (cases "fold (discover e) vs (seen, work)") auto

text \<open>Processing all queued nodes of one depth is the layer step.\<close>

lemma bfs_layer:
  assumes "\<forall>v \<in> set front. map_of seen v = Some d" and "d < D"
  shows "bfs_loop V D seen (front @ rest) =
    (let st = fold (discover (d + 1)) (concat (map (gv_Neighbors V) front)) (seen, rest)
     in bfs_loop V D (fst st) (snd st))"
  using assms(1)
proof (induction front arbitrary: seen rest)
  case (Cons v front)
  have v: "lookup0 seen v = d" using Cons.prems by (simp add: lookup0_def)
  have split: "\<exists>new. fold (discover e) vs (s, front @ r) = (fst (fold (discover e) vs (s, r)), front @ snd (fold (discover e) vs (s, r)))"
    for e :: int and vs s r
  proof (induction vs arbitrary: s r)
    case (Cons w vs)
    then show ?case by (cases "map_of s w") (simp_all add: discover_def)
  qed simp
  let ?st = "fold (discover (d + 1)) (gv_Neighbors V v) (seen, rest)"
  have "bfs_loop V D seen ((v # front) @ rest) = bfs_loop V D (fst ?st) (front @ snd ?st)"
    using v assms(2) split [of "d + 1" "gv_Neighbors V v" seen rest] by (simp add: bfs_Cons Let_def)
  also have "\<dots> = (let st = fold (discover (d + 1)) (concat (map (gv_Neighbors V) front)) (fst ?st, snd ?st)
      in bfs_loop V D (fst st) (snd st))"
    using Cons.prems by (intro Cons.IH) (auto intro: discover_keeps)
  finally show ?case by simp
qed simp

lemma bfs_at_depth:
  assumes "\<forall>v \<in> set front. map_of seen v = Some d" and "d \<ge> D"
  shows "bfs_loop V D seen front = Some seen"
  using assms(1)
proof (induction front)
  case (Cons v front)
  with assms(2) show ?case by (simp add: bfs_Cons lookup0_def)
qed simp

definition distances_upto :: "GraphView \<Rightarrow> string \<Rightarrow> nat \<Rightarrow> (string, int) gomap \<Rightarrow> bool" where
  "distances_upto V s k seen \<longleftrightarrow>
     (\<forall>v d. map_of seen v = Some d \<longleftrightarrow> (\<exists>j \<le> k. d = int j \<and> v \<in> layer (gv_Neighbors V) j s))"

lemma distances_upto_dom:
  "distances_upto V s k seen \<Longrightarrow> dom (map_of seen) = ball (gv_Neighbors V) k s"
  unfolding layers_ball [symmetric] by (auto simp: distances_upto_def dom_def)

lemma distances_next:
  assumes "distances_upto V s k seen" and "set front = layer (gv_Neighbors V) k s"
    and "fold (discover (int k + 1)) (concat (map (gv_Neighbors V) front)) (seen, []) = (seen', nxt)"
  shows "distances_upto V s (Suc k) seen'" and "set nxt = layer (gv_Neighbors V) (Suc k) s"
proof -
  note nl = next_layer [OF assms(2) distances_upto_dom [OF assms(1)] assms(3)]
  show "set nxt = layer (gv_Neighbors V) (Suc k) s" by (rule nl(1))
  have "v \<notin> layer (gv_Neighbors V) j s" if "v \<in> layer (gv_Neighbors V) (Suc k) s" "j \<le> k" for v j
    using layers_disjoint [of "Suc k" j "gv_Neighbors V" s] that by fastforce
  then show "distances_upto V s (Suc k) seen'"
    using assms(1) by (auto simp: distances_upto_def nl(4) le_Suc_eq split: if_splits)
qed

lemma bfs_from_layer:
  assumes "distances_upto V s k seen" and "set front = layer (gv_Neighbors V) k s" and "k + n = D"
  shows "\<exists>found. bfs_loop V (int D) seen front = Some found \<and> distances_upto V s D found"
  using assms
proof (induction n arbitrary: k seen front)
  case (0 k)
  then have "\<forall>v \<in> set front. map_of seen v = Some (int k)" by (auto simp: distances_upto_def)
  from bfs_at_depth [OF this, of "int D" V] 0 show ?case by simp
next
  case (Suc n k)
  obtain seen' nxt where st: "fold (discover (int k + 1)) (concat (map (gv_Neighbors V) front)) (seen, []) = (seen', nxt)"
    by force
  from Suc.prems have "\<forall>v \<in> set front. map_of seen v = Some (int k)" by (auto simp: distances_upto_def)
  then have "bfs_loop V (int D) seen front = bfs_loop V (int D) seen' nxt"
    using bfs_layer [of front seen "int k" "int D" V "[]"] Suc.prems(3) st by (simp add: Let_def)
  with Suc.IH [OF distances_next [OF Suc.prems(1,2) st]] Suc.prems(3) show ?case by simp
qed

lemma bfsDistances_layers:
  "\<exists>found. bfsDistances V s (int D) = Some found \<and> distances_upto V s D found"
  unfolding bfsDistances_def
  by (rule bfs_from_layer [of V s 0]) (auto simp: distances_upto_def layer_def)

section \<open>The measures are distributions\<close>

lemma add_share:
  "distinct ns \<Longrightarrow> lookup0 (fold (\<lambda>n m. AList.update n (lookup0 m n + (share::real)) m) ns m0) v =
     lookup0 m0 v + (if v \<in> set ns then share else 0)"
proof (induction ns arbitrary: m0)
  case (Cons n ns)
  then show ?case by (auto simp: lookup0_def)
qed simp

lemma add_share_dom:
  "dom (map_of (fold (\<lambda>n m. AList.update n (lookup0 m n + (share::real)) m) ns m0)) = dom (map_of m0) \<union> set ns"
  by (induction ns arbitrary: m0) auto

lemma buildMeasure_dom:
  "dom (map_of (buildMeasure cc V u)) = insert u (set (gv_Neighbors V u))"
  by (auto simp: buildMeasure_def Let_def add_share_dom)

lemma buildMeasure_lookup:
  assumes "distinct (gv_Neighbors V u)"
  shows "lookup0 (buildMeasure cc V u) v =
    (if gv_Neighbors V u = [] then (if v = u then 1 else 0)
     else (if v = u then cc_alpha cc else 0) +
          (if v \<in> set (gv_Neighbors V u) then (1 - cc_alpha cc) / real (length (gv_Neighbors V u)) else 0))"
  using assms by (auto simp: buildMeasure_def Let_def add_share) (auto simp: lookup0_def)

lemma buildMeasure_sum:
  assumes "distinct (gv_Neighbors V u)" and "finite S" and "insert u (set (gv_Neighbors V u)) \<subseteq> S"
  shows "(\<Sum>v \<in> S. lookup0 (buildMeasure cc V u) v) = 1"
proof (cases "gv_Neighbors V u = []")
  case True
  with assms show ?thesis by (simp add: buildMeasure_lookup sum.delta)
next
  case False
  let ?ns = "gv_Neighbors V u" and ?share = "(1 - cc_alpha cc) / real (length (gv_Neighbors V u))"
  have "(\<Sum>v \<in> S. if v \<in> set ?ns then ?share else 0) = (\<Sum>v \<in> S \<inter> set ?ns. ?share)"
    by (rule sum.inter_restrict [OF assms(2), symmetric])
  also have "S \<inter> set ?ns = set ?ns" using assms(3) by blast
  finally have "(\<Sum>v \<in> S. if v \<in> set ?ns then ?share else 0) = 1 - cc_alpha cc"
    using False assms(1) by (simp add: distinct_card)
  with False assms show ?thesis by (simp add: buildMeasure_lookup sum.distrib sum.delta)
qed

lemma buildMeasure_nonneg:
  assumes "distinct (gv_Neighbors V u)" and "0 \<le> cc_alpha cc" and "cc_alpha cc \<le> 1"
  shows "0 \<le> lookup0 (buildMeasure cc V u) v"
  using assms by (auto simp: buildMeasure_lookup intro!: add_nonneg_nonneg)

lemma mark_keys_dom:
  "dom (map_of (fold (\<lambda>(nid, _). AList.update nid True) m acc)) = fst ` set m \<union> dom (map_of acc)"
  by (induction m arbitrary: acc) auto

lemma mark_keys_wf:
  "wf_gomap acc \<Longrightarrow> wf_gomap (fold (\<lambda>(nid, _). AList.update nid True) m acc)"
  by (induction m arbitrary: acc) (auto simp: distinct_update)

lemma collect_keys: "fold (\<lambda>(nid, _) out. out @ [nid]) m out = out @ map fst m"
  by (induction m arbitrary: out) auto

lemma support_of_correct:
  "distinct (support_of a b) \<and> sorted (support_of a b) \<and>
   set (support_of a b) = dom (map_of a) \<union> dom (map_of b)"
proof -
  let ?m = "fold (\<lambda>(nid, _). AList.update nid True) b (fold (\<lambda>(nid, _). AList.update nid True) a [])"
  have "support_of a b = sort (map fst ?m)"
    by (simp add: support_of_def Let_def collect_keys sortStrings_def insertion_sort_correct)
  moreover have "wf_gomap ?m" by (intro mark_keys_wf) simp
  moreover have "set (map fst ?m) = dom (map_of a) \<union> dom (map_of b)"
    using mark_keys_dom [of b "fold (\<lambda>(nid, _). AList.update nid True) a []"] mark_keys_dom [of a "[]"]
    by (auto simp: keys_eq_dom [symmetric])
  ultimately show ?thesis by (simp only: distinct_sort sorted_sort set_sort sorted_sort_key simp_thms)
qed

section \<open>The cost matrix\<close>

lemma cost_row_nth:
  assumes "length row = length support" and "j < length support"
  shows "length (cost_row found support i row) = length support"
    and "cost_row found support i row ! j = (if i = j then row ! j
       else case map_of found (support ! j) of Some d \<Rightarrow> real_of_int d | None \<Rightarrow> row ! j)"
proof -
  have "length (fold (\<lambda>j row. if i = j then row
        else case map_of found (support ! j) of Some d \<Rightarrow> row[j := real_of_int d] | None \<Rightarrow> row) [0..<k] row) = length row \<and>
      (\<forall>j < length row. fold (\<lambda>j row. if i = j then row
        else case map_of found (support ! j) of Some d \<Rightarrow> row[j := real_of_int d] | None \<Rightarrow> row) [0..<k] row ! j =
      (if j < k \<and> i \<noteq> j then case map_of found (support ! j) of Some d \<Rightarrow> real_of_int d | None \<Rightarrow> row ! j else row ! j))"
    for k
    by (induction k) (auto split: option.split simp: nth_list_update less_Suc_eq)
  then show "length (cost_row found support i row) = length support"
    and "cost_row found support i row ! j = (if i = j then row ! j
       else case map_of found (support ! j) of Some d \<Rightarrow> real_of_int d | None \<Rightarrow> row ! j)"
    using assms by (simp_all add: cost_row_def)
qed

lemma row_updates:
  "length (fold (\<lambda>i c. c[i := f i (c ! i)]) [0..<k] c) = length c \<and>
   (\<forall>i < length c. fold (\<lambda>i c. c[i := f i (c ! i)]) [0..<k] c ! i = (if i < k then f i (c ! i) else c ! i))"
  by (induction k) (auto simp: nth_list_update less_Suc_eq)

definition hop_cost :: "GraphView \<Rightarrow> string \<Rightarrow> string \<Rightarrow> real \<Rightarrow> bool" where
  "hop_cost V a b c \<longleftrightarrow> (\<exists>k \<le> 4. c = real k \<and> b \<in> layer (gv_Neighbors V) k a) \<or>
     c = 4 \<and> b \<notin> ball (gv_Neighbors V) 4 a"

lemma buildCostMatrix_correct:
  assumes "distinct support"
  shows "\<exists>cost. buildCostMatrix V support = Some cost \<and> length cost = length support \<and>
    (\<forall>i < length support. \<forall>j < length support. hop_cost V (support ! i) (support ! j) (cost ! i ! j))"
proof -
  let ?n = "length support"
  let ?c0 = "map (\<lambda>i. map (\<lambda>j. if i \<noteq> j then 4 else 0 :: real) [0..<?n]) [0..<?n]"
  have "\<exists>F. \<forall>s. bfsDistances V s 4 = Some (F s) \<and> distances_upto V s 4 (F s)"
    using bfsDistances_layers [of V _ 4] by (intro choice) simp
  then obtain F where F: "\<And>s. bfsDistances V s 4 = Some (F s)" "\<And>s. distances_upto V s 4 (F s)" by blast
  let ?cost = "fold (\<lambda>i c. c[i := cost_row (F (support ! i)) support i (c ! i)]) [0..<?n] ?c0"
  have "buildCostMatrix V support = Some ?cost"
    unfolding buildCostMatrix_def Let_def by (rule ofold_cong_Some) (simp add: F(1))
  moreover have "hop_cost V (support ! i) (support ! j) (?cost ! i ! j)" if "i < ?n" "j < ?n" for i j
  proof -
    let ?N = "gv_Neighbors V" and ?a = "support ! i" and ?b = "support ! j"
    have e: "?cost ! i ! j = (if i = j then 0 else case map_of (F ?a) ?b of Some d \<Rightarrow> real_of_int d | None \<Rightarrow> 4)"
      using row_updates [of "\<lambda>i. cost_row (F (support ! i)) support i" ?n ?c0] that
        cost_row_nth(2) [of "?c0 ! i" support j "F ?a" i] by (simp split: option.split)
    show ?thesis
    proof (cases "i = j")
      case True
      then show ?thesis using e by (auto simp: hop_cost_def layer_def intro!: exI [of _ 0])
    next
      case False
      show ?thesis
      proof (cases "map_of (F ?a) ?b")
        case None
        then have "?b \<notin> ball ?N 4 ?a" using distances_upto_dom [OF F(2) [of ?a]] by auto
        with None False e show ?thesis by (simp add: hop_cost_def)
      next
        case (Some d)
        then obtain k where "k \<le> 4" "d = int k" "?b \<in> layer ?N k ?a"
          using F(2) [of ?a] by (auto simp: distances_upto_def)
        with Some False e show ?thesis by (auto simp: hop_cost_def)
      qed
    qed
  qed
  moreover have "length ?cost = ?n"
    using row_updates [of "\<lambda>i. cost_row (F (support ! i)) support i" ?n ?c0] by simp
  ultimately show ?thesis by blast
qed

lemma ball_trans: "v \<in> ball N i u \<Longrightarrow> w \<in> ball N j v \<Longrightarrow> w \<in> ball N (i + j) u"
proof -
  assume "v \<in> ball N i u" and "w \<in> ball N j v"
  then obtain i' j' where "i' \<le> i" "j' \<le> j" "(u, v) \<in> step_rel N ^^ i'" "(v, w) \<in> step_rel N ^^ j'"
    by (auto simp: ball_walks)
  then have "i' + j' \<le> i + j" "(u, w) \<in> step_rel N ^^ (i' + j')" by (auto intro: relpow_trans)
  then show ?thesis unfolding ball_walks by blast
qed

lemma hop_cost_range:
  assumes "hop_cost V a b c"
  shows "0 \<le> c" and "b \<in> ball (gv_Neighbors V) k a \<Longrightarrow> k \<le> 4 \<Longrightarrow> c \<le> real k" and "a = b \<Longrightarrow> c = 0"
proof -
  let ?N = "gv_Neighbors V"
  show nn: "0 \<le> c" using assms unfolding hop_cost_def by (elim disjE exE conjE) simp_all
  have layer_first: "k' \<le> k" if "b \<in> layer ?N k' a" "b \<in> ball ?N k a" for k k'
    using that by (metis ball_walks layer_shortest leI le_less_trans)
  show "c \<le> real k" if b: "b \<in> ball ?N k a" "k \<le> 4"
  proof -
    have "b \<in> ball ?N 4 a" using ball_mono [OF b(2), of ?N a] b(1) by blast
    with assms obtain k' where "c = real k'" "b \<in> layer ?N k' a" unfolding hop_cost_def by blast
    with layer_first [OF _ b(1)] show ?thesis by simp
  qed
  show "c = 0" if "a = b"
  proof -
    have b: "b \<in> ball ?N 0 a" using that by simp
    with ball_mono [of 0 4 ?N a] have "b \<in> ball ?N 4 a" by blast
    with assms obtain k' where "c = real k'" "b \<in> layer ?N k' a" unfolding hop_cost_def by blast
    with layer_first [OF _ b] show ?thesis by simp
  qed
qed

section \<open>Curvature of an edge\<close>

lemma curvature_guard: "0 < n \<Longrightarrow> n < 2 ^ 63 \<Longrightarrow> small_support (exp (- 3 / (1 / 10))) n"
proof -
  assume n: "0 < n" "n < 2 ^ 63"
  have "exp (60 :: real) = exp 1 ^ 60" by (simp add: exp_of_nat_mult [symmetric])
  also have "\<dots> \<le> 3 ^ 60" by (intro power_mono exp_le) simp
  finally have e: "exp (60 :: real) \<le> 3 ^ 60" .
  have sq: "(exp (- 3 / (1 / 10)))\<^sup>2 = 1 / exp (60 :: real)"
    by (simp add: power2_eq_square exp_add [symmetric] exp_minus inverse_eq_divide)
  have "real n < 2 ^ 63" using n(2) by (metis of_nat_less_iff of_nat_numeral of_nat_power)
  then have "exp 60 * real n \<le> 3 ^ 60 * 2 ^ 63" using e by (intro mult_mono) auto
  then have big: "exp 60 * real n < 10 ^ 300" by (rule le_less_trans) simp
  have one: "exp (60::real) < 10 ^ 300" using e by (rule le_less_trans) simp
  have "guard < 1 / (exp 60 * real n)"
    unfolding guard_def using big n by (intro divide_strict_left_mono) auto
  moreover have "guard < 1 / exp 60"
    unfolding guard_def using one by (intro divide_strict_left_mono) auto
  ultimately show ?thesis unfolding small_support_def sq using n(1) by (simp only: divide_divide_eq_left simp_thms)
qed

context graph_view begin

lemma support_within_three:
  assumes g: "invar g" and e: "gv_GetEdge (view g) a b \<noteq> None"
    and x: "x \<in> insert a (set (gv_Neighbors (view g) a)) \<union> insert b (set (gv_Neighbors (view g) b))"
    and y: "y \<in> insert a (set (gv_Neighbors (view g) a)) \<union> insert b (set (gv_Neighbors (view g) b))"
  shows "y \<in> ball (gv_Neighbors (view g)) 3 x"
proof -
  let ?N = "gv_Neighbors (view g)"
  have ab: "b \<in> set (?N a)" using e Neighbors_law [OF g, of a] OutNeighbors_law [OF g, of a] by auto
  then have ba: "a \<in> set (?N b)" by (simp add: Neighbors_symmetric [OF g, of a b])
  have near: "w \<in> ball ?N 1 u \<longleftrightarrow> w = u \<or> w \<in> set (?N u)" for u w by auto
  have sym: "w \<in> ball ?N 1 u \<longleftrightarrow> u \<in> ball ?N 1 w" for u w
    unfolding near using Neighbors_symmetric [OF g, of u w] by auto
  from x have "a \<in> ball ?N 1 x \<or> b \<in> ball ?N 1 x" using sym near by blast
  moreover from y have "y \<in> ball ?N 1 a \<or> y \<in> ball ?N 1 b" using near by blast
  moreover have "a \<in> ball ?N 1 b" "b \<in> ball ?N 1 a" "a \<in> ball ?N 1 a" "b \<in> ball ?N 1 b" using ab ba near by auto
  ultimately have "y \<in> ball ?N (1 + (1 + 1)) x" by (meson ball_trans)
  moreover have "ball ?N 3 x = ball ?N (1 + (1 + 1)) x" by (simp add: numeral_3_eq_3)
  ultimately show ?thesis by (simp del: ball.simps)
qed

lemma Curvature_range:
  assumes g: "invar g" and alpha: "0 \<le> alpha" "alpha \<le> 1" and e: "gv_GetEdge (view g) a b \<noteq> None"
    and count: "gv_NodeCount (view g) < 2 ^ 63"
  shows "\<exists>k. Curvature_Calculate (NewCurvatureCalculator alpha) (view g) a b = Some k \<and> - 2 \<le> k \<and> k \<le> 1"
proof -
  let ?V = "view g" and ?cc = "NewCurvatureCalculator alpha"
  let ?mF = "buildMeasure ?cc ?V a" and ?mT = "buildMeasure ?cc ?V b"
  let ?S = "support_of ?mF ?mT"
  let ?mu = "map (lookup0 ?mF) ?S" and ?nu = "map (lookup0 ?mT) ?S" and ?n = "length ?S"
  have S: "distinct ?S" "set ?S = insert a (set (gv_Neighbors ?V a)) \<union> insert b (set (gv_Neighbors ?V b))"
    using support_of_correct [of ?mF ?mT] by (auto simp: buildMeasure_dom)
  obtain cost where c: "buildCostMatrix ?V ?S = Some cost"
    "\<And>i j. i < ?n \<Longrightarrow> j < ?n \<Longrightarrow> hop_cost ?V (?S ! i) (?S ! j) (cost ! i ! j)"
    using buildCostMatrix_correct [OF S(1)] by blast
  have d: "distinct (gv_Neighbors ?V u)" for u using Neighbors_law [OF g, of u] by simp
  have dist: "prob_vec ?n (map (lookup0 (buildMeasure ?cc ?V u)) ?S)" if "u = a \<or> u = b" for u
  proof -
    have "(\<Sum>i < ?n. lookup0 (buildMeasure ?cc ?V u) (?S ! i)) = (\<Sum>v \<in> set ?S. lookup0 (buildMeasure ?cc ?V u) v)"
      using sum.reindex_bij_betw [OF bij_betw_nth [OF S(1) refl refl]] by simp
    also have "\<dots> = 1" by (rule buildMeasure_sum [OF d]) (use S(2) that in auto)
    finally show ?thesis
      using buildMeasure_nonneg [OF d, of ?cc] alpha by (simp add: prob_vec_def NewCurvatureCalculator_def)
  qed
  have n0: "0 < ?n" using S(2) by (cases ?S) auto
  have ab: "b \<in> set (gv_Neighbors ?V a)" using e Neighbors_law [OF g, of a] OutNeighbors_law [OF g, of a] by auto
  have "set ?S \<subseteq> {u. gv_GetNode ?V u \<noteq> None}"
    unfolding S(2) using neighbour_present [OF g] neighbour_present [OF g ab] by blast
  moreover have "finite {u. gv_GetNode ?V u \<noteq> None}"
    by (rule finite_subset [of _ "n_ID ` set (gv_nodes ?V)"]) (use GetNode_visited [OF g] in auto)
  ultimately have "?n \<le> gv_NodeCount ?V"
    unfolding NodeCount_card [OF g] distinct_card [OF S(1), symmetric] by (intro card_mono)
  then have small: "small_support (exp (- 3 / (1 / 10))) ?n" using n0 count by (intro curvature_guard) auto
  have cost: "0 \<le> cost ! i ! j \<and> cost ! i ! j \<le> 3" if "i < ?n" "j < ?n" for i j
  proof -
    have "?S ! j \<in> ball (gv_Neighbors ?V) 3 (?S ! i)"
      by (rule support_within_three [OF g e]) (use that S(2) nth_mem in blast)+
    with hop_cost_range [OF c(2) [OF that]] show ?thesis by force
  qed
  have diag: "cost ! i ! i = 0" if "i < ?n" for i using hop_cost_range(3) [OF c(2) [OF that that]] by simp
  have "0 \<le> sinkhorn ?mu ?nu cost (1 / 10) 100 \<and> sinkhorn ?mu ?nu cost (1 / 10) 100 \<le> 3"
    by (rule sinkhorn_bounds [OF dist dist small cost diag]) auto
  moreover have "Curvature_Calculate ?cc ?V a b = Some (1 - sinkhorn ?mu ?nu cost (1 / 10) 100)"
    using e c(1) by (auto simp: Curvature_Calculate_def NewCurvatureCalculator_def Let_def)
  ultimately show ?thesis by auto
qed

lemma CalculateAll_curvatures:
  assumes "invar g" and "\<And>u v. gv_GetEdge (view g) u v \<noteq> None \<Longrightarrow> \<exists>k. Curvature_Calculate cc (view g) u v = Some k"
  shows "\<exists>m. Curvature_CalculateAll cc (view g) = Some m \<and>
    (\<forall>u v. map_of m (u, v) = (if gv_GetEdge (view g) u v = None then None else Curvature_Calculate cc (view g) u v))"
proof -
  let ?V = "view g"
  let ?body = "\<lambda>e result. do { c \<leftarrow> Curvature_Calculate cc ?V (e_From e) (e_To e);
     Some (AList.update (e_From e, e_To e) c result) }"
  have "\<exists>m. ofold ?body es m0 = Some m \<and>
      (\<forall>u v. map_of m (u, v) = (if (u, v) \<in> edge_ends ` set es then Curvature_Calculate cc ?V u v else map_of m0 (u, v)))"
    if "set es \<subseteq> set (gv_edges ?V)" for es m0
    using that
  proof (induction es arbitrary: m0)
    case (Cons e es)
    have "gv_GetEdge ?V (e_From e) (e_To e) = Some e"
      using Cons.prems GetEdge_iff [OF assms(1), of "e_From e" "e_To e" e] by (simp add: edge_ends_def)
    then obtain k where k: "Curvature_Calculate cc ?V (e_From e) (e_To e) = Some k" using assms(2) by blast
    from Cons.IH [of "AList.update (e_From e, e_To e) k m0"] Cons.prems k show ?case
      by (fastforce simp: edge_ends_def)
  qed simp
  from this [of "gv_edges ?V" "[]"] obtain m where m: "Curvature_CalculateAll cc ?V = Some m"
    "\<And>u v. map_of m (u, v) = (if (u, v) \<in> edge_ends ` set (gv_edges ?V) then Curvature_Calculate cc ?V u v else None)"
    by (auto simp: Curvature_CalculateAll_def)
  moreover have "(u, v) \<in> edge_ends ` set (gv_edges ?V) \<longleftrightarrow> gv_GetEdge ?V u v \<noteq> None" for u v
    using visited_edges_neighbours [OF assms(1)] OutNeighbors_law [OF assms(1), of u] by simp
  ultimately show ?thesis by auto
qed

end

section \<open>Properties\<close>

text \<open>
  C20. The queue search ends on every graph, and what it returns is exactly the table of shortest
  walks: a node is in it, with number \<open>k\<close>, when the shortest walk from the source to the node has
  length \<open>k\<close> and that is at most the depth limit.
\<close>

theorem bfs_terminates_with_shortest_walks:
  "\<exists>found. bfsDistances V src (int maxDepth) = Some found \<and>
     (\<forall>v d. map_of found v = Some d \<longleftrightarrow> (\<exists>k \<le> maxDepth. d = int k \<and>
        (src, v) \<in> step_rel (gv_Neighbors V) ^^ k \<and> (\<forall>j < k. (src, v) \<notin> step_rel (gv_Neighbors V) ^^ j)))"
  using bfsDistances_layers [of V src maxDepth] by (simp add: distances_upto_def layer_shortest)

theorem bfs_terminates_with_shortest_walks_witness:
  "\<exists>found. bfsDistances (unified_view sample_view) ''a'' 4 = Some found \<and> map_of found ''a'' = Some 0"
  using bfs_terminates_with_shortest_walks [of "unified_view sample_view" "''a''" 4]
  by (auto intro!: exI [of _ 0])

text \<open>
  C21. Curvature of the edges of the unified view, with a laziness between 0 and 1 and fewer than
  \<open>2 ^ 63\<close> nodes (Go's \<open>int\<close>): the calculation returns, for an existing edge a value between -2 and 1
  (the bounds of the exact Ollivier-Ricci curvature, so neither the regularisation nor the skipped
  divisions of Sinkhorn's iteration break them), for an absent edge 0; the measures are probability
  distributions on the node and its neighbours; and \<open>CalculateAll\<close> returns a map with exactly the
  edges of the graph, each with its own curvature.
\<close>

theorem curvature_range:
  assumes "uv_ok v" and "0 \<le> alpha" and "alpha \<le> 1" and "UV_NodeCount v < 2 ^ 63"
    and "cc = NewCurvatureCalculator alpha"
  shows "(UV_GetEdge a b v \<noteq> None \<longrightarrow>
        (\<exists>k. Curvature_Calculate cc (unified_view v) a b = Some k \<and> - 2 \<le> k \<and> k \<le> 1)) \<and>
     (UV_GetEdge a b v = None \<longrightarrow> Curvature_Calculate cc (unified_view v) a b = Some 0) \<and>
     (let m = buildMeasure cc (unified_view v) a in dom (map_of m) = insert a (set (UV_Neighbors a v)) \<and>
        (\<forall>x. 0 \<le> lookup0 m x) \<and> (\<Sum>x \<in> dom (map_of m). lookup0 m x) = 1) \<and>
     (\<exists>m. Curvature_CalculateAll cc (unified_view v) = Some m \<and> (\<forall>a b. map_of m (a, b) =
        (if UV_GetEdge a b v = None then None else Curvature_Calculate cc (unified_view v) a b)))"
proof (intro conjI)
  have range: "\<exists>k. Curvature_Calculate cc (unified_view v) a b = Some k \<and> - 2 \<le> k \<and> k \<le> 1"
    if "UV_GetEdge a b v \<noteq> None" for a b
    unfolding assms(5) by (rule uv_view.Curvature_range) (use assms that in simp_all)
  then show "UV_GetEdge a b v \<noteq> None \<longrightarrow>
      (\<exists>k. Curvature_Calculate cc (unified_view v) a b = Some k \<and> - 2 \<le> k \<and> k \<le> 1)" by blast
  show "UV_GetEdge a b v = None \<longrightarrow> Curvature_Calculate cc (unified_view v) a b = Some 0"
    by (simp add: Curvature_Calculate_def)
  have d: "distinct (gv_Neighbors (unified_view v) a)" using uv_view.Neighbors_law [OF assms(1), of a] by simp
  show "let m = buildMeasure cc (unified_view v) a in dom (map_of m) = insert a (set (UV_Neighbors a v)) \<and>
        (\<forall>x. 0 \<le> lookup0 m x) \<and> (\<Sum>x \<in> dom (map_of m). lookup0 m x) = 1"
    unfolding Let_def buildMeasure_dom unified_view_sel
  proof (intro conjI allI refl)
    have "cc_alpha cc = alpha" by (simp add: assms(5) NewCurvatureCalculator_def)
    then show "0 \<le> lookup0 (buildMeasure cc (unified_view v) a) x" for x
      using buildMeasure_nonneg [OF d] assms(2,3) by simp
    show "(\<Sum>x \<in> insert a (set (UV_Neighbors a v)). lookup0 (buildMeasure cc (unified_view v) a) x) = 1"
      by (rule buildMeasure_sum [OF d]) simp_all
  qed
  show "\<exists>m. Curvature_CalculateAll cc (unified_view v) = Some m \<and> (\<forall>a b. map_of m (a, b) =
        (if UV_GetEdge a b v = None then None else Curvature_Calculate cc (unified_view v) a b))"
    by (rule uv_view.CalculateAll_curvatures [OF assms(1), of cc, unfolded unified_view_sel]) (use range in blast)
qed

theorem curvature_range_witness:
  "\<exists>k. Curvature_Calculate (NewCurvatureCalculator (1 / 2)) (unified_view sample_view) ''a'' ''b'' = Some k \<and>
     - 2 \<le> k \<and> k \<le> 1"
proof -
  have "UV_NodeCount sample_view = 2" and "UV_GetEdge ''a'' ''b'' sample_view \<noteq> None" by code_simp+
  then show ?thesis using curvature_range [OF sample_view_ok _ _ _ refl, of "1 / 2" "''a''" "''b''"] by auto
qed

end
