(* ===== verification/Fiedler_Approx.thy ===== *)
theory Fiedler_Approx
  imports Hops Graph_View
begin

text \<open>
  \<open>FiedlerApprox\<close> of \<open>analysis/laplacian.go\<close>: an estimate of the algebraic connectivity from one
  cut, the first half of a breadth-first order. The search loop is a partial function proved to
  end; the lemmas show that it lists the component of the start node, and count the edges of the
  cut from both sides.
\<close>

section \<open>The estimate\<close>

definition count_in :: "('a, bool) gomap \<Rightarrow> 'a list \<Rightarrow> 'n::{zero, one, plus} \<Rightarrow> 'n" where
  "count_in nodeSet = fold (\<lambda>neighbor d. if has_key nodeSet neighbor then d + 1 else d)"

definition node_set :: "string list \<Rightarrow> (string, bool) gomap" where
  "node_set nodeIDs = fold (\<lambda>nid m. AList.update nid True m) nodeIDs []"

definition max_degree :: "GraphView \<Rightarrow> (string, bool) gomap \<Rightarrow> string list \<Rightarrow> real" where
  "max_degree V nodeSet nodeIDs = fold (\<lambda>nid dMax.
     let d = count_in nodeSet (gv_Neighbors V nid) 0 in if d > dMax then d else dMax) nodeIDs 0"

definition start_node :: "GraphView \<Rightarrow> (string, bool) gomap \<Rightarrow> string list \<Rightarrow> string" where
  "start_node V nodeSet nodeIDs = fst (fold (\<lambda>nid (startNode, maxDeg).
     let d = count_in nodeSet (gv_Neighbors V nid) (0::int)
     in if d > maxDeg then (nid, d) else (startNode, maxDeg)) nodeIDs (hd nodeIDs, 0))"

definition order_visit ::
  "GraphView \<Rightarrow> (string, bool) gomap \<Rightarrow> string \<Rightarrow> (string, bool) gomap \<Rightarrow> string list \<Rightarrow> (string, bool) gomap \<times> string list" where
  "order_visit V nodeSet cur visited queue = fold (\<lambda>neighbor (visited, queue).
     if has_key nodeSet neighbor \<and> \<not> has_key visited neighbor
     then (AList.update neighbor True visited, queue @ [neighbor]) else (visited, queue))
     (gv_Neighbors V cur) (visited, queue)"

partial_function (option) order_loop ::
  "GraphView \<Rightarrow> (string, bool) gomap \<Rightarrow> (string, bool) gomap \<Rightarrow> string list \<Rightarrow> string list \<Rightarrow> string list option" where
  "order_loop V nodeSet visited queue order =
     (if queue = [] then Some order
      else order_loop V nodeSet (fst (order_visit V nodeSet (hd queue) visited (tl queue)))
             (snd (order_visit V nodeSet (hd queue) visited (tl queue))) (order @ [hd queue]))"

definition cut_of :: "GraphView \<Rightarrow> (string, bool) gomap \<Rightarrow> (string, bool) gomap \<Rightarrow> real" where
  "cut_of V nodeSet setS = fold (\<lambda>(nid, _) cut. fold (\<lambda>neighbor cut.
     if has_key nodeSet neighbor \<and> \<not> has_key setS neighbor then cut + 1 else cut) (gv_Neighbors V nid) cut) setS 0"

definition volume_of :: "GraphView \<Rightarrow> (string, bool) gomap \<Rightarrow> (string, bool) gomap \<Rightarrow> real" where
  "volume_of V nodeSet setS =
     fold (\<lambda>(nid, _) vol. count_in nodeSet (gv_Neighbors V nid) vol) setS 0"

definition complement_volume ::
  "GraphView \<Rightarrow> (string, bool) gomap \<Rightarrow> (string, bool) gomap \<Rightarrow> string list \<Rightarrow> real" where
  "complement_volume V nodeSet setS nodeIDs = fold (\<lambda>nid vol.
     if \<not> has_key setS nid then count_in nodeSet (gv_Neighbors V nid) vol else vol) nodeIDs 0"

definition FiedlerApprox :: "GraphView \<Rightarrow> string list \<Rightarrow> real option" where
  "FiedlerApprox V nodeIDs =
     (let n = length nodeIDs in
      if n < 2 then Some 0
      else let nodeSet = node_set nodeIDs; dMax = max_degree V nodeSet nodeIDs in
        if dMax = 0 then Some 0
        else let startNode = start_node V nodeSet nodeIDs in do {
          order \<leftarrow> order_loop V nodeSet (AList.update startNode True []) [startNode] [];
          if length order < n then Some 0
          else let half = (if n div 2 = 0 then 1 else n div 2);
                   setS = fold (\<lambda>i m. AList.update (order ! i) True m) [0..<half] [];
                   cut = cut_of V nodeSet setS;
                   volS = volume_of V nodeSet setS;
                   volComplement = complement_volume V nodeSet setS nodeIDs;
                   minVol = (if volComplement < volS then volComplement else volS)
               in if minVol = 0 then Some 0
                  else let h = cut / minVol in Some (h * h / (2 * dMax))
        })"

section \<open>The loops as counts\<close>

lemma has_key_marks: "has_key (fold (\<lambda>x. AList.update x True) xs m0) k \<longleftrightarrow> k \<in> set xs \<or> has_key m0 k"
  by (induction xs arbitrary: m0) auto

lemma has_key_node_set: "has_key (node_set ids) = (\<lambda>k. k \<in> set ids)"
  by (rule ext) (simp add: node_set_def has_key_marks)

lemma count_in_real: "count_in m xs (d::real) = d + real (length (filter (has_key m) xs))"
  by (induction xs arbitrary: d) (auto simp: count_in_def)

lemma count_in_int: "count_in m xs (d::int) = d + int (length (filter (has_key m) xs))"
  by (induction xs arbitrary: d) (auto simp: count_in_def)

lemma fold_if_max: "fold (\<lambda>x m. let d = f x in if d > m then d else m) xs m = Max (insert m (f ` set xs))"
  for f :: "'a \<Rightarrow> real"
  using fold_max [of "map f xs" m] by (simp add: fold_map comp_def Let_def)

definition inner_degree :: "GraphView \<Rightarrow> string set \<Rightarrow> string \<Rightarrow> nat" where
  "inner_degree V S u = length (filter (\<lambda>w. w \<in> S) (gv_Neighbors V u))"

lemma max_degree_eq: "max_degree V (node_set ids) ids = Max (insert 0 ((\<lambda>u. real (inner_degree V (set ids) u)) ` set ids))"
  using fold_if_max [of "\<lambda>u. count_in (node_set ids) (gv_Neighbors V u) 0" ids 0]
  by (simp add: max_degree_def count_in_real inner_degree_def has_key_node_set)

lemma start_node_in:
  assumes "ids \<noteq> []"
  shows "start_node V m ids \<in> set ids"
proof -
  have "fst (fold (\<lambda>nid (s, d'). let d = count_in m (gv_Neighbors V nid) (0::int)
     in if d > d' then (nid, d) else (s, d')) xs (s, d)) \<in> insert s (set xs)" for xs s d
  proof (induction xs arbitrary: s d)
    case (Cons x xs)
    show ?case using Cons [of x] Cons [of s] by (auto simp: Let_def)
  qed simp
  from this [of ids "hd ids" 0] assms show ?thesis by (auto simp: start_node_def)
qed

lemma cut_of_eq: "cut_of V m s = (\<Sum>(u, _) \<leftarrow> s. real (length (filter (\<lambda>w. has_key m w \<and> \<not> has_key s w) (gv_Neighbors V u))))"
proof -
  have "fold (\<lambda>w c. if has_key m w \<and> \<not> has_key s w then c + 1 else c) xs c =
      c + real (length (filter (\<lambda>w. has_key m w \<and> \<not> has_key s w) xs))" for xs and c :: real
    by (induction xs arbitrary: c) auto
  then have "fold (\<lambda>(u, _) c. fold (\<lambda>w c. if has_key m w \<and> \<not> has_key s w then c + 1 else c) (gv_Neighbors V u) c) ys c =
      c + (\<Sum>(u, _) \<leftarrow> ys. real (length (filter (\<lambda>w. has_key m w \<and> \<not> has_key s w) (gv_Neighbors V u))))" for ys :: "(string \<times> bool) list" and c :: real
    by (induction ys arbitrary: c) auto
  then show ?thesis by (simp add: cut_of_def)
qed

lemma volume_of_eq: "volume_of V m s = (\<Sum>(u, _) \<leftarrow> s. real (length (filter (has_key m) (gv_Neighbors V u))))"
proof -
  have "fold (\<lambda>(u, _) vol. count_in m (gv_Neighbors V u) vol) ys c =
      c + (\<Sum>(u, _) \<leftarrow> ys. real (length (filter (has_key m) (gv_Neighbors V u))))" for ys :: "(string \<times> bool) list" and c :: real
    by (induction ys arbitrary: c) (auto simp: count_in_real)
  then show ?thesis by (simp add: volume_of_def)
qed

lemma complement_volume_eq: "complement_volume V m s ids =
    (\<Sum>u \<leftarrow> filter (\<lambda>u. \<not> has_key s u) ids. real (length (filter (has_key m) (gv_Neighbors V u))))"
proof -
  have "fold (\<lambda>u vol. if \<not> has_key s u then count_in m (gv_Neighbors V u) vol else vol) ys c =
      c + (\<Sum>u \<leftarrow> filter (\<lambda>u. \<not> has_key s u) ys. real (length (filter (has_key m) (gv_Neighbors V u))))" for ys and c :: real
    by (induction ys arbitrary: c) (auto simp: count_in_real)
  then show ?thesis by (simp add: complement_volume_def)
qed

section \<open>The search lists a component\<close>

definition inner_nbrs :: "GraphView \<Rightarrow> string set \<Rightarrow> string \<Rightarrow> string list" where
  "inner_nbrs V S u = filter (\<lambda>w. w \<in> S) (gv_Neighbors V u)"

definition visit_inner ::
  "string list \<Rightarrow> string \<Rightarrow> (string, bool) gomap \<times> string list \<Rightarrow> (string, bool) gomap \<times> string list" where
  "visit_inner ids w = (\<lambda>(vis, q).
     if w \<in> set ids \<and> \<not> has_key vis w then (AList.update w True vis, q @ [w]) else (vis, q))"

lemma visit_inner_loop:
  "fold (visit_inner ids) xs (vis, q) = (vis', q') \<Longrightarrow>
   \<exists>new. q' = q @ new \<and> distinct new \<and> set new = {w \<in> set xs. w \<in> set ids \<and> \<not> has_key vis w} \<and>
      (\<forall>w. has_key vis' w \<longleftrightarrow> has_key vis w \<or> w \<in> set new)"
proof (induction xs arbitrary: vis q)
  case (Cons x xs)
  show ?case
  proof (cases "x \<in> set ids \<and> \<not> has_key vis x")
    case True
    then have "visit_inner ids x (vis, q) = (AList.update x True vis, q @ [x])" by (simp add: visit_inner_def)
    with Cons.prems have "fold (visit_inner ids) xs (AList.update x True vis, q @ [x]) = (vis', q')" by simp
    from Cons.IH [OF this] obtain new where
      "q' = (q @ [x]) @ new" "distinct new" "set new = {w \<in> set xs. w \<in> set ids \<and> \<not> has_key (AList.update x True vis) w}"
      "\<And>w. has_key vis' w \<longleftrightarrow> has_key (AList.update x True vis) w \<or> w \<in> set new" by blast
    with True show ?thesis by (intro exI [of _ "x # new"]) auto
  next
    case False
    then have "visit_inner ids x (vis, q) = (vis, q)" by (auto simp: visit_inner_def)
    with Cons.prems have "fold (visit_inner ids) xs (vis, q) = (vis', q')" by simp
    from Cons.IH [OF this] obtain new where
      "q' = q @ new" "distinct new" "set new = {w \<in> set xs. w \<in> set ids \<and> \<not> has_key vis w}"
      "\<And>w. has_key vis' w \<longleftrightarrow> has_key vis w \<or> w \<in> set new" by blast
    with False show ?thesis by (intro exI [of _ new]) auto
  qed
qed simp

lemma order_visit_eq:
  assumes "order_visit V (node_set ids) u visited queue = (visited', queue')"
  shows "\<exists>new. queue' = queue @ new \<and> distinct new \<and>
    set new = {w \<in> set (inner_nbrs V (set ids) u). \<not> has_key visited w} \<and>
    (\<forall>w. has_key visited' w \<longleftrightarrow> has_key visited w \<or> w \<in> set new)"
  using visit_inner_loop [of ids "gv_Neighbors V u" visited queue visited' queue'] assms
  by (simp add: order_visit_def inner_nbrs_def visit_inner_def [abs_def] has_key_node_set conj_ac)

text \<open>The state of the search: what is known of the visited nodes.\<close>

definition search_ok ::
  "GraphView \<Rightarrow> string list \<Rightarrow> string \<Rightarrow> (string, bool) gomap \<Rightarrow> string list \<Rightarrow> string list \<Rightarrow> bool" where
  "search_ok V ids s visited queue order \<longleftrightarrow>
     (\<forall>w. has_key visited w \<longleftrightarrow> w \<in> set order \<union> set queue) \<and> distinct (order @ queue) \<and>
     s \<in> set order \<union> set queue \<and> set order \<union> set queue \<subseteq> set ids \<and>
     set order \<union> set queue \<subseteq> (step_rel (inner_nbrs V (set ids)))\<^sup>* `` {s} \<and>
     (\<forall>u \<in> set order. set (inner_nbrs V (set ids) u) \<subseteq> set order \<union> set queue)"

lemma search_step:
  assumes "search_ok V ids s visited (u # queue) order"
    and "order_visit V (node_set ids) u visited queue = (visited', queue')"
  shows "search_ok V ids s visited' queue' (order @ [u])"
proof -
  obtain new where new: "queue' = queue @ new" "distinct new"
    "set new = {w \<in> set (inner_nbrs V (set ids) u). \<not> has_key visited w}"
    "\<And>w. has_key visited' w \<longleftrightarrow> has_key visited w \<or> w \<in> set new"
    using order_visit_eq [OF assms(2)] by blast
  have seen: "\<And>w. has_key visited w \<longleftrightarrow> w \<in> set order \<union> set (u # queue)"
    and u: "(s, u) \<in> (step_rel (inner_nbrs V (set ids)))\<^sup>*"
    using assms(1) by (auto simp: search_ok_def)
  have "(s, w) \<in> (step_rel (inner_nbrs V (set ids)))\<^sup>*" if "w \<in> set new" for w
    using u that new(3) by (auto simp: step_rel_def intro: rtrancl_into_rtrancl)
  moreover have "set new \<subseteq> set ids" using new(3) by (auto simp: inner_nbrs_def)
  moreover have "set (inner_nbrs V (set ids) u) \<subseteq> insert u (set order \<union> set queue) \<union> set new"
    using new(3) seen by auto
  moreover have "set new \<inter> (insert u (set order \<union> set queue)) = {}" using new(3) seen by auto
  ultimately show ?thesis
    using assms(1) new(1,2,4) seen unfolding search_ok_def by auto
qed

lemma order_loop_Nil [simp]: "order_loop V m vis [] order = Some order"
  by (subst order_loop.simps) simp

lemma order_loop_Cons: "order_loop V m vis (u # q) order =
    order_loop V m (fst (order_visit V m u vis q)) (snd (order_visit V m u vis q)) (order @ [u])"
  by (subst order_loop.simps) simp

lemma order_loop_ends:
  assumes "search_ok V ids s visited queue order"
  shows "\<exists>result. order_loop V (node_set ids) visited queue order = Some result \<and>
    (\<exists>visited'. search_ok V ids s visited' [] result)"
  using assms
proof (induction "card (set ids) - length order" arbitrary: visited queue order rule: less_induct)
  case less
  show ?case
  proof (cases queue)
    case Nil
    with less.prems show ?thesis by auto
  next
    case (Cons u q)
    obtain vis' q' where st: "order_visit V (node_set ids) u visited q = (vis', q')" by force
    have ok: "search_ok V ids s vis' q' (order @ [u])" by (rule search_step [OF less.prems [unfolded Cons] st])
    have "length (order @ queue) = card (set (order @ queue))"
      using less.prems by (intro distinct_card [symmetric]) (simp add: search_ok_def)
    also have "\<dots> \<le> card (set ids)" using less.prems by (intro card_mono) (auto simp: search_ok_def)
    finally have "card (set ids) - length (order @ [u]) < card (set ids) - length order" using Cons by simp
    from less.hyps [OF this ok] show ?thesis using Cons st by (simp add: order_loop_Cons)
  qed
qed

lemma component_order:
  assumes "s \<in> set ids"
  shows "\<exists>order. order_loop V (node_set ids) (AList.update s True []) [s] [] = Some order \<and> distinct order \<and>
    set order = (step_rel (inner_nbrs V (set ids)))\<^sup>* `` {s} \<and> set order \<subseteq> set ids"
proof -
  let ?R = "step_rel (inner_nbrs V (set ids))"
  have "search_ok V ids s (AList.update s True []) [s] []" using assms by (simp add: search_ok_def has_key_singleton)
  from order_loop_ends [OF this] obtain order vis where
    o: "order_loop V (node_set ids) (AList.update s True []) [s] [] = Some order" "search_ok V ids s vis [] order" by blast
  have "w \<in> set order" if "(s, w) \<in> ?R\<^sup>*" for w
    using that
  proof induction
    case base
    then show ?case using o(2) by (simp add: search_ok_def)
  next
    case (step v w)
    then show ?case using o(2) by (auto simp: search_ok_def step_rel_def)
  qed
  with o show ?thesis by (auto simp: search_ok_def)
qed

section \<open>The cut from both sides\<close>

definition crossing :: "GraphView \<Rightarrow> string set \<Rightarrow> string set \<Rightarrow> nat" where
  "crossing V A B = (\<Sum>u \<in> A. card {w \<in> B. w \<in> set (gv_Neighbors V u)})"

lemma marks_list:
  assumes "distinct order" and "k \<le> length order"
  shows "fold (\<lambda>i m. AList.update (order ! i) True m) [0..<k] [] = map (\<lambda>u. (u, True)) (take k order)"
  using assms(2)
proof (induction k)
  case (Suc k)
  then have "order ! k \<notin> set (take k order)"
    using assms(1) by (auto simp: in_set_conv_nth nth_eq_iff_index_eq)
  then have "map_of (map (\<lambda>u. (u, True)) (take k order)) (order ! k) = None"
    by (auto simp: map_of_eq_None_iff)
  with Suc show ?case by (simp add: update_absent take_Suc_conv_app_nth)
qed simp

lemma map_of_marks: "map_of (map (\<lambda>u. (u, True)) xs) u = (if u \<in> set xs then Some True else None)"
  by (induction xs) auto

lemma crossing_step:
  assumes "(s, t) \<in> R\<^sup>*" and "s \<in> A" and "t \<notin> A"
  shows "\<exists>u w. u \<in> A \<and> w \<notin> A \<and> (u, w) \<in> R"
  using assms by (induction rule: rtrancl_induct) blast+

lemma sum_set_list: "distinct xs \<Longrightarrow> (\<Sum>x \<leftarrow> xs. f x) = (\<Sum>x \<in> set xs. f x :: real)"
  by (rule sum_list_distinct_conv_sum_set)

context graph_view begin

lemma neighbour_count:
  assumes "invar g"
  shows "length (filter P (gv_Neighbors (view g) u)) = card {w. P w \<and> w \<in> set (gv_Neighbors (view g) u)}"
proof -
  have "{w. P w \<and> w \<in> set (gv_Neighbors (view g) u)} = set (filter P (gv_Neighbors (view g) u))" by auto
  moreover have "distinct (filter P (gv_Neighbors (view g) u))" using Neighbors_law [OF assms, of u] by simp
  ultimately show ?thesis by (metis distinct_card)
qed

lemma crossing_swap:
  assumes "invar g" and "finite A" and "finite B"
  shows "crossing (view g) A B = crossing (view g) B A"
proof -
  let ?N = "\<lambda>u. set (gv_Neighbors (view g) u)"
  have c: "card {w \<in> Y. w \<in> ?N u} = (\<Sum>w \<in> Y. if w \<in> ?N u then 1 else 0)" if "finite Y" for u Y
    using that by (simp add: sum.If_cases Int_def)
  have "crossing (view g) A B = (\<Sum>u \<in> A. \<Sum>w \<in> B. if w \<in> ?N u then 1 else 0)"
    unfolding crossing_def by (intro sum.cong refl c assms)
  also have "\<dots> = (\<Sum>w \<in> B. \<Sum>u \<in> A. if w \<in> ?N u then 1 else 0)" by (rule sum.swap)
  also have "\<dots> = (\<Sum>w \<in> B. \<Sum>u \<in> A. if u \<in> ?N w then 1 else 0)"
    by (intro sum.cong refl if_cong Neighbors_symmetric assms)
  also have "\<dots> = crossing (view g) B A"
    unfolding crossing_def by (intro sum.cong refl c [symmetric] assms)
  finally show ?thesis .
qed

lemma crossing_le_degrees:
  assumes "invar g" and "B \<subseteq> S"
  shows "crossing (view g) A B \<le> (\<Sum>u \<in> A. inner_degree (view g) S u)"
  unfolding crossing_def inner_degree_def neighbour_count [OF assms(1)]
  using assms(2) by (intro sum_mono card_mono) auto

lemma inner_symmetric:
  assumes "invar g" and "u \<in> S" and "(u, w) \<in> step_rel (inner_nbrs (view g) S)"
  shows "(w, u) \<in> step_rel (inner_nbrs (view g) S)"
  using assms Neighbors_symmetric [OF assms(1), of u w] by (auto simp: step_rel_def inner_nbrs_def)

lemma inner_symmetric_rtrancl:
  assumes "invar g" and "u \<in> S" and "(u, w) \<in> (step_rel (inner_nbrs (view g) S))\<^sup>*"
  shows "(w, u) \<in> (step_rel (inner_nbrs (view g) S))\<^sup>* \<and> w \<in> S"
  using assms(3)
proof (induction rule: rtrancl_induct)
  case (step v w)
  then have "w \<in> S" by (simp add: step_rel_def inner_nbrs_def)
  with step inner_symmetric [OF assms(1), of v S w] show ?case by (auto intro: converse_rtrancl_into_rtrancl)
qed (use assms(2) in simp)

text \<open>The estimate of a connected set, from the cut of a half of it.\<close>

lemma cut_estimate:
  assumes g: "invar g" and ids: "distinct ids" and order: "distinct order" "set order = set ids"
    and half: "0 < half" "half < length order"
    and conn: "\<And>u w. u \<in> set ids \<Longrightarrow> w \<in> set ids \<Longrightarrow> (u, w) \<in> (step_rel (inner_nbrs (view g) (set ids)))\<^sup>*"
    and s: "setS = map (\<lambda>u. (u, True)) (take half order)"
  shows "0 < cut_of (view g) (node_set ids) setS \<and>
    cut_of (view g) (node_set ids) setS \<le> volume_of (view g) (node_set ids) setS \<and>
    cut_of (view g) (node_set ids) setS \<le> complement_volume (view g) (node_set ids) setS ids"
proof -
  let ?V = "view g" and ?A = "set (take half order)" and ?S = "set ids"
  let ?B = "?S - ?A"
  have key: "has_key setS = (\<lambda>u. u \<in> ?A)"
  proof (rule ext)
    fix u
    have "map_of setS u = (if u \<in> ?A then Some True else None)"
      unfolding s by (rule map_of_marks)
    then show "has_key setS u = (u \<in> ?A)" by (simp add: has_key_def)
  qed
  have A: "?A \<subseteq> ?S" using set_take_subset [of half order] order(2) by simp
  have cut: "cut_of ?V (node_set ids) setS = real (crossing ?V ?A ?B)"
  proof -
    have "cut_of ?V (node_set ids) setS =
        (\<Sum>u \<leftarrow> take half order. real (card {w. (w \<in> ?S \<and> w \<notin> ?A) \<and> w \<in> set (gv_Neighbors ?V u)}))"
      unfolding cut_of_eq key has_key_node_set neighbour_count [OF g] by (simp add: s comp_def)
    also have "\<dots> = (\<Sum>u \<in> ?A. real (card {w. (w \<in> ?S \<and> w \<notin> ?A) \<and> w \<in> set (gv_Neighbors ?V u)}))"
      using order(1) by (intro sum_set_list) simp
    also have "\<dots> = real (crossing ?V ?A ?B)" unfolding crossing_def by simp
    finally show ?thesis .
  qed
  have "volume_of ?V (node_set ids) setS = (\<Sum>u \<leftarrow> take half order. real (inner_degree ?V ?S u))"
    by (simp add: volume_of_eq has_key_node_set s comp_def inner_degree_def)
  also have "\<dots> = (\<Sum>u \<in> ?A. real (inner_degree ?V ?S u))" using order(1) by (intro sum_set_list) simp
  also have "\<dots> = real (\<Sum>u \<in> ?A. inner_degree ?V ?S u)" by simp
  finally have volS: "cut_of ?V (node_set ids) setS \<le> volume_of ?V (node_set ids) setS"
    using crossing_le_degrees [OF g, of ?B ?S ?A] by (simp only: cut of_nat_le_iff) blast
  have "complement_volume ?V (node_set ids) setS ids =
      (\<Sum>u \<leftarrow> filter (\<lambda>u. u \<notin> ?A) ids. real (inner_degree ?V ?S u))"
    by (simp add: complement_volume_eq key has_key_node_set inner_degree_def)
  also have "\<dots> = (\<Sum>u \<in> set (filter (\<lambda>u. u \<notin> ?A) ids). real (inner_degree ?V ?S u))"
    using ids by (intro sum_set_list) simp
  also have "set (filter (\<lambda>u. u \<notin> ?A) ids) = ?B" by auto
  also have "(\<Sum>u \<in> ?B. real (inner_degree ?V ?S u)) = real (\<Sum>u \<in> ?B. inner_degree ?V ?S u)" by simp
  finally have volC: "cut_of ?V (node_set ids) setS \<le> complement_volume ?V (node_set ids) setS ids"
    using crossing_le_degrees [OF g A, of ?B] crossing_swap [OF g, of ?A ?B] by (simp only: cut of_nat_le_iff) simp
  have "order ! 0 \<in> ?A" using half by (auto simp: in_set_conv_nth)
  moreover have "order ! half \<notin> ?A"
    using half order by (auto simp: in_set_conv_nth nth_eq_iff_index_eq)
  moreover have "order ! half \<in> ?S" using half(2) order(2) nth_mem by blast
  ultimately obtain u w where e: "u \<in> ?A" "w \<notin> ?A" "(u, w) \<in> step_rel (inner_nbrs ?V ?S)"
    using crossing_step [OF conn [of "order ! 0" "order ! half"]] A by blast
  then have "w \<in> {w \<in> ?B. w \<in> set (gv_Neighbors ?V u)}" by (auto simp: step_rel_def inner_nbrs_def)
  then have "0 < card {w \<in> ?B. w \<in> set (gv_Neighbors ?V u)}" by (auto simp: card_gt_0_iff)
  also have "\<dots> \<le> crossing ?V ?A ?B" unfolding crossing_def by (rule member_le_sum [OF e(1)]) auto
  finally show ?thesis using volS volC by (simp add: cut)
qed

lemma estimate_bounds: "0 < (x::real) \<Longrightarrow> x \<le> 1 \<Longrightarrow> 1 \<le> d \<Longrightarrow> 0 < x / (2 * d) \<and> x / (2 * d) \<le> 1 / 2"
  by (simp add: divide_le_eq)

lemma FiedlerApprox_connected:
  assumes g: "invar g" and ids: "distinct ids"
  shows "\<exists>r. FiedlerApprox (view g) ids = Some r \<and> 0 \<le> r \<and> r \<le> 1 / 2 \<and>
    (0 < r \<longleftrightarrow> 2 \<le> length ids \<and> (\<forall>u \<in> set ids. \<forall>w \<in> set ids. (u, w) \<in> (step_rel (inner_nbrs (view g) (set ids)))\<^sup>*))"
proof -
  let ?V = "view g" and ?R = "step_rel (inner_nbrs (view g) (set ids))" and ?m = "node_set ids"
  let ?conn = "\<forall>u \<in> set ids. \<forall>w \<in> set ids. (u, w) \<in> ?R\<^sup>*"
  let ?dMax = "max_degree ?V ?m ids"
  have deg: "real (inner_degree ?V (set ids) u) \<le> ?dMax" if "u \<in> set ids" for u
    using that by (simp add: max_degree_eq)
  show ?thesis
  proof (cases "2 \<le> length ids")
    case False
    then show ?thesis by (simp add: FiedlerApprox_def)
  next
    case n: True
    then have ne: "ids \<noteq> []" by auto
    let ?s = "start_node ?V ?m ids"
    have s: "?s \<in> set ids" by (rule start_node_in [OF ne])
    show ?thesis
    proof (cases "?dMax = 0")
      case zero: True
      have "\<not> ?conn"
      proof
        assume c: ?conn
        have len: "0 < length ids" "1 < length ids" using n by linarith+
        then have "ids ! 0 \<noteq> ids ! 1" using nth_eq_iff_index_eq [OF ids] by force
        moreover have "ids ! 0 \<in> set ids" "ids ! 1 \<in> set ids" using len by (auto intro: nth_mem)
        ultimately obtain y where "(ids ! 0, y) \<in> ?R" using c by (metis converse_rtranclE)
        then have "inner_degree ?V (set ids) (ids ! 0) \<noteq> 0"
          by (auto simp: inner_degree_def step_rel_def inner_nbrs_def filter_empty_conv)
        with deg [OF \<open>ids ! 0 \<in> set ids\<close>] zero show False by simp
      qed
      with zero n show ?thesis by (simp add: FiedlerApprox_def Let_def)
    next
      case pos: False
      obtain order where o: "order_loop ?V ?m (AList.update ?s True []) [?s] [] = Some order"
        "distinct order" "set order = ?R\<^sup>* `` {?s}" "set order \<subseteq> set ids"
        using component_order [OF s] by blast
      have all: "length order < length ids \<longleftrightarrow> \<not> ?conn"
      proof -
        have "length order < length ids \<longleftrightarrow> set order \<noteq> set ids"
          using o(2,4) ids distinct_card [OF o(2)] distinct_card [OF ids]
          by (metis List.finite_set card_subset_eq psubset_card_mono less_irrefl psubsetI)
        moreover have "set order = set ids \<longleftrightarrow> ?conn"
        proof
          assume "set order = set ids"
          then have r: "(?s, u) \<in> ?R\<^sup>*" if "u \<in> set ids" for u using o(3) that by auto
          then show ?conn using inner_symmetric_rtrancl [OF g s] by (blast intro: rtrancl_trans)
        next
          assume ?conn
          then show "set order = set ids" using o(3,4) s by auto
        qed
        ultimately show ?thesis by simp
      qed
      show ?thesis
      proof (cases ?conn)
        case False
        then have "FiedlerApprox ?V ids = Some 0"
          using n pos o(1) all by (simp add: FiedlerApprox_def Let_def)
        with False show ?thesis by auto
      next
        case True
        let ?half = "length ids div 2"
        let ?setS = "map (\<lambda>u. (u, True)) (take ?half order)"
        have "set order = set ids" using True o(3,4) s by auto
        then have len: "length order = length ids" "set order = set ids"
          using distinct_card [OF o(2)] distinct_card [OF ids] by simp_all
        have half: "0 < ?half" "?half < length order" using n len(1) by linarith+
        let ?cut = "cut_of ?V ?m ?setS" and ?vS = "volume_of ?V ?m ?setS" and ?vC = "complement_volume ?V ?m ?setS ids"
        have c: "0 < ?cut \<and> ?cut \<le> ?vS \<and> ?cut \<le> ?vC"
          by (rule cut_estimate [OF g ids o(2) len(2) half _ refl]) (use True in blast)
        let ?min = "if ?vC < ?vS then ?vC else ?vS"
        have min: "0 < ?min" "?cut \<le> ?min" using c by auto
        have marks: "fold (\<lambda>i m. AList.update (order ! i) True m) [0..<?half] [] = ?setS"
          using half by (intro marks_list [OF o(2)]) simp
        have h0: "?half \<noteq> 0" using half(1) by simp
        have nl: "\<not> length order < length ids" "\<not> length ids < 2" using len n by simp_all
        have "FiedlerApprox ?V ids = Some (?cut / ?min * (?cut / ?min) / (2 * ?dMax))"
          unfolding FiedlerApprox_def Let_def if_not_P [OF nl(2)] if_not_P [OF pos] o(1) Option.bind.simps
            if_not_P [OF nl(1)] if_not_P [OF h0] marks
          using min(1) by (simp only: less_irrefl if_False if_not_P less_imp_neq [symmetric] refl)
        moreover have "1 \<le> ?dMax"
        proof -
          have "?dMax \<in> insert 0 ((\<lambda>u. real (inner_degree ?V (set ids) u)) ` set ids)"
            unfolding max_degree_eq by (rule Max_in) auto
          with pos show ?thesis by auto
        qed
        moreover have "0 < ?cut / ?min" "?cut / ?min \<le> 1" using c min by (simp_all add: divide_le_eq)
        then have "0 < ?cut / ?min * (?cut / ?min)" "?cut / ?min * (?cut / ?min) \<le> 1"
          by (simp_all only: mult_pos_pos mult_le_one less_imp_le)
        ultimately obtain r where "FiedlerApprox ?V ids = Some r" "0 < r" "r \<le> 1 / 2"
          using estimate_bounds by blast
        with True n show ?thesis by auto
      qed
    qed
  qed
qed

end

section \<open>Properties\<close>

text \<open>
  C22. On a view and a list of distinct nodes, \<open>FiedlerApprox\<close> returns (its search ends) a value
  between 0 and 1/2, and the value is positive exactly when there are at least two nodes and the
  subgraph they induce is connected.
\<close>

theorem FiedlerApprox_detects_connectivity:
  assumes "uv_ok v" and "distinct nodeIDs"
    and "R = {(a, b). b \<in> set (UV_Neighbors a v) \<and> b \<in> set nodeIDs}"
  shows "\<exists>r. FiedlerApprox (unified_view v) nodeIDs = Some r \<and> 0 \<le> r \<and> r \<le> 1 / 2 \<and>
     (0 < r \<longleftrightarrow> 2 \<le> length nodeIDs \<and> (\<forall>a \<in> set nodeIDs. \<forall>b \<in> set nodeIDs. (a, b) \<in> R\<^sup>*))"
proof -
  have "step_rel (inner_nbrs (unified_view v) (set nodeIDs)) = R"
    unfolding assms(3) by (auto simp: step_rel_def inner_nbrs_def)
  with uv_view.FiedlerApprox_connected [OF assms(1,2)] show ?thesis by simp
qed

theorem FiedlerApprox_detects_connectivity_witness:
  "\<exists>r. FiedlerApprox (unified_view sample_view) [''a'', ''b''] = Some r \<and> 0 < r"
proof -
  let ?R = "{(a, b). b \<in> set (UV_Neighbors a sample_view) \<and> b \<in> set [''a'', ''b'']}"
  have "''b'' \<in> set (UV_Neighbors ''a'' sample_view)" "''a'' \<in> set (UV_Neighbors ''b'' sample_view)" by code_simp+
  then have "(''a'', ''b'') \<in> ?R\<^sup>*" "(''b'', ''a'') \<in> ?R\<^sup>*" by (auto intro: r_into_rtrancl)
  then have "\<forall>a \<in> set [''a'', ''b'']. \<forall>b \<in> set [''a'', ''b'']. (a, b) \<in> ?R\<^sup>*" by auto
  with FiedlerApprox_detects_connectivity [OF sample_view_ok _ refl, of "[''a'', ''b'']"] show ?thesis by auto
qed

end
