(* ===== verification/Laplacian.thy ===== *)
theory Laplacian
  imports Graph_View
begin

text \<open>
  \<open>FiedlerValue\<close> of \<open>analysis/laplacian.go\<close>: inverse iteration on the Laplacian of a node list,
  with Jacobi sweeps as the inner solver. The sparse matrix is the list of degrees and the list of
  the off-diagonal maps; vectors are lists. The start vector comes from \<open>math/rand\<close>, whose values
  are an argument. The lemmas give the matrix entry by entry, the operator and its quadratic form.
\<close>

section \<open>Building the matrix\<close>

definition index_map :: "string list \<Rightarrow> (string, nat) gomap" where
  "index_map nodeIDs = fold (\<lambda>(i, nid) m. AList.update nid i m) (zip [0..<length nodeIDs] nodeIDs) []"

definition link_weight :: "GraphView \<Rightarrow> string \<Rightarrow> string \<Rightarrow> real" where
  "link_weight V nid neighbor = (case gv_GetEdge V nid neighbor of
     Some e \<Rightarrow> if e_Weight e \<le> 0 then 1 else e_Weight e | None \<Rightarrow> 1)"

definition add_neighbor ::
  "GraphView \<Rightarrow> (string, nat) gomap \<Rightarrow> nat \<Rightarrow> string \<Rightarrow> string \<Rightarrow>
   real list \<times> (nat, real) gomap list \<Rightarrow> real list \<times> (nat, real) gomap list" where
  "add_neighbor V idx i nid neighbor = (\<lambda>(degree, adj). case map_of idx neighbor of
     None \<Rightarrow> (degree, adj)
   | Some j \<Rightarrow>
       if i = j then (degree, adj)
       else let w = link_weight V nid neighbor
            in (degree[i := degree ! i + w],
                adj[i := AList.update j (lookup0 (adj ! i) j + w) (adj ! i)]))"

definition build_laplacian :: "GraphView \<Rightarrow> string list \<Rightarrow> real list \<times> (nat, real) gomap list" where
  "build_laplacian V nodeIDs =
     (let n = length nodeIDs; idx = index_map nodeIDs
      in fold (\<lambda>(i, nid) st. fold (add_neighbor V idx i nid) (gv_Neighbors V nid) st)
           (zip [0..<n] nodeIDs) (replicate n 0, replicate n []))"

section \<open>Vector operations\<close>

definition jacobi_sweep :: "real list \<Rightarrow> (nat, real) gomap list \<Rightarrow> real list \<Rightarrow> nat \<Rightarrow> real list \<Rightarrow> real list" where
  "jacobi_sweep degree adj b n x = map (\<lambda>i.
     if degree ! i = 0 then 0
     else let sum = fold (\<lambda>(j, w) acc. acc + w * x ! j) (adj ! i) 0 in (b ! i + sum) / degree ! i) [0..<n]"

definition jacobiSolveLaplacian ::
  "real list \<Rightarrow> (nat, real) gomap list \<Rightarrow> real list \<Rightarrow> nat \<Rightarrow> nat \<Rightarrow> real list" where
  "jacobiSolveLaplacian degree adj b n maxIter =
     (jacobi_sweep degree adj b n ^^ maxIter) (map (\<lambda>i. if degree ! i > 0 then b ! i / degree ! i else 0) [0..<n])"

definition laplacianMultiply :: "real list \<Rightarrow> (nat, real) gomap list \<Rightarrow> real list \<Rightarrow> nat \<Rightarrow> real list" where
  "laplacianMultiply degree adj x n =
     map (\<lambda>i. fold (\<lambda>(j, w) y. y - w * x ! j) (adj ! i) (degree ! i * x ! i)) [0..<n]"

definition laplacianOrthogonalize :: "real list \<Rightarrow> real list" where
  "laplacianOrthogonalize v =
     (let mean = fold (\<lambda>x sum. sum + x) v 0 / real (length v) in map (\<lambda>x. x - mean) v)"

definition laplacianNormalize :: "real list \<Rightarrow> real list \<times> real" where
  "laplacianNormalize v =
     (let norm = sqrt (fold (\<lambda>x acc. acc + x * x) v 0)
      in if norm = 0 then (v, 0) else (map (\<lambda>x. x / norm) v, norm))"

definition laplacianDot :: "real list \<Rightarrow> real list \<Rightarrow> real" where
  "laplacianDot a b = fold (\<lambda>i sum. sum + a ! i * b ! i) [0..<length a] 0"

section \<open>The iteration\<close>

text \<open>\<open>None\<close> is the early return of the degenerate case.\<close>

fun inverse_iteration ::
  "real list \<Rightarrow> (nat, real) gomap list \<Rightarrow> nat \<Rightarrow> real \<Rightarrow> nat \<Rightarrow> bool \<Rightarrow> real \<Rightarrow> real list \<Rightarrow> real option" where
  "inverse_iteration degree adj n tol 0 first lambda v = Some lambda"
| "inverse_iteration degree adj n tol (Suc k) first lambda v =
     (let (x, norm) = laplacianNormalize (laplacianOrthogonalize (jacobiSolveLaplacian degree adj v n 50))
      in if norm < 1 / 10 ^ 15 then None
         else let newLambda = laplacianDot x (laplacianMultiply degree adj x n)
              in if \<not> first \<and> \<bar>newLambda - lambda\<bar> < tol then Some newLambda
                 else inverse_iteration degree adj n tol k False newLambda x)"

definition FiedlerValue :: "(nat \<Rightarrow> real) \<Rightarrow> GraphView \<Rightarrow> string list \<Rightarrow> int \<Rightarrow> real \<Rightarrow> real" where
  "FiedlerValue rng V nodeIDs maxIter tol =
     (let n = length nodeIDs in
      if n < 2 then 0
      else let (degree, adj) = build_laplacian V nodeIDs in
        if \<exists>i \<in> set [0..<n]. degree ! i = 0 then 0
        else let v = fst (laplacianNormalize (laplacianOrthogonalize (map (\<lambda>i. rng i - 1 / 2) [0..<n])))
             in case inverse_iteration degree adj n tol (nat maxIter) True 0 v of
                  None \<Rightarrow> 0
                | Some lambda \<Rightarrow> if lambda < 1 / 10 ^ 12 then 0 else lambda)"

section \<open>The matrix entry by entry\<close>

text \<open>The nodes of the list that are neighbours of node \<open>i\<close>, other than itself.\<close>

definition linked :: "GraphView \<Rightarrow> string list \<Rightarrow> nat \<Rightarrow> nat set" where
  "linked V ids i = {j. j < length ids \<and> j \<noteq> i \<and> ids ! j \<in> set (gv_Neighbors V (ids ! i))}"

definition entry :: "GraphView \<Rightarrow> string list \<Rightarrow> nat \<Rightarrow> nat \<Rightarrow> real" where
  "entry V ids i j = (if j \<in> linked V ids i then link_weight V (ids ! i) (ids ! j) else 0)"

lemma finite_linked [simp]: "finite (linked V ids i)"
  by (simp add: linked_def)

lemma link_weight_pos: "0 < link_weight V u w"
  by (simp add: link_weight_def split: option.split)

lemma index_map_lookup:
  "distinct ids \<Longrightarrow> map_of (index_map ids) u = Some j \<longleftrightarrow> j < length ids \<and> ids ! j = u"
  by (simp add: index_map_def enumerate_lookup)

definition row_step ::
  "GraphView \<Rightarrow> (string, nat) gomap \<Rightarrow> nat \<Rightarrow> string \<Rightarrow> string \<Rightarrow> real \<times> (nat, real) gomap \<Rightarrow> real \<times> (nat, real) gomap" where
  "row_step V idx i nid nb = (\<lambda>(d, m). case map_of idx nb of
     None \<Rightarrow> (d, m)
   | Some j \<Rightarrow> if i = j then (d, m) else (d + link_weight V nid nb, AList.update j (lookup0 m j + link_weight V nid nb) m))"

lemma add_neighbors_row:
  "i < length degree \<Longrightarrow> i < length adj \<Longrightarrow>
   fold (add_neighbor V idx i nid) nbs (degree, adj) =
     (degree[i := fst (fold (row_step V idx i nid) nbs (degree ! i, adj ! i))],
      adj[i := snd (fold (row_step V idx i nid) nbs (degree ! i, adj ! i))])"
proof (induction nbs arbitrary: degree adj)
  case (Cons nb nbs)
  have "add_neighbor V idx i nid nb (degree, adj) =
      (degree[i := fst (row_step V idx i nid nb (degree ! i, adj ! i))],
       adj[i := snd (row_step V idx i nid nb (degree ! i, adj ! i))])"
    by (simp add: add_neighbor_def row_step_def Let_def split: option.split)
  with Cons show ?case by simp
qed simp

lemma row_loop:
  assumes "distinct ids" and "distinct nbs"
    and "\<And>j. j < length ids \<Longrightarrow> ids ! j \<in> set nbs \<Longrightarrow> map_of m j = None" and "wf_gomap m"
    and "J = {j. j < length ids \<and> j \<noteq> i \<and> ids ! j \<in> set nbs}"
    and "fold (row_step V (index_map ids) i nid) nbs (d, m) = (d', m')"
  shows "d' = d + (\<Sum>j \<in> J. link_weight V nid (ids ! j)) \<and> wf_gomap m' \<and>
    (\<forall>j. map_of m' j = (if j \<in> J then Some (link_weight V nid (ids ! j)) else map_of m j))"
  using assms(2-)
proof (induction nbs arbitrary: d m J)
  case (Cons nb nbs)
  let ?J' = "{j. j < length ids \<and> j \<noteq> i \<and> ids ! j \<in> set nbs}"
  show ?case
  proof (cases "\<exists>k. map_of (index_map ids) nb = Some k \<and> k \<noteq> i")
    case True
    then obtain k where k: "map_of (index_map ids) nb = Some k" "k \<noteq> i" by blast
    then have kn: "k < length ids" "ids ! k = nb" by (simp_all add: index_map_lookup [OF assms(1)])
    have J: "J = insert k ?J'" "k \<notin> ?J'"
      using kn k(2) Cons.prems(1,4) assms(1) by (auto simp: nth_eq_iff_index_eq)
    have mk: "map_of m k = None" using Cons.prems(2) kn by simp
    have one: "row_step V (index_map ids) i nid nb (d, m) =
        (d + link_weight V nid nb, AList.update k (link_weight V nid nb) m)"
      using k mk by (auto simp: row_step_def lookup0_def)
    have st: "fold (row_step V (index_map ids) i nid) nbs (d + link_weight V nid nb, AList.update k (link_weight V nid nb) m) = (d', m')"
      using Cons.prems(5) one by simp
    have fresh: "map_of (AList.update k (link_weight V nid nb) m) j = None" if "j < length ids" "ids ! j \<in> set nbs" for j
    proof -
      have "j \<noteq> k" using that kn Cons.prems(1) by auto
      then show ?thesis using Cons.prems(2) that by simp
    qed
    from Cons.IH [OF _ fresh _ refl st] Cons.prems(1,3) J kn show ?thesis by auto
  next
    case False
    then have "row_step V (index_map ids) i nid nb (d, m) = (d, m)" by (auto simp: row_step_def split: option.split)
    moreover have "J = ?J'"
      using False Cons.prems(4) index_map_lookup [OF assms(1), of nb] by auto
    ultimately show ?thesis using Cons.IH [of m J d] Cons.prems by simp
  qed
qed simp

definition laplacian_ok :: "GraphView \<Rightarrow> string list \<Rightarrow> real list \<Rightarrow> (nat, real) gomap list \<Rightarrow> nat \<Rightarrow> bool" where
  "laplacian_ok V ids degree adj k \<longleftrightarrow> length degree = length ids \<and> length adj = length ids \<and>
     (\<forall>i < length ids. if i < k then degree ! i = (\<Sum>j < length ids. entry V ids i j) \<and> wf_gomap (adj ! i) \<and>
        (\<forall>j. map_of (adj ! i) j = (if j \<in> linked V ids i then Some (entry V ids i j) else None))
      else degree ! i = 0 \<and> adj ! i = [])"

lemma sum_linked: "(\<Sum>j \<in> linked V ids i. entry V ids i j * f j) = (\<Sum>j < length ids. entry V ids i j * f j)"
  by (rule sum.mono_neutral_left) (auto simp: linked_def entry_def)

lemma build_laplacian_ok:
  assumes "distinct ids" and "\<And>u. distinct (gv_Neighbors V u)"
  shows "laplacian_ok V ids (fst (build_laplacian V ids)) (snd (build_laplacian V ids)) (length ids)"
proof -
  let ?st = "\<lambda>k. fold (\<lambda>(i, nid) st. fold (add_neighbor V (index_map ids) i nid) (gv_Neighbors V nid) st)
      (zip [0..<k] (take k ids)) (replicate (length ids) 0, replicate (length ids) [])"
  have "laplacian_ok V ids (fst (?st k)) (snd (?st k)) k" if "k \<le> length ids" for k
    using that
  proof (induction k)
    case 0
    then show ?case by (simp add: laplacian_ok_def)
  next
    case (Suc k)
    let ?d = "fst (?st k)" and ?a = "snd (?st k)"
    have IH: "laplacian_ok V ids ?d ?a k" using Suc by simp
    then have len: "length ?d = length ids" "length ?a = length ids" and start: "?d ! k = 0" "?a ! k = []"
      using Suc.prems by (auto simp: laplacian_ok_def)
    obtain d m where dm: "fold (row_step V (index_map ids) k (ids ! k)) (gv_Neighbors V (ids ! k)) (0, []) = (d, m)" by force
    have "zip [0..<Suc k] (take (Suc k) ids) = zip [0..<k] (take k ids) @ [(k, ids ! k)]"
      using Suc.prems by (simp add: take_Suc_conv_app_nth)
    then have "?st (Suc k) = fold (add_neighbor V (index_map ids) k (ids ! k)) (gv_Neighbors V (ids ! k)) (?d, ?a)" by simp
    also have "\<dots> = (?d[k := d], ?a[k := m])"
      using add_neighbors_row [of k ?d ?a V "index_map ids" "ids ! k" "gv_Neighbors V (ids ! k)"] Suc.prems len start dm by simp
    finally have st: "?st (Suc k) = (?d[k := d], ?a[k := m])" .
    have row: "d = 0 + (\<Sum>j \<in> linked V ids k. link_weight V (ids ! k) (ids ! j)) \<and> wf_gomap m \<and>
        (\<forall>j. map_of m j = (if j \<in> linked V ids k then Some (link_weight V (ids ! k) (ids ! j)) else map_of [] j))"
      by (rule row_loop [OF assms(1) assms(2) _ _ _ dm]) (auto simp: linked_def)
    have "(\<Sum>j \<in> linked V ids k. link_weight V (ids ! k) (ids ! j)) = (\<Sum>j < length ids. entry V ids k j)"
      using sum_linked [of V ids k "\<lambda>_. 1"] by (simp add: entry_def)
    with row IH show ?case unfolding st laplacian_ok_def
      by (auto simp: nth_list_update less_Suc_eq entry_def)
  qed
  from this [of "length ids"] show ?thesis by (simp add: build_laplacian_def Let_def)
qed

section \<open>The operator\<close>

lemma fold_sub_map: "fold (\<lambda>(k, v) y. y - f k v) m y = y - (\<Sum>(k, v) \<leftarrow> m. f k v :: real)"
  by (induction m arbitrary: y) auto

lemma multiply_nth:
  assumes ok: "laplacian_ok V ids degree adj (length ids)" and i: "i < length ids"
  shows "laplacianMultiply degree adj x (length ids) ! i = (\<Sum>j < length ids. entry V ids i j * (x ! i - x ! j))"
proof -
  have a: "degree ! i = (\<Sum>j < length ids. entry V ids i j)" "wf_gomap (adj ! i)"
    "\<And>j. map_of (adj ! i) j = (if j \<in> linked V ids i then Some (entry V ids i j) else None)"
    using ok i by (auto simp: laplacian_ok_def)
  have "dom (map_of (adj ! i)) = linked V ids i" by (auto simp: a(3) dom_def)
  then have "(\<Sum>(j, w) \<leftarrow> adj ! i. w * x ! j) = (\<Sum>j \<in> linked V ids i. entry V ids i j * x ! j)"
    using gomap_sum [OF a(2), of "\<lambda>j w. w * x ! j"] by (simp add: a(3))
  then have "(\<Sum>(j, w) \<leftarrow> adj ! i. w * x ! j) = (\<Sum>j < length ids. entry V ids i j * x ! j)"
    by (simp add: sum_linked)
  then have "laplacianMultiply degree adj x (length ids) ! i =
      (\<Sum>j < length ids. entry V ids i j) * x ! i - (\<Sum>j < length ids. entry V ids i j * x ! j)"
    using i fold_sub_map [of "\<lambda>j w. w * x ! j" "adj ! i"] by (simp add: laplacianMultiply_def a(1))
  then show ?thesis by (simp add: sum_distrib_right right_diff_distrib sum_subtractf)
qed

lemma multiply_constant:
  assumes "laplacian_ok V ids degree adj (length ids)"
  shows "laplacianMultiply degree adj (replicate (length ids) c) (length ids) = replicate (length ids) 0"
proof (rule nth_equalityI)
  show len: "length (laplacianMultiply degree adj (replicate (length ids) c) (length ids)) = length (replicate (length ids) (0::real))"
    by (simp add: laplacianMultiply_def)
  show "laplacianMultiply degree adj (replicate (length ids) c) (length ids) ! i = replicate (length ids) 0 ! i"
    if "i < length (laplacianMultiply degree adj (replicate (length ids) c) (length ids))" for i
    using that len by (simp add: multiply_nth [OF assms])
qed

lemma dot_eq: "laplacianDot a b = (\<Sum>i < length a. a ! i * b ! i)"
  by (simp add: laplacianDot_def loop_simps sum_list_distinct_conv_sum_set lessThan_atLeast0)

text \<open>With symmetric entries the quadratic form is a sum of squares.\<close>

lemma quadratic_form:
  assumes ok: "laplacian_ok V ids degree adj (length ids)" and x: "length x = length ids"
    and sym: "\<And>i j. i < length ids \<Longrightarrow> j < length ids \<Longrightarrow> entry V ids i j = entry V ids j i"
  shows "2 * laplacianDot x (laplacianMultiply degree adj x (length ids)) =
    (\<Sum>i < length ids. \<Sum>j < length ids. entry V ids i j * (x ! i - x ! j)\<^sup>2)"
proof -
  let ?n = "length ids" and ?a = "entry V ids"
  let ?q = "\<Sum>i < ?n. \<Sum>j < ?n. x ! i * (?a i j * (x ! i - x ! j))"
  have q: "laplacianDot x (laplacianMultiply degree adj x ?n) = ?q"
    by (simp add: dot_eq x multiply_nth [OF ok] sum_distrib_left)
  have "?q = (\<Sum>j < ?n. \<Sum>i < ?n. x ! i * (?a i j * (x ! i - x ! j)))" by (rule sum.swap)
  also have "\<dots> = (\<Sum>i < ?n. \<Sum>j < ?n. x ! j * (?a i j * (x ! j - x ! i)))"
    by (intro sum.cong refl) (simp add: sym)
  finally have "2 * ?q = ?q + (\<Sum>i < ?n. \<Sum>j < ?n. x ! j * (?a i j * (x ! j - x ! i)))" by simp
  also have "\<dots> = (\<Sum>i < ?n. \<Sum>j < ?n. ?a i j * (x ! i - x ! j)\<^sup>2)"
    unfolding sum.distrib [symmetric] by (intro sum.cong refl) (simp add: power2_eq_square algebra_simps)
  finally show ?thesis by (simp add: q)
qed

lemma entry_nonneg: "0 \<le> entry V ids i j"
  by (simp add: entry_def link_weight_pos less_imp_le)

lemma FiedlerValue_nonneg: "0 \<le> FiedlerValue rng V ids maxIter tol"
  by (auto simp: FiedlerValue_def Let_def split: option.split prod.split)

lemma FiedlerValue_isolated:
  assumes "laplacian_ok V ids (fst (build_laplacian V ids)) (snd (build_laplacian V ids)) (length ids)"
    and "i < length ids" and "linked V ids i = {}"
  shows "FiedlerValue rng V ids maxIter tol = 0"
proof -
  have "fst (build_laplacian V ids) ! i = 0" using assms by (simp add: laplacian_ok_def entry_def)
  with assms(2) show ?thesis
    by (auto simp: FiedlerValue_def Let_def split: prod.split)
qed

context graph_view begin

lemma entry_symmetric:
  assumes "invar g" and "i < length ids" and "j < length ids"
    and "link_weight (view g) (ids ! i) (ids ! j) = link_weight (view g) (ids ! j) (ids ! i)"
  shows "entry (view g) ids i j = entry (view g) ids j i"
  using assms Neighbors_symmetric [OF assms(1), of "ids ! i" "ids ! j"] by (auto simp: entry_def linked_def)

text \<open>
  An edge without a reverse edge: its weight stands in one direction, the default 1 in the other.
\<close>

lemma one_way_asymmetric:
  assumes "invar g" and "i < length ids" and "j < length ids" and "i \<noteq> j"
    and "gv_GetEdge (view g) (ids ! i) (ids ! j) = Some e" and "0 < e_Weight e"
    and "gv_GetEdge (view g) (ids ! j) (ids ! i) = None"
  shows "entry (view g) ids i j = e_Weight e" and "entry (view g) ids j i = 1"
proof -
  have n: "ids ! j \<in> set (gv_Neighbors (view g) (ids ! i))"
    using Neighbors_law [OF assms(1), of "ids ! i"] OutNeighbors_law [OF assms(1), of "ids ! i"] assms(5) by auto
  then have "ids ! i \<in> set (gv_Neighbors (view g) (ids ! j))"
    using Neighbors_symmetric [OF assms(1)] by blast
  with n show "entry (view g) ids i j = e_Weight e" "entry (view g) ids j i = 1"
    using assms by (simp_all add: entry_def linked_def link_weight_def)
qed

end

section \<open>Properties\<close>

text \<open>
  C23. The matrix \<open>FiedlerValue\<close> iterates on, for distinct nodes of a view. The operator it applies
  maps \<open>x\<close> to \<open>\<Sum>j. a i j * (x i - x j)\<close> with non-negative entries, positive exactly between listed
  neighbours, so constant vectors are in its kernel. Where the weights of both directions agree
  the operator is that of a Laplacian: its quadratic form is half the sum of the weighted
  squared differences, hence never negative. A node without listed neighbours makes the result 0,
  and the result is never negative. An edge without a reverse edge, however, has its weight as the
  entry of one direction and 1 as that of the other, so on such graphs the matrix is not symmetric.
\<close>

theorem FiedlerValue_operator:
  assumes "uv_ok v" and "distinct nodeIDs" and "build_laplacian (unified_view v) nodeIDs = (degree, adj)"
    and "length x = length nodeIDs" and "a = entry (unified_view v) nodeIDs"
    and "L = (\<lambda>x. laplacianMultiply degree adj x (length nodeIDs))"
  shows "(\<forall>i < length nodeIDs. L x ! i = (\<Sum>j < length nodeIDs. a i j * (x ! i - x ! j))) \<and>
     (\<forall>i < length nodeIDs. \<forall>j < length nodeIDs. 0 \<le> a i j \<and>
        (0 < a i j \<longleftrightarrow> i \<noteq> j \<and> nodeIDs ! j \<in> set (UV_Neighbors (nodeIDs ! i) v))) \<and>
     L (replicate (length nodeIDs) c) = replicate (length nodeIDs) 0 \<and>
     ((\<forall>s t. link_weight (unified_view v) s t = link_weight (unified_view v) t s) \<longrightarrow>
        2 * laplacianDot x (L x) = (\<Sum>i < length nodeIDs. \<Sum>j < length nodeIDs. a i j * (x ! i - x ! j)\<^sup>2) \<and>
        0 \<le> laplacianDot x (L x)) \<and>
     0 \<le> FiedlerValue rng (unified_view v) nodeIDs maxIter tol \<and>
     ((\<exists>i < length nodeIDs. \<forall>j < length nodeIDs. \<not> 0 < a i j) \<longrightarrow>
        FiedlerValue rng (unified_view v) nodeIDs maxIter tol = 0) \<and>
     (\<forall>i j e. i < length nodeIDs \<and> j < length nodeIDs \<and> i \<noteq> j \<and> 0 < e_Weight e \<and>
        UV_GetEdge (nodeIDs ! i) (nodeIDs ! j) v = Some e \<and> UV_GetEdge (nodeIDs ! j) (nodeIDs ! i) v = None \<longrightarrow>
        a i j = e_Weight e \<and> a j i = 1)"
proof -
  let ?V = "unified_view v" and ?n = "length nodeIDs"
  have "distinct (gv_Neighbors ?V u)" for u using uv_view.Neighbors_law [OF assms(1), of u] by simp
  then have ok: "laplacian_ok ?V nodeIDs (fst (build_laplacian ?V nodeIDs)) (snd (build_laplacian ?V nodeIDs)) ?n"
    by (rule build_laplacian_ok [OF assms(2)])
  note ok' = ok [unfolded assms(3) fst_conv snd_conv]
  note nth = multiply_nth [OF ok', folded assms(5)]
  have pos: "0 < a i j \<longleftrightarrow> i \<noteq> j \<and> nodeIDs ! j \<in> set (UV_Neighbors (nodeIDs ! i) v)" if "j < ?n" for i j
    using that by (auto simp: assms(5) entry_def linked_def link_weight_pos)
  have nonneg: "0 \<le> a i j" for i j by (simp add: assms(5) entry_nonneg)
  have kernel: "L (replicate ?n c) = replicate ?n 0" unfolding assms(6) by (rule multiply_constant [OF ok'])
  have form: "2 * laplacianDot x (L x) = (\<Sum>i < ?n. \<Sum>j < ?n. a i j * (x ! i - x ! j)\<^sup>2) \<and> 0 \<le> laplacianDot x (L x)"
    if "\<forall>s t. link_weight ?V s t = link_weight ?V t s"
  proof -
    have q: "2 * laplacianDot x (L x) = (\<Sum>i < ?n. \<Sum>j < ?n. a i j * (x ! i - x ! j)\<^sup>2)"
      unfolding assms(5,6) using that
      by (intro quadratic_form [OF ok' assms(4)] uv_view.entry_symmetric [OF assms(1)]) auto
    moreover have "0 \<le> (\<Sum>i < ?n. \<Sum>j < ?n. a i j * (x ! i - x ! j)\<^sup>2)"
      using nonneg by (intro sum_nonneg mult_nonneg_nonneg) auto
    ultimately show ?thesis by linarith
  qed
  have iso: "FiedlerValue rng ?V nodeIDs maxIter tol = 0" if "\<exists>i < ?n. \<forall>j < ?n. \<not> 0 < a i j"
  proof -
    from that obtain i where i: "i < ?n" "\<forall>j < ?n. \<not> 0 < a i j" by blast
    then have "linked ?V nodeIDs i = {}" by (auto simp: assms(5) entry_def link_weight_pos linked_def)
    from FiedlerValue_isolated [OF ok i(1) this] show ?thesis .
  qed
  have op: "\<forall>i < ?n. L x ! i = (\<Sum>j < ?n. a i j * (x ! i - x ! j))" unfolding assms(6) using nth by blast
  have entries: "\<forall>i < ?n. \<forall>j < ?n. 0 \<le> a i j \<and> (0 < a i j \<longleftrightarrow> i \<noteq> j \<and> nodeIDs ! j \<in> set (UV_Neighbors (nodeIDs ! i) v))"
    using pos nonneg by blast
  have one_way: "\<forall>i j e. i < ?n \<and> j < ?n \<and> i \<noteq> j \<and> 0 < e_Weight e \<and>
        UV_GetEdge (nodeIDs ! i) (nodeIDs ! j) v = Some e \<and> UV_GetEdge (nodeIDs ! j) (nodeIDs ! i) v = None \<longrightarrow>
        a i j = e_Weight e \<and> a j i = 1"
    unfolding assms(5) using uv_view.one_way_asymmetric [OF assms(1), of _ nodeIDs] by simp
  show ?thesis
    by (rule conjI [OF op conjI [OF entries conjI [OF kernel conjI [OF impI [OF form]
      conjI [OF FiedlerValue_nonneg conjI [OF impI [OF iso] one_way]]]]]]) assumption+
qed

theorem FiedlerValue_operator_witness:
  "0 \<le> FiedlerValue (\<lambda>_. 0) (unified_view sample_view) [''a'', ''b''] 10 1 \<and>
   laplacianMultiply (fst (build_laplacian (unified_view sample_view) [''a'', ''b'']))
     (snd (build_laplacian (unified_view sample_view) [''a'', ''b''])) (replicate (length [''a'', ''b'']) 7)
     (length [''a'', ''b'']) = replicate (length [''a'', ''b'']) 0"
proof -
  have d: "distinct [''a'', ''b'']" and l: "length [1, 2 :: real] = length [''a'', ''b'']" by simp_all
  show ?thesis
    using FiedlerValue_operator [OF sample_view_ok d prod.collapse [symmetric] l refl refl, of 7 "\<lambda>_. 0" 10 1] by blast
qed

end
