(* ===== verification/Gpu_Serialize.thy ===== *)
theory Gpu_Serialize
  imports Insertion_Sort Graph_View
begin

text \<open>
  \<open>gpu/serialize.go\<close>: the compressed sparse row and column formats of a graph. Both functions
  count the edges of each row, sum the counts to row pointers, fill the arrays with write cursors
  and sort each row, so the passes are definitions over the two endpoint projections. An index out
  of range is a panic, \<open>None\<close>. The \<open>int32\<close> numbers are \<open>nat\<close>: they count nodes and edges and are
  assumed to stay below \<open>2 ^ 31\<close>. The lemmas show that the arrays hold exactly the edges of the
  graph, row by row, sorted.
\<close>

section \<open>Formats\<close>

record CSRGraph =
  csr_RowPtr :: "nat list"
  csr_ColIdx :: "nat list"
  csr_Values :: "real list"
  csr_NumNodes :: nat
  csr_NumEdges :: nat
  csr_NodeIDs :: "string list"
  csr_NodeIdx :: "(string, nat) gomap"

record CSCGraph =
  csc_ColPtr :: "nat list"
  csc_RowIdx :: "nat list"
  csc_Values :: "real list"
  csc_NumNodes :: nat
  csc_NumEdges :: nat

section \<open>The passes\<close>

definition count_pass ::
  "(EdgeData \<Rightarrow> string) \<Rightarrow> (string, nat) gomap \<Rightarrow> EdgeData list \<Rightarrow> nat list \<Rightarrow> nat list option" where
  "count_pass row idx = ofold (\<lambda>ed ptr. case map_of idx (row ed) of
     None \<Rightarrow> Some ptr
   | Some r \<Rightarrow> if r + 1 < length ptr then Some (ptr[r + 1 := ptr ! (r + 1) + 1]) else None)"

definition prefix_sums :: "nat \<Rightarrow> nat list \<Rightarrow> nat list" where
  "prefix_sums n ptr = fold (\<lambda>i p. p[i := p ! i + p ! (i - 1)]) [1..<n + 1] ptr"

definition fill_step ::
  "(EdgeData \<Rightarrow> string) \<Rightarrow> (EdgeData \<Rightarrow> string) \<Rightarrow> (string, nat) gomap \<Rightarrow> EdgeData \<Rightarrow>
   nat list \<times> real list \<times> nat list \<Rightarrow> (nat list \<times> real list \<times> nat list) option" where
  "fill_step row col idx ed = (\<lambda>(colIdx, values, cursor).
     case (map_of idx (row ed), map_of idx (col ed)) of
       (Some r, Some c) \<Rightarrow> do {
         pos \<leftarrow> index cursor r;
         (if pos < length colIdx \<and> pos < length values
          then Some (colIdx[pos := c], values[pos := e_Weight ed], cursor[r := pos + 1]) else None)
       }
     | _ \<Rightarrow> Some (colIdx, values, cursor))"

text \<open>The insertion sort of a row moves both slices together.\<close>

fun shift_pair :: "nat \<Rightarrow> real \<Rightarrow> nat list \<times> real list \<Rightarrow> nat \<Rightarrow> nat list \<times> real list" where
  "shift_pair c v (col, val) 0 = (col[0 := c], val[0 := v])"
| "shift_pair c v (col, val) (Suc p) =
     (if col ! p > c then shift_pair c v (col[Suc p := col ! p], val[Suc p := val ! p]) p
      else (col[Suc p := c], val[Suc p := v]))"

definition sortCSRRow :: "nat list \<times> real list \<Rightarrow> nat list \<times> real list" where
  "sortCSRRow cv = fold (\<lambda>i (col, val). shift_pair (col ! i) (val ! i) (col, val) i) [1..<length (fst cv)] cv"

definition slice :: "nat \<Rightarrow> nat \<Rightarrow> 'a list \<Rightarrow> 'a list" where
  "slice lo hi xs = take (hi - lo) (drop lo xs)"

definition sort_rows :: "nat \<Rightarrow> nat list \<Rightarrow> nat list \<times> real list \<Rightarrow> nat list \<times> real list" where
  "sort_rows n ptr = fold (\<lambda>i (col, val).
     let lo = ptr ! i; hi = ptr ! (i + 1); (c, v) = sortCSRRow (slice lo hi col, slice lo hi val)
     in (take lo col @ c @ drop hi col, take lo val @ v @ drop hi val)) [0..<n]"

definition compress ::
  "(EdgeData \<Rightarrow> string) \<Rightarrow> (EdgeData \<Rightarrow> string) \<Rightarrow> GraphView \<Rightarrow> (string, nat) gomap \<Rightarrow>
   (nat list \<times> nat list \<times> real list) option" where
  "compress row col V idx =
     (let n = gv_NodeCount V; m = gv_EdgeCount V in do {
        counts \<leftarrow> count_pass row idx (gv_edges V) (replicate (n + 1) 0);
        let ptr = prefix_sums n counts;
        (colIdx, values, cursor) \<leftarrow> ofold (fill_step row col idx) (gv_edges V) (replicate m 0, replicate m 0, take n ptr);
        let (colIdx, values) = sort_rows n ptr (colIdx, values);
        Some (ptr, colIdx, values)
      })"

definition SerializeCSR :: "GraphView \<Rightarrow> CSRGraph option" where
  "SerializeCSR V =
     (let n = gv_NodeCount V in
      if n = 0 then Some \<lparr>csr_RowPtr = [0], csr_ColIdx = [], csr_Values = [], csr_NumNodes = 0, csr_NumEdges = 0,
                          csr_NodeIDs = [], csr_NodeIdx = []\<rparr>
      else let nodeIDs = sort (fold (\<lambda>nd ids. ids @ [n_ID nd]) (gv_nodes V) []);
               nodeIdx = fold (\<lambda>(i, nid) m. AList.update nid i m) (zip [0..<length nodeIDs] nodeIDs) []
           in do {
             (rowPtr, colIdx, values) \<leftarrow> compress e_From e_To V nodeIdx;
             Some \<lparr>csr_RowPtr = rowPtr, csr_ColIdx = colIdx, csr_Values = values, csr_NumNodes = n,
                   csr_NumEdges = gv_EdgeCount V, csr_NodeIDs = nodeIDs, csr_NodeIdx = nodeIdx\<rparr>
           })"

text \<open>The 32-bit variant has the same fields; \<open>float32\<close> is real, so only the copying loop is left.\<close>

type_synonym CSRGraphF32 = CSRGraph

definition SerializeCSRF32 :: "GraphView \<Rightarrow> CSRGraphF32 option" where
  "SerializeCSRF32 V = do {
     csr \<leftarrow> SerializeCSR V;
     let values32 = fold (\<lambda>i vs. vs[i := csr_Values csr ! i]) [0..<length (csr_Values csr)] (replicate (length (csr_Values csr)) 0);
     Some \<lparr>csr_RowPtr = csr_RowPtr csr, csr_ColIdx = csr_ColIdx csr, csr_Values = values32, csr_NumNodes = csr_NumNodes csr,
           csr_NumEdges = csr_NumEdges csr, csr_NodeIDs = csr_NodeIDs csr, csr_NodeIdx = csr_NodeIdx csr\<rparr>
   }"

definition SerializeCSC :: "GraphView \<Rightarrow> (string, nat) gomap \<Rightarrow> CSCGraph option" where
  "SerializeCSC V nodeIdx =
     (let n = gv_NodeCount V in
      if n = 0 then Some \<lparr>csc_ColPtr = [0], csc_RowIdx = [], csc_Values = [], csc_NumNodes = 0, csc_NumEdges = 0\<rparr>
      else do {
        (colPtr, rowIdx, values) \<leftarrow> compress e_To e_From V nodeIdx;
        Some \<lparr>csc_ColPtr = colPtr, csc_RowIdx = rowIdx, csc_Values = values, csc_NumNodes = n,
              csc_NumEdges = gv_EdgeCount V\<rparr>
      })"

section \<open>Counting\<close>

text \<open>Edges as index triples: row, column, weight.\<close>

type_synonym triple = "nat \<times> nat \<times> real"

definition row_edges :: "nat \<Rightarrow> triple list \<Rightarrow> (nat \<times> real) list" where
  "row_edges r ts = map snd (filter (\<lambda>t. fst t = r) ts)"

definition row_start :: "triple list \<Rightarrow> nat \<Rightarrow> nat" where
  "row_start ts r = length (filter (\<lambda>t. fst t < r) ts)"

lemma row_start_0 [simp]: "row_start ts 0 = 0"
  by (simp add: row_start_def)

lemma row_start_Suc: "row_start ts (Suc r) = row_start ts r + length (row_edges r ts)"
  by (induction ts) (auto simp: row_start_def row_edges_def)

lemma row_start_mono: "r \<le> r' \<Longrightarrow> row_start ts r \<le> row_start ts r'"
  unfolding row_start_def by (induction ts) auto

lemma row_start_all: "(\<And>t. t \<in> set ts \<Longrightarrow> fst t < n) \<Longrightarrow> row_start ts n = length ts"
  unfolding row_start_def by (simp add: filter_True)

definition triple_of ::
  "(EdgeData \<Rightarrow> string) \<Rightarrow> (EdgeData \<Rightarrow> string) \<Rightarrow> (string, nat) gomap \<Rightarrow> EdgeData \<Rightarrow> triple" where
  "triple_of row col idx ed = (the (map_of idx (row ed)), the (map_of idx (col ed)), e_Weight ed)"

definition indexed :: "(EdgeData \<Rightarrow> string) \<Rightarrow> (string, nat) gomap \<Rightarrow> nat \<Rightarrow> EdgeData list \<Rightarrow> bool" where
  "indexed row idx n es \<longleftrightarrow> (\<forall>ed \<in> set es. \<exists>r < n. map_of idx (row ed) = Some r)"

lemma indexed_triples:
  "indexed row idx n es \<Longrightarrow> t \<in> set (map (triple_of row col idx) es) \<Longrightarrow> fst t < n"
  by (auto simp: indexed_def triple_of_def)

lemma count_pass_correct:
  assumes "indexed row idx n es"
  shows "\<exists>ptr. count_pass row idx es (replicate (n + 1) 0) = Some ptr \<and> length ptr = n + 1 \<and> ptr ! 0 = 0 \<and>
    (\<forall>r < n. ptr ! (r + 1) = length (row_edges r (map (triple_of row col idx) es)))"
proof -
  let ?T = "map (triple_of row col idx)"
  have "\<exists>ptr. count_pass row idx es p0 = Some ptr \<and> length ptr = n + 1 \<and> ptr ! 0 = p0 ! 0 \<and>
      (\<forall>r < n. ptr ! (r + 1) = p0 ! (r + 1) + length (row_edges r (?T es)))" if "length p0 = n + 1" for p0
    using assms that
  proof (induction es arbitrary: p0)
    case (Cons ed es)
    then obtain r where r: "map_of idx (row ed) = Some r" "r < n" by (auto simp: indexed_def)
    let ?p1 = "p0[r + 1 := p0 ! (r + 1) + 1]"
    have "indexed row idx n es" using Cons.prems(1) by (simp add: indexed_def)
    from Cons.IH [OF this, of ?p1] Cons.prems(2) obtain ptr where
      ptr: "count_pass row idx es ?p1 = Some ptr" "length ptr = n + 1" "ptr ! 0 = ?p1 ! 0"
      "\<And>s. s < n \<Longrightarrow> ptr ! (s + 1) = ?p1 ! (s + 1) + length (row_edges s (?T es))" by auto
    have "count_pass row idx (ed # es) p0 = Some ptr"
      using ptr(1) r Cons.prems(2) by (simp add: count_pass_def)
    moreover have "length (row_edges s (?T (ed # es))) = (if s = r then 1 else 0) + length (row_edges s (?T es))" for s
      using r by (simp add: row_edges_def triple_of_def)
    ultimately show ?case using ptr(2-4) r Cons.prems(2) by (auto simp: nth_list_update)
  qed (simp add: count_pass_def row_edges_def)
  from this [of "replicate (n + 1) 0"] show ?thesis by (auto simp del: replicate_Suc)
qed

lemma prefix_sums_correct:
  assumes "length p = n + 1" and "p ! 0 = 0" and "\<And>r. r < n \<Longrightarrow> p ! (r + 1) = length (row_edges r ts)"
  shows "prefix_sums n p = map (row_start ts) [0..<n + 1]"
proof -
  have "length (fold (\<lambda>i p. p[i := p ! i + p ! (i - 1)]) [1..<k + 1] p) = n + 1 \<and>
      (\<forall>i \<le> n. fold (\<lambda>i p. p[i := p ! i + p ! (i - 1)]) [1..<k + 1] p ! i = (if i \<le> k then row_start ts i else p ! i))"
    if "k \<le> n" for k
    using that
  proof (induction k)
    case 0
    then show ?case using assms by auto
  next
    case (Suc k)
    have "[1..<Suc k + 1] = [1..<k + 1] @ [k + 1]" by simp
    with Suc assms(1) assms(3) [of k] show ?case
      by (auto simp: nth_list_update le_Suc_eq row_start_Suc simp del: upt_Suc)
  qed
  from this [of n] show ?thesis
    unfolding prefix_sums_def by (intro nth_equalityI) (auto simp del: upt_Suc)
qed

section \<open>Filling\<close>

definition filled :: "nat \<Rightarrow> triple list \<Rightarrow> triple list \<Rightarrow> nat list \<times> real list \<times> nat list \<Rightarrow> bool" where
  "filled n ts done s = (case s of (c, v, cur) \<Rightarrow>
     length c = length ts \<and> length v = length ts \<and> length cur = n \<and>
     (\<forall>r < n. cur ! r = row_start ts r + length (row_edges r done) \<and>
        (\<forall>k < length (row_edges r done). c ! (row_start ts r + k) = fst (row_edges r done ! k) \<and>
           v ! (row_start ts r + k) = snd (row_edges r done ! k))))"

lemma row_edges_append: "row_edges r (xs @ ys) = row_edges r xs @ row_edges r ys"
  by (simp add: row_edges_def)

lemma row_slot:
  assumes "k < length (row_edges r ts)" and "k' < length (row_edges r' ts)" and "r \<noteq> r'"
  shows "row_start ts r + k \<noteq> row_start ts r' + k'"
  using assms row_start_mono [of "Suc r" r' ts] row_start_mono [of "Suc r'" r ts]
  by (cases "r < r'") (auto simp: row_start_Suc)

lemma row_slot_bound:
  assumes "\<And>t. t \<in> set ts \<Longrightarrow> fst t < n" and "r < n" and "k < length (row_edges r ts)"
  shows "row_start ts r + k < length ts"
  using assms row_start_mono [of "Suc r" n ts] row_start_all [of ts n] by (simp add: row_start_Suc)

lemma fill_step_filled:
  assumes valid: "indexed row idx n es" "indexed col idx n es" and ts: "ts = map (triple_of row col idx) es"
    and split: "es = done @ ed # rest" and inv: "filled n ts (map (triple_of row col idx) done) s"
  shows "\<exists>s'. fill_step row col idx ed s = Some s' \<and> filled n ts (map (triple_of row col idx) (done @ [ed])) s'"
proof -
  obtain c v cur where s: "s = (c, v, cur)" by (cases s)
  from valid split obtain r k where rk: "map_of idx (row ed) = Some r" "r < n" "map_of idx (col ed) = Some k"
    by (auto simp: indexed_def)
  let ?D = "map (triple_of row col idx) done"
  let ?pos = "row_start ts r + length (row_edges r ?D)"
  have t: "triple_of row col idx ed = (r, k, e_Weight ed)" using rk by (simp add: triple_of_def)
  have tail: "row_edges q ts = row_edges q ?D @ row_edges q [(r, k, e_Weight ed)] @ row_edges q (map (triple_of row col idx) rest)" for q
    unfolding ts split by (simp add: row_edges_append [symmetric] t)
  have "row_edges r [(r, k, e_Weight ed)] = [(k, e_Weight ed)]" by (simp add: row_edges_def)
  then have here: "length (row_edges r ?D) < length (row_edges r ts)" by (simp add: tail [of r])
  have low: "j < length (row_edges q ts)" if "j < length (row_edges q ?D)" for q j using that by (simp add: tail [of q])
  have inv': "length c = length ts" "length v = length ts" "length cur = n"
    "\<And>q. q < n \<Longrightarrow> cur ! q = row_start ts q + length (row_edges q ?D)"
    "\<And>q j. q < n \<Longrightarrow> j < length (row_edges q ?D) \<Longrightarrow> c ! (row_start ts q + j) = fst (row_edges q ?D ! j) \<and>
       v ! (row_start ts q + j) = snd (row_edges q ?D ! j)"
    using inv by (auto simp: filled_def s)
  have bound: "?pos < length ts"
    using row_slot_bound [of ts n r "length (row_edges r ?D)"] indexed_triples [OF valid(1)] rk(2) here unfolding ts by blast
  have step: "fill_step row col idx ed s = Some (c[?pos := k], v[?pos := e_Weight ed], cur[r := ?pos + 1])"
    using rk inv'(1-4) bound by (simp add: fill_step_def s)
  have new: "row_edges q (map (triple_of row col idx) (done @ [ed])) =
      row_edges q ?D @ (if q = r then [(k, e_Weight ed)] else [])" for q
    by (simp add: row_edges_append t) (simp add: row_edges_def)
  have "?pos \<noteq> row_start ts q + j" if "j < length (row_edges q ?D)" for q j
    using row_slot [OF here low [OF that]] that by (cases "q = r") auto
  then have "filled n ts (map (triple_of row col idx) (done @ [ed])) (c[?pos := k], v[?pos := e_Weight ed], cur[r := ?pos + 1])"
    using inv' bound rk(2) unfolding filled_def new
    by (auto simp: nth_list_update nth_append less_Suc_eq)
  with step show ?thesis by blast
qed

lemma row_slices:
  assumes "filled n ts ts (c, v, cur)" and "\<And>t. t \<in> set ts \<Longrightarrow> fst t < n" and "r < n"
  shows "zip (slice (row_start ts r) (row_start ts (Suc r)) c) (slice (row_start ts r) (row_start ts (Suc r)) v) = row_edges r ts"
proof -
  have len: "row_start ts (Suc r) \<le> length ts"
    using row_start_mono [of "Suc r" n ts] row_start_all [of ts n] assms(2,3) by auto
  with assms show ?thesis
    by (intro nth_equalityI) (auto simp: filled_def slice_def row_start_Suc)
qed

lemma fill_all:
  assumes "indexed row idx n es" and "indexed col idx n es" and "ts = map (triple_of row col idx) es"
    and "cur = map (row_start ts) [0..<n]"
  shows "\<exists>s. ofold (fill_step row col idx) es (replicate (length es) 0, replicate (length es) 0, cur) = Some s \<and> filled n ts ts s"
proof -
  have start: "filled n ts (map (triple_of row col idx) []) (replicate (length es) 0, replicate (length es) 0, cur)"
    using assms(3,4) by (simp add: filled_def row_edges_def)
  have "\<exists>s. ofold (fill_step row col idx) es (replicate (length es) 0, replicate (length es) 0, cur) = Some s \<and>
      filled n ts (map (triple_of row col idx) es) s"
    by (rule ofold_rule [where P = "\<lambda>done. filled n ts (map (triple_of row col idx) done)", OF start])
      (rule fill_step_filled [OF assms(1-3)])
  with assms(3) show ?thesis by simp
qed

section \<open>Sorting the rows\<close>

lemma shift_pair_zip:
  assumes "length col = length val" and "p < length col"
  shows "zip (fst (shift_pair c v (col, val) p)) (snd (shift_pair c v (col, val) p)) = shift_insert fst (c, v) (zip col val) p \<and>
    length (fst (shift_pair c v (col, val) p)) = length col \<and> length (snd (shift_pair c v (col, val) p)) = length col"
  using assms by (induction p arbitrary: col val) (simp_all add: update_zip)

lemma sortCSRRow_correct:
  assumes "length col = length val" and "sortCSRRow (col, val) = (col', val')"
  shows "zip col' val' = sort_key fst (zip col val)" and "length col' = length col" and "length val' = length col"
proof -
  let ?f = "fold (\<lambda>i (col, val). shift_pair (col ! i) (val ! i) (col, val) i)"
  let ?g = "fold (\<lambda>i s. shift_insert fst (s ! i) s i)"
  have "\<forall>i \<in> set is. i < length col \<Longrightarrow> length col = length val \<Longrightarrow>
      zip (fst (?f is (col, val))) (snd (?f is (col, val))) = ?g is (zip col val) \<and>
      length (fst (?f is (col, val))) = length col \<and> length (snd (?f is (col, val))) = length col" for "is" col val
  proof (induction "is" arbitrary: col val)
    case (Cons i "is")
    obtain c1 v1 where s: "shift_pair (col ! i) (val ! i) (col, val) i = (c1, v1)" by force
    from shift_pair_zip [of col val i "col ! i" "val ! i"] Cons.prems s
    have z: "zip c1 v1 = shift_insert fst (zip col val ! i) (zip col val) i" "length c1 = length col" "length v1 = length col"
      by simp_all
    from Cons.IH [of c1 v1] Cons.prems z s show ?case by simp
  qed simp
  from this [of "[1..<length col]" col val] assms
  have "zip col' val' = ?g [1..<length (zip col val)] (zip col val) \<and> length col' = length col \<and> length val' = length col"
    by (simp add: sortCSRRow_def)
  then show "zip col' val' = sort_key fst (zip col val)" "length col' = length col" "length val' = length col"
    using insertion_sort_correct [of fst "zip col val"] by (simp_all add: insertion_sort_def)
qed

lemma slice_splice:
  assumes "lo \<le> hi" and "hi \<le> length xs" and "length ys = hi - lo"
  shows "slice lo hi (take lo xs @ ys @ drop hi xs) = ys"
    and "b \<le> lo \<Longrightarrow> slice a b (take lo xs @ ys @ drop hi xs) = slice a b xs"
    and "hi \<le> a \<Longrightarrow> slice a b (take lo xs @ ys @ drop hi xs) = slice a b xs"
    and "length (take lo xs @ ys @ drop hi xs) = length xs"
proof -
  show "slice lo hi (take lo xs @ ys @ drop hi xs) = ys" "length (take lo xs @ ys @ drop hi xs) = length xs"
    using assms by (simp_all add: slice_def)
  show "slice a b (take lo xs @ ys @ drop hi xs) = slice a b xs" if "b \<le> lo"
    using assms that by (intro nth_equalityI) (auto simp: slice_def nth_append)
  show "slice a b (take lo xs @ ys @ drop hi xs) = slice a b xs" if "hi \<le> a"
    using assms that by (intro nth_equalityI) (auto simp: slice_def nth_append)
qed

definition rows_of :: "nat list \<Rightarrow> nat list \<times> real list \<Rightarrow> nat \<Rightarrow> (nat \<times> real) list" where
  "rows_of ptr cv r = zip (slice (ptr ! r) (ptr ! (r + 1)) (fst cv)) (slice (ptr ! r) (ptr ! (r + 1)) (snd cv))"

lemma sort_rows_correct:
  assumes ptr: "\<And>r r'. r \<le> r' \<Longrightarrow> r' \<le> n \<Longrightarrow> ptr ! r \<le> ptr ! r'" "ptr ! n \<le> m"
    and len: "length (fst cv) = m" "length (snd cv) = m" and "k \<le> n"
  shows "length (fst (sort_rows k ptr cv)) = m \<and> length (snd (sort_rows k ptr cv)) = m \<and>
    (\<forall>r < n. rows_of ptr (sort_rows k ptr cv) r = (if r < k then sort_key fst (rows_of ptr cv r) else rows_of ptr cv r))"
  using assms(5)
proof (induction k)
  case 0
  then show ?case using len by (simp add: sort_rows_def)
next
  case (Suc k)
  obtain c v where cv: "sort_rows k ptr cv = (c, v)" by force
  with Suc have IH: "length c = m" "length v = m"
    "\<And>r. r < n \<Longrightarrow> rows_of ptr (c, v) r = (if r < k then sort_key fst (rows_of ptr cv r) else rows_of ptr cv r)" by auto
  let ?lo = "ptr ! k" and ?hi = "ptr ! (k + 1)"
  have lohi: "?lo \<le> ?hi" "?hi \<le> m" using ptr(1) [of k "k + 1"] ptr(1) [of "k + 1" n] ptr(2) Suc.prems by auto
  obtain c1 v1 where s: "sortCSRRow (slice ?lo ?hi c, slice ?lo ?hi v) = (c1, v1)" by force
  have sl: "length (slice ?lo ?hi c) = ?hi - ?lo" "length (slice ?lo ?hi v) = ?hi - ?lo"
    using lohi IH(1,2) by (simp_all add: slice_def)
  note sorted = sortCSRRow_correct [OF _ s]
  let ?c = "take ?lo c @ c1 @ drop ?hi c" and ?v = "take ?lo v @ v1 @ drop ?hi v"
  have l1: "length c1 = ?hi - ?lo" "length v1 = ?hi - ?lo" using sorted sl by simp_all
  have "sort_rows (Suc k) ptr cv = (?c, ?v)" using cv s by (simp add: sort_rows_def Let_def)
  moreover note splice_c = slice_splice [OF lohi(1) _ l1(1), of c] and splice_v = slice_splice [OF lohi(1) _ l1(2), of v]
  have "rows_of ptr (?c, ?v) r = (if r < Suc k then sort_key fst (rows_of ptr cv r) else rows_of ptr cv r)" if "r < n" for r
  proof -
    consider "r < k" | "r = k" | "k < r" by linarith
    then show ?thesis
    proof cases
      case 1
      then have "ptr ! (r + 1) \<le> ?lo" using ptr(1) [of "r + 1" k] Suc.prems by simp
      then have "rows_of ptr (?c, ?v) r = rows_of ptr (c, v) r"
        using splice_c(2) splice_v(2) lohi IH(1,2) by (simp add: rows_of_def)
      with IH(3) [OF that] 1 show ?thesis by simp
    next
      case 2
      then have "rows_of ptr (?c, ?v) r = zip c1 v1"
        using splice_c(1) splice_v(1) lohi IH(1,2) by (simp add: rows_of_def)
      also have "\<dots> = sort_key fst (rows_of ptr (c, v) k)" using sorted(1) sl by (simp add: rows_of_def)
      finally show ?thesis using IH(3) [of k] 2 Suc.prems by simp
    next
      case 3
      then have "?hi \<le> ptr ! r" using ptr(1) [of "k + 1" r] that by simp
      then have "rows_of ptr (?c, ?v) r = rows_of ptr (c, v) r"
        using splice_c(3) splice_v(3) lohi IH(1,2) by (simp add: rows_of_def)
      with IH(3) [OF that] 3 show ?thesis by simp
    qed
  qed
  ultimately show ?case using splice_c(4) splice_v(4) lohi IH(1,2) by auto
qed

section \<open>The formats of a graph\<close>

definition csr_row :: "CSRGraph \<Rightarrow> nat \<Rightarrow> (nat \<times> real) list" where
  "csr_row csr = rows_of (csr_RowPtr csr) (csr_ColIdx csr, csr_Values csr)"

definition csc_col :: "CSCGraph \<Rightarrow> nat \<Rightarrow> (nat \<times> real) list" where
  "csc_col csc = rows_of (csc_ColPtr csc) (csc_RowIdx csc, csc_Values csc)"

definition pointers_ok :: "nat \<Rightarrow> nat \<Rightarrow> nat list \<Rightarrow> bool" where
  "pointers_ok n m ptr \<longleftrightarrow> length ptr = n + 1 \<and> ptr ! 0 = 0 \<and> ptr ! n = m \<and> sorted ptr"

lemma compress_correct:
  assumes "indexed row idx (gv_NodeCount V) (gv_edges V)" and "indexed col idx (gv_NodeCount V) (gv_edges V)"
    and "gv_EdgeCount V = length (gv_edges V)" and ts: "ts = map (triple_of row col idx) (gv_edges V)"
  shows "\<exists>ptr c v. compress row col V idx = Some (ptr, c, v) \<and> pointers_ok (gv_NodeCount V) (gv_EdgeCount V) ptr \<and>
    length c = gv_EdgeCount V \<and> length v = gv_EdgeCount V \<and>
    (\<forall>r < gv_NodeCount V. rows_of ptr (c, v) r = sort_key fst (row_edges r ts))"
proof -
  let ?n = "gv_NodeCount V" and ?m = "gv_EdgeCount V"
  have valid: "\<And>t. t \<in> set ts \<Longrightarrow> fst t < ?n" unfolding ts by (rule indexed_triples [OF assms(1)])
  obtain counts where counts: "count_pass row idx (gv_edges V) (replicate (?n + 1) 0) = Some counts"
    "length counts = ?n + 1" "counts ! 0 = 0" "\<And>r. r < ?n \<Longrightarrow> counts ! (r + 1) = length (row_edges r ts)"
    using count_pass_correct [OF assms(1), of col] unfolding ts by blast
  note ptr = prefix_sums_correct [OF counts(2-4)]
  let ?ptr = "map (row_start ts) [0..<?n + 1]"
  obtain c v cur where fill: "ofold (fill_step row col idx) (gv_edges V) (replicate ?m 0, replicate ?m 0, take ?n ?ptr) = Some (c, v, cur)"
    "filled ?n ts ts (c, v, cur)"
    using fill_all [OF assms(1,2) ts, of "take ?n ?ptr"] assms(3) by (auto simp: take_map)
  obtain c' v' where sorted: "sort_rows ?n ?ptr (c, v) = (c', v')" by force
  have at: "?ptr ! r = row_start ts r" if "r \<le> ?n" for r
    using that by (simp del: upt_Suc add: nth_append)
  have m: "length ts = ?m" by (simp add: ts assms(3))
  have len: "length c = ?m" "length v = ?m" using fill(2) m by (simp_all add: filled_def)
  have mono: "?ptr ! r \<le> ?ptr ! r'" if "r \<le> r'" "r' \<le> ?n" for r r'
    using that at row_start_mono by simp
  have last: "?ptr ! ?n = ?m" using at [of ?n] row_start_all [OF valid] m by simp
  have rows: "rows_of ?ptr (c, v) r = row_edges r ts" if "r < ?n" for r
    using row_slices [OF fill(2) valid that] at [of r] at [of "Suc r"] that by (simp add: rows_of_def)
  have res: "length c' = ?m \<and> length v' = ?m \<and>
      (\<forall>r < ?n. rows_of ?ptr (c', v') r = (if r < ?n then sort_key fst (rows_of ?ptr (c, v) r) else rows_of ?ptr (c, v) r))"
    using sort_rows_correct [where n = ?n and k = ?n and ptr = ?ptr and m = ?m and cv = "(c, v)"] mono last len sorted by simp
  have "compress row col V idx = Some (?ptr, c', v')"
    using counts(1) ptr fill(1) sorted
    by (simp add: compress_def del: upt_Suc replicate_Suc map_append take_map)
  moreover have "pointers_ok ?n ?m ?ptr"
    unfolding pointers_ok_def using at [of 0] last
    by (auto simp: sorted_iff_nth_mono less_Suc_eq_le simp del: upt_Suc intro!: row_start_mono)
  ultimately show ?thesis using res rows by (intro exI conjI) auto
qed

text \<open>A row that is strictly sorted and holds exactly the pairs of a relation.\<close>

definition holds_row :: "(nat \<times> real) list \<Rightarrow> (nat \<Rightarrow> real \<Rightarrow> bool) \<Rightarrow> bool" where
  "holds_row xs R \<longleftrightarrow> sorted_wrt (<) (map fst xs) \<and> (\<forall>j w. (j, w) \<in> set xs \<longleftrightarrow> R j w)"

lemma holds_row_sort:
  assumes "distinct (map fst xs)" and "\<And>j w. (j, w) \<in> set xs \<longleftrightarrow> R j w"
  shows "holds_row (sort_key fst xs) R"
proof -
  have "mset (map fst (sort_key fst xs)) = mset (map fst xs)" by simp
  then have "distinct (map fst (sort_key fst xs))" using assms(1) by (metis distinct_count_atmost_1 mset_eq_imp_distinct_iff)
  then show ?thesis using assms(2) by (simp add: holds_row_def strict_sorted_iff)
qed

definition csr_faithful :: "GraphView \<Rightarrow> CSRGraph \<Rightarrow> CSCGraph \<Rightarrow> bool" where
  "csr_faithful V csr csc \<longleftrightarrow>
     (let n = gv_NodeCount V; m = gv_EdgeCount V; ids = csr_NodeIDs csr in
      csr_NumNodes csr = n \<and> csr_NumEdges csr = m \<and> csc_NumNodes csc = n \<and> csc_NumEdges csc = m \<and>
      length ids = n \<and> sorted_wrt (<) ids \<and> set ids = {u. gv_GetNode V u \<noteq> None} \<and>
      (\<forall>u j. map_of (csr_NodeIdx csr) u = Some j \<longleftrightarrow> j < n \<and> ids ! j = u) \<and>
      pointers_ok n m (csr_RowPtr csr) \<and> pointers_ok n m (csc_ColPtr csc) \<and>
      length (csr_ColIdx csr) = m \<and> length (csr_Values csr) = m \<and> length (csc_RowIdx csc) = m \<and> length (csc_Values csc) = m \<and>
      (\<forall>i < n. holds_row (csr_row csr i) (\<lambda>j w. j < n \<and> (\<exists>e. gv_GetEdge V (ids ! i) (ids ! j) = Some e \<and> w = e_Weight e)) \<and>
         holds_row (csc_col csc i) (\<lambda>j w. j < n \<and> (\<exists>e. gv_GetEdge V (ids ! j) (ids ! i) = Some e \<and> w = e_Weight e))))"

lemma collect_ids: "fold (\<lambda>nd ids. ids @ [n_ID nd]) ns out = out @ map n_ID ns"
  by (induction ns arbitrary: out) auto

context graph_view begin

lemma rows_hold:
  assumes g: "invar g" and ids: "distinct ids" "set ids = {u. gv_GetNode (view g) u \<noteq> None}"
    and idx: "\<And>u j. map_of idx u = Some j \<longleftrightarrow> j < length ids \<and> ids ! j = u" and i: "i < length ids"
    and dir: "row = e_From \<and> col = e_To \<or> row = e_To \<and> col = e_From"
  shows "indexed row idx (length ids) (gv_edges (view g))"
    and "holds_row (sort_key fst (row_edges i (map (triple_of row col idx) (gv_edges (view g)))))
      (\<lambda>j w. j < length ids \<and> (\<exists>e \<in> set (gv_edges (view g)). row e = ids ! i \<and> col e = ids ! j \<and> w = e_Weight e))"
proof -
  let ?es = "gv_edges (view g)"
  have known: "\<exists>j < length ids. map_of idx u = Some j" if "u \<in> set ids" for u
    using that idx by (auto simp: in_set_conv_nth)
  have ends: "e_From e \<in> set ids \<and> e_To e \<in> set ids" if "e \<in> set ?es" for e
    using endpoints_present [OF g that] ids(2) by simp
  then have ends': "row e \<in> set ids \<and> col e \<in> set ids" if "e \<in> set ?es" for e using dir that by auto
  then show "indexed row idx (length ids) ?es" using known by (force simp: indexed_def)
  have at: "the (map_of idx u) = j \<longleftrightarrow> ids ! j = u" if "u \<in> set ids" "j < length ids" for u j
  proof
    show "the (map_of idx u) = j \<Longrightarrow> ids ! j = u" using known [OF that(1)] idx [of u j] by auto
    show "ids ! j = u \<Longrightarrow> the (map_of idx u) = j" using idx [of u j] that(2) by simp
  qed
  have bound: "the (map_of idx u) < length ids \<and> ids ! the (map_of idx u) = u" if "u \<in> set ids" for u
    using known [OF that] idx [of u] by (metis option.sel)
  have row: "row_edges i (map (triple_of row col idx) ?es) =
      map (\<lambda>e. (the (map_of idx (col e)), e_Weight e)) (filter (\<lambda>e. row e = ids ! i) ?es)"
  proof -
    have "filter (\<lambda>e. the (map_of idx (row e)) = i) ?es = filter (\<lambda>e. row e = ids ! i) ?es"
      by (rule filter_cong) (use ends' at i in auto)
    then show ?thesis by (simp add: row_edges_def filter_map comp_def triple_of_def)
  qed
  show "holds_row (sort_key fst (row_edges i (map (triple_of row col idx) ?es)))
      (\<lambda>j w. j < length ids \<and> (\<exists>e \<in> set ?es. row e = ids ! i \<and> col e = ids ! j \<and> w = e_Weight e))"
  proof (rule holds_row_sort)
    have "inj_on (\<lambda>e. the (map_of idx (col e))) (set (filter (\<lambda>e. row e = ids ! i) ?es))"
    proof (rule inj_onI)
      fix e e'
      assume e: "e \<in> set (filter (\<lambda>e. row e = ids ! i) ?es)" "e' \<in> set (filter (\<lambda>e. row e = ids ! i) ?es)"
        "the (map_of idx (col e)) = the (map_of idx (col e'))"
      then have "col e = col e'" using bound ends' by (metis filter_is_subset subsetD)
      then have "edge_ends e = edge_ends e'" using e dir by (auto simp: edge_ends_def)
      with e edge_ends_distinct [OF g] show "e = e'" by (auto simp: distinct_map inj_on_def)
    qed
    moreover have "distinct (filter (\<lambda>e. row e = ids ! i) ?es)"
      using edge_ends_distinct [OF g] by (simp add: distinct_map)
    ultimately show "distinct (map fst (row_edges i (map (triple_of row col idx) ?es)))"
      by (simp add: row comp_def distinct_map)
    show "(j, w) \<in> set (row_edges i (map (triple_of row col idx) ?es)) \<longleftrightarrow>
        j < length ids \<and> (\<exists>e \<in> set ?es. row e = ids ! i \<and> col e = ids ! j \<and> w = e_Weight e)" for j w
    proof -
      have "(j, w) \<in> set (row_edges i (map (triple_of row col idx) ?es)) \<longleftrightarrow>
          (\<exists>e \<in> set ?es. row e = ids ! i \<and> j = the (map_of idx (col e)) \<and> w = e_Weight e)"
        by (auto simp: row)
      also have "\<dots> \<longleftrightarrow> j < length ids \<and> (\<exists>e \<in> set ?es. row e = ids ! i \<and> col e = ids ! j \<and> w = e_Weight e)"
        using ends' bound at by (metis (no_types, lifting))
      finally show ?thesis .
    qed
  qed
qed

lemma serialized:
  assumes g: "invar g"
  shows "\<exists>csr csc. SerializeCSR (view g) = Some csr \<and> SerializeCSC (view g) (csr_NodeIdx csr) = Some csc \<and>
    csr_faithful (view g) csr csc"
proof -
  let ?V = "view g" and ?n = "gv_NodeCount (view g)"
  have nodes: "set (map n_ID (gv_nodes ?V)) = {u. gv_GetNode ?V u \<noteq> None}" using GetNode_visited [OF g] by auto
  have edges: "gv_EdgeCount ?V = length (gv_edges ?V)" by (rule EdgeCount_visited [OF g])
  show ?thesis
  proof (cases "?n = 0")
    case True
    then have none: "gv_nodes ?V = []" using NodeCount_visited [OF g] by simp
    then have "gv_GetNode ?V u = None" for u using GetNode_visited [OF g, of u] by auto
    then have "gv_edges ?V = []" using endpoints_present [OF g] by (cases "gv_edges ?V") auto
    with True none nodes edges show ?thesis
      by (simp add: SerializeCSR_def SerializeCSC_def csr_faithful_def pointers_ok_def del: not_None_eq)
  next
    case False
    let ?ids = "sort (map n_ID (gv_nodes ?V))"
    let ?idx = "fold (\<lambda>(i, nid) m. AList.update nid i m) (zip [0..<length ?ids] ?ids) []"
    have ids: "distinct ?ids" "set ?ids = {u. gv_GetNode ?V u \<noteq> None}" "length ?ids = ?n"
      using node_ids_distinct [OF g] nodes NodeCount_visited [OF g] by (simp_all only: distinct_sort set_sort length_sort length_map)
    have idx: "map_of ?idx u = Some j \<longleftrightarrow> j < length ?ids \<and> ?ids ! j = u" for u j by (rule enumerate_lookup [OF ids(1)])
    note r1 = rows_hold [OF g ids(1,2) idx, where row = e_From and col = e_To]
    note r2 = rows_hold [OF g ids(1,2) idx, where row = e_To and col = e_From]
    have n0: "0 < length ?ids" using False ids(3) by simp
    have ix: "indexed e_From ?idx ?n (gv_edges ?V)" "indexed e_To ?idx ?n (gv_edges ?V)"
      using r1(1) [OF n0] r2(1) [OF n0] unfolding ids(3) by simp_all
    obtain ptr c v where csr: "compress e_From e_To ?V ?idx = Some (ptr, c, v)" "pointers_ok ?n (gv_EdgeCount ?V) ptr"
      "length c = gv_EdgeCount ?V" "length v = gv_EdgeCount ?V"
      "\<And>r. r < ?n \<Longrightarrow> rows_of ptr (c, v) r = sort_key fst (row_edges r (map (triple_of e_From e_To ?idx) (gv_edges ?V)))"
      using compress_correct [OF ix edges refl] by blast
    obtain ptr' c' v' where csc: "compress e_To e_From ?V ?idx = Some (ptr', c', v')" "pointers_ok ?n (gv_EdgeCount ?V) ptr'"
      "length c' = gv_EdgeCount ?V" "length v' = gv_EdgeCount ?V"
      "\<And>r. r < ?n \<Longrightarrow> rows_of ptr' (c', v') r = sort_key fst (row_edges r (map (triple_of e_To e_From ?idx) (gv_edges ?V)))"
      using compress_correct [OF ix(2,1) edges refl] by blast
    have fwd: "gv_GetEdge ?V a b = Some e \<longleftrightarrow> e \<in> set (gv_edges ?V) \<and> e_From e = a \<and> e_To e = b" for a b e
      using GetEdge_iff [OF g, of a b e] by (simp add: edge_ends_def)
    let ?csr = "\<lparr>csr_RowPtr = ptr, csr_ColIdx = c, csr_Values = v, csr_NumNodes = ?n, csr_NumEdges = gv_EdgeCount ?V,
      csr_NodeIDs = ?ids, csr_NodeIdx = ?idx\<rparr>"
    let ?csc = "\<lparr>csc_ColPtr = ptr', csc_RowIdx = c', csc_Values = v', csc_NumNodes = ?n, csc_NumEdges = gv_EdgeCount ?V\<rparr>"
    have "SerializeCSR ?V = Some ?csr"
      using False csr(1) by (simp add: SerializeCSR_def collect_ids Let_def)
    moreover have "SerializeCSC ?V (csr_NodeIdx ?csr) = Some ?csc"
      using False csc(1) by (simp add: SerializeCSC_def Let_def)
    moreover have "csr_faithful ?V ?csr ?csc"
    proof -
      have rows: "holds_row (csr_row ?csr i) (\<lambda>j w. j < ?n \<and> (\<exists>e. gv_GetEdge ?V (?ids ! i) (?ids ! j) = Some e \<and> w = e_Weight e))"
        "holds_row (csc_col ?csc i) (\<lambda>j w. j < ?n \<and> (\<exists>e. gv_GetEdge ?V (?ids ! j) (?ids ! i) = Some e \<and> w = e_Weight e))"
        if "i < ?n" for i
        using r1(2) [of i] r2(2) [of i] that csr(5) [OF that] csc(5) [OF that] ids(3)
        by (simp_all add: csr_row_def csc_col_def fwd Bex_def conj_ac)
      have strict: "sorted_wrt (<) ?ids" using ids(1) by (simp only: strict_sorted_iff sorted_sort)
      show ?thesis
        unfolding csr_faithful_def Let_def
        using rows strict ids idx csr(2-4) csc(2-4) by simp
    qed
    ultimately show ?thesis by blast
  qed
qed

end

section \<open>Properties\<close>



end
