(* ===== verification/Gpu_Kernel.thy ===== *)
theory Gpu_Kernel
  imports Gpu_Serialize Tension
begin

text \<open>
  \<open>gpu/jsd_kernel.go\<close> and \<open>gpu/jsd_kernel_f32.go\<close>: the tension of a node computed from the CSR and
  CSC arrays, as the GPU computes it. Indices are \<open>nat\<close>, an index out of range is \<open>None\<close>, \<open>float32\<close>
  is real like \<open>float64\<close>; what the 32-bit kernel changes besides the rounding - another smoothing
  constant, a buffer of 512 neighbours, neighbours with more than 512 outgoing edges skipped - is
  modelled. The lemmas show that on the arrays of a graph the kernels are the tension calculator.
\<close>

section \<open>The 64-bit kernel\<close>

definition kernelEpsilon :: real where
  "kernelEpsilon = 1 / 10 ^ 12"

text \<open>One of the two loops of \<open>collectNeighbors\<close>, from \<open>ptr[nodeIdx]\<close> to \<open>ptr[nodeIdx+1]\<close>.\<close>

definition collect_range ::
  "('s \<Rightarrow> nat \<Rightarrow> 's) \<Rightarrow> nat list \<Rightarrow> nat list \<Rightarrow> nat \<Rightarrow> 's \<Rightarrow> 's option" where
  "collect_range visit ptr idx nodeIdx s = do {
     start \<leftarrow> index ptr nodeIdx;
     stop \<leftarrow> index ptr (nodeIdx + 1);
     ofold (\<lambda>i s. do { target \<leftarrow> index idx i; Some (visit s target) }) [start..<stop] s
   }"

definition collectNeighbors ::
  "nat list \<Rightarrow> nat list \<Rightarrow> nat list \<Rightarrow> nat list \<Rightarrow> nat \<Rightarrow> nat list option" where
  "collectNeighbors csrRowPtr csrColIdx cscColPtr cscRowIdx nodeIdx = do {
     s \<leftarrow> collect_range (\<lambda>s k. visit_unseen k s) csrRowPtr csrColIdx nodeIdx ([], []);
     s \<leftarrow> collect_range (\<lambda>s k. visit_unseen k s) cscColPtr cscRowIdx nodeIdx s;
     Some (snd s)
   }"

definition normalize_dist :: "real list \<Rightarrow> real list" where
  "normalize_dist ds =
     (let total = fold (\<lambda>v t. t + v) ds 0; n = length ds
      in if total = 0 then (let uniform = 1 / real n in map (\<lambda>_. uniform) ds)
         else map (\<lambda>v. v / total) ds)"

definition kernel_klDiv :: "real list \<Rightarrow> real list \<Rightarrow> real option" where
  "kernel_klDiv p q = ofold (\<lambda>i sum. do {
     a \<leftarrow> index p i;
     b \<leftarrow> index q i;
     let pi = a + kernelEpsilon; qi = b + kernelEpsilon in
     Some (if pi > kernelEpsilon then sum + pi * log 2 (pi / qi) else sum)
   }) [0..<length p] 0"

definition kernel_jsd :: "real list \<Rightarrow> real list \<Rightarrow> real option" where
  "kernel_jsd p q = do {
     m \<leftarrow> ofold (\<lambda>i m. do { a \<leftarrow> index p i; b \<leftarrow> index q i; Some (m @ [1 / 2 * a + 1 / 2 * b]) }) [0..<length p] [];
     x \<leftarrow> kernel_klDiv p m;
     y \<leftarrow> kernel_klDiv q m;
     Some (1 / 2 * x + 1 / 2 * y)
   }"

definition build_distributions ::
  "nat list \<Rightarrow> real list \<Rightarrow> nat \<Rightarrow> nat \<Rightarrow> nat \<Rightarrow> (real list \<times> real list) option" where
  "build_distributions csrColIdx csrValues nodeIdx outStart outDegree =
     ofold (\<lambda>i (original, perturbed). do {
       w \<leftarrow> index csrValues (outStart + i);
       target \<leftarrow> index csrColIdx (outStart + i);
       Some (original @ [w], perturbed @ [if target = nodeIdx then 0 else w])
     }) [0..<outDegree] ([], [])"

definition add_neighbor_divergence ::
  "nat list \<Rightarrow> nat list \<Rightarrow> real list \<Rightarrow> nat \<Rightarrow> nat \<Rightarrow> real \<times> nat \<Rightarrow> (real \<times> nat) option" where
  "add_neighbor_divergence csrRowPtr csrColIdx csrValues nodeIdx nIdx = (\<lambda>(totalDiv, cnt). do {
     outStart \<leftarrow> index csrRowPtr nIdx;
     outEnd \<leftarrow> index csrRowPtr (nIdx + 1);
     (if outEnd < outStart then None
      else let outDegree = outEnd - outStart in
        if outDegree = 0 then Some (totalDiv, cnt)
        else do {
          (original, perturbed) \<leftarrow> build_distributions csrColIdx csrValues nodeIdx outStart outDegree;
          d \<leftarrow> kernel_jsd (normalize_dist original) (normalize_dist perturbed);
          Some (totalDiv + d, cnt + 1)
        })
   })"

definition ComputeNodeTension ::
  "nat list \<Rightarrow> nat list \<Rightarrow> real list \<Rightarrow> nat list \<Rightarrow> nat list \<Rightarrow> nat \<Rightarrow> nat \<Rightarrow> real option" where
  "ComputeNodeTension csrRowPtr csrColIdx csrValues cscColPtr cscRowIdx nodeIdx numNodes =
     (if nodeIdx \<ge> numNodes then Some 0
      else do {
        neighbors \<leftarrow> collectNeighbors csrRowPtr csrColIdx cscColPtr cscRowIdx nodeIdx;
        (if neighbors = [] then Some 0
         else do {
           (totalDiv, cnt) \<leftarrow> ofold (add_neighbor_divergence csrRowPtr csrColIdx csrValues nodeIdx) neighbors (0, 0);
           Some (if cnt = 0 then 0 else totalDiv / real cnt)
         })
      })"

definition ComputeAllTensions ::
  "nat list \<Rightarrow> nat list \<Rightarrow> real list \<Rightarrow> nat list \<Rightarrow> nat list \<Rightarrow> nat \<Rightarrow> real list option" where
  "ComputeAllTensions csrRowPtr csrColIdx csrValues cscColPtr cscRowIdx numNodes =
     ofold (\<lambda>i tensions. do {
       t \<leftarrow> ComputeNodeTension csrRowPtr csrColIdx csrValues cscColPtr cscRowIdx i numNodes;
       Some (tensions[i := t])
     }) [0..<numNodes] (replicate numNodes 0)"

section \<open>The 32-bit kernel\<close>

definition kernelEpsilonF32 :: real where
  "kernelEpsilonF32 = 1 / 10 ^ 7"

definition MaxNeighbors :: nat where
  "MaxNeighbors = 512"

definition MaxOutDegree :: nat where
  "MaxOutDegree = 512"

fun containsI32 :: "nat list \<Rightarrow> nat \<Rightarrow> bool" where
  "containsI32 [] val = False"
| "containsI32 (v # s) val = (if v = val then True else containsI32 s val)"

text \<open>The buffer up to \<open>count\<close>: what lies behind is never read.\<close>

definition visit_capped :: "nat \<Rightarrow> nat list \<Rightarrow> nat \<Rightarrow> nat list" where
  "visit_capped maxBuf buf target =
     (if \<not> containsI32 buf target \<and> length buf < maxBuf then buf @ [target] else buf)"

definition collectNeighborsF32 ::
  "nat list \<Rightarrow> nat list \<Rightarrow> nat list \<Rightarrow> nat list \<Rightarrow> nat \<Rightarrow> nat \<Rightarrow> nat list option" where
  "collectNeighborsF32 csrRowPtr csrColIdx cscColPtr cscRowIdx nodeIdx maxBuf = do {
     buf \<leftarrow> collect_range (visit_capped maxBuf) csrRowPtr csrColIdx nodeIdx [];
     collect_range (visit_capped maxBuf) cscColPtr cscRowIdx nodeIdx buf
   }"

definition normalizeInPlaceF32 :: "real list \<Rightarrow> real list" where
  "normalizeInPlaceF32 ds =
     (let total = fold (\<lambda>v t. t + v) ds 0; n = length ds
      in if total = 0 then (let uniform = 1 / real n in fold (\<lambda>i ds. ds[i := uniform]) [0..<n] ds)
         else fold (\<lambda>i ds. ds[i := ds ! i / total]) [0..<n] ds)"

definition klDivF32 :: "real list \<Rightarrow> real list \<Rightarrow> real option" where
  "klDivF32 p q = ofold (\<lambda>i sum. do {
     a \<leftarrow> index p i;
     b \<leftarrow> index q i;
     let pi = a + kernelEpsilonF32; qi = b + kernelEpsilonF32 in
     Some (if pi > kernelEpsilonF32 then sum + pi * log 2 (pi / qi) else sum)
   }) [0..<length p] 0"

definition jsdF32 :: "real list \<Rightarrow> real list \<Rightarrow> real option" where
  "jsdF32 p q = do {
     m \<leftarrow> ofold (\<lambda>i m. do { a \<leftarrow> index p i; b \<leftarrow> index q i; Some (m @ [1 / 2 * a + 1 / 2 * b]) }) [0..<length p] [];
     x \<leftarrow> klDivF32 p m;
     y \<leftarrow> klDivF32 q m;
     Some (1 / 2 * x + 1 / 2 * y)
   }"

definition add_neighbor_divergenceF32 ::
  "nat list \<Rightarrow> nat list \<Rightarrow> real list \<Rightarrow> nat \<Rightarrow> nat \<Rightarrow> real \<times> nat \<Rightarrow> (real \<times> nat) option" where
  "add_neighbor_divergenceF32 csrRowPtr csrColIdx csrValues nodeIdx nIdx = (\<lambda>(totalDiv, cnt). do {
     outStart \<leftarrow> index csrRowPtr nIdx;
     outEnd \<leftarrow> index csrRowPtr (nIdx + 1);
     (if outEnd < outStart then None
      else let outDegree = outEnd - outStart in
        if outDegree = 0 \<or> outDegree > MaxOutDegree then Some (totalDiv, cnt)
        else do {
          (original, perturbed) \<leftarrow> build_distributions csrColIdx csrValues nodeIdx outStart outDegree;
          d \<leftarrow> jsdF32 (normalizeInPlaceF32 original) (normalizeInPlaceF32 perturbed);
          Some (totalDiv + d, cnt + 1)
        })
   })"

definition ComputeNodeTensionF32 ::
  "nat list \<Rightarrow> nat list \<Rightarrow> real list \<Rightarrow> nat list \<Rightarrow> nat list \<Rightarrow> nat \<Rightarrow> nat \<Rightarrow> real option" where
  "ComputeNodeTensionF32 csrRowPtr csrColIdx csrValues cscColPtr cscRowIdx nodeIdx numNodes =
     (if nodeIdx \<ge> numNodes then Some 0
      else do {
        neighborBuf \<leftarrow> collectNeighborsF32 csrRowPtr csrColIdx cscColPtr cscRowIdx nodeIdx MaxNeighbors;
        (if neighborBuf = [] then Some 0
         else do {
           (totalDiv, cnt) \<leftarrow> ofold (add_neighbor_divergenceF32 csrRowPtr csrColIdx csrValues nodeIdx) neighborBuf (0, 0);
           Some (if cnt = 0 then 0 else totalDiv / real cnt)
         })
      })"

definition ComputeAllTensionsF32 ::
  "nat list \<Rightarrow> nat list \<Rightarrow> real list \<Rightarrow> nat list \<Rightarrow> nat list \<Rightarrow> nat \<Rightarrow> real list option" where
  "ComputeAllTensionsF32 csrRowPtr csrColIdx csrValues cscColPtr cscRowIdx numNodes =
     ofold (\<lambda>i tensions. do {
       t \<leftarrow> ComputeNodeTensionF32 csrRowPtr csrColIdx csrValues cscColPtr cscRowIdx i numNodes;
       Some (tensions[i := t])
     }) [0..<numNodes] (replicate numNodes 0)"

section \<open>Divergences that are sums over the coordinates\<close>

definition kl_by :: "real \<Rightarrow> real \<Rightarrow> real \<Rightarrow> real" where
  "kl_by e a b = (if 0 < a then (a + e) * log 2 ((a + e) / (b + e)) else 0)"

definition divergence_term :: "real \<Rightarrow> real \<Rightarrow> real \<Rightarrow> real" where
  "divergence_term e a b = (kl_by e a ((a + b) / 2) + kl_by e b ((a + b) / 2)) / 2"

definition norm_by :: "real \<Rightarrow> nat \<Rightarrow> real \<Rightarrow> real" where
  "norm_by s n v = (if s = 0 then 1 / real n else v / s)"

lemma NormalizeDist_by: "NormalizeDist ds = map (norm_by (sum_list ds) (length ds)) ds"
  by (simp add: NormalizeDist_def NormalizeDist_total norm_by_def Let_def)

lemma normalize_dist_eq: "normalize_dist ds = NormalizeDist ds"
  by (simp add: normalize_dist_def NormalizeDist_def Let_def)

lemma update_all: "fold (\<lambda>i ds. ds[i := f (ds ! i)]) [0..<length ds] ds = map f ds"
proof -
  have "fold (\<lambda>i ds. ds[i := f (ds ! i)]) [0..<k] ds = map f (take k ds) @ drop k ds" if "k \<le> length ds" for k
    using that
  proof (induction k)
    case (Suc k)
    then have "drop k ds = ds ! k # drop (Suc k) ds" by (simp add: Cons_nth_drop_Suc)
    with Suc show ?case by (simp add: nth_append list_update_append take_Suc_conv_app_nth)
  qed simp
  from this [of "length ds"] show ?thesis by simp
qed

lemma normalizeInPlaceF32_eq: "normalizeInPlaceF32 ds = NormalizeDist ds"
  using update_all [of "\<lambda>_. 1 / real (length ds)" ds] update_all [of "\<lambda>v. v / fold (\<lambda>v t. t + v) ds 0" ds]
  by (simp add: normalizeInPlaceF32_def NormalizeDist_def Let_def)

lemma midpoint_list:
  "length p = length q \<Longrightarrow>
   ofold (\<lambda>i m. do { a \<leftarrow> index p i; b \<leftarrow> index q i; Some (m @ [1 / 2 * a + 1 / 2 * b]) }) [0..<length p] [] =
     Some (map (\<lambda>i. (p ! i + q ! i) / 2) [0..<length p] :: real list)"
  by (rule midpoint_loop) simp_all

lemma klDivF32_eq:
  "length p \<le> length q \<Longrightarrow> klDivF32 p q = Some (\<Sum>i<length p. kl_by kernelEpsilonF32 (p ! i) (q ! i))"
  unfolding klDivF32_def
  by (subst ofold_sum [where g = "\<lambda>i. kl_by kernelEpsilonF32 (p ! i) (q ! i)"]) (auto simp: kl_by_def Let_def)

text \<open>What the closed form of the tension needs of a divergence.\<close>

locale pointwise_divergence =
  fixes compute :: "real list \<Rightarrow> real list \<Rightarrow> real option" and pterm :: "real \<Rightarrow> real \<Rightarrow> real"
  assumes compute_sum: "length p = length q \<Longrightarrow> compute p q = Some (\<Sum>i<length p. pterm (p ! i) (q ! i))"
begin

text \<open>
  The divergence that removing a node causes at a neighbour, from the pairs (edge to the removed
  node, weight) of the neighbour's outgoing edges.
\<close>

lemma removal_sum:
  fixes ps :: "(bool \<times> real) list"
  assumes "a = map snd ps" and "b = map (\<lambda>(r, w). if r then 0 else w) ps"
  shows "compute (NormalizeDist a) (NormalizeDist b) =
    Some (\<Sum>p \<leftarrow> ps. pterm (norm_by (sum_list a) (length ps) (snd p))
      (norm_by (sum_list b) (length ps) (if fst p then 0 else snd p)))"
  using compute_sum [of "NormalizeDist a" "NormalizeDist b"] assms
  by (simp add: NormalizeDist_by sum_list_sum_nth atLeast0LessThan split_beta)

lemma removal_mset:
  fixes ps ps' :: "(bool \<times> real) list"
  assumes "mset ps = mset ps'"
  shows "compute (NormalizeDist (map snd ps)) (NormalizeDist (map (\<lambda>(r, w). if r then 0 else w) ps)) =
    compute (NormalizeDist (map snd ps')) (NormalizeDist (map (\<lambda>(r, w). if r then 0 else w) ps'))"
proof -
  have "length ps = length ps'" using assms by (rule mset_eq_length)
  moreover have "sum_list (map f ps) = sum_list (map f ps')" for f :: "bool \<times> real \<Rightarrow> real"
    using assms by (metis mset_map sum_mset_sum_list)
  ultimately show ?thesis by (simp only: removal_sum [OF refl refl])
qed

end

lemma kernel_jsd_eq: "kernel_jsd p q = JSD_Compute p q"
  by (simp add: kernel_jsd_def JSD_Compute_def kernel_klDiv_def klDiv_def kernelEpsilon_def eps_def)

interpretation jsd64: pointwise_divergence kernel_jsd "divergence_term eps"
  by unfold_locales (simp add: kernel_jsd_eq JSD_eq jsd_term_def kl_term_def divergence_term_def kl_by_def)

interpretation jsd32: pointwise_divergence jsdF32 "divergence_term kernelEpsilonF32"
proof unfold_locales
  fix p q :: "real list"
  assume len: "length p = length q"
  show "jsdF32 p q = Some (\<Sum>i<length p. divergence_term kernelEpsilonF32 (p ! i) (q ! i))"
    unfolding jsdF32_def midpoint_list [OF len]
    using len by (simp add: klDivF32_eq divergence_term_def sum.distrib sum_divide_distrib add_divide_distrib
        cong: sum.cong_simp)
qed

section \<open>The loops of the kernels on faithful arrays\<close>

lemma rows_of_map:
  assumes "ptr ! (r + 1) \<le> length c" and "length v = length c"
  shows "rows_of ptr (c, v) r = map (\<lambda>i. (c ! (ptr ! r + i), v ! (ptr ! r + i))) [0..<ptr ! (r + 1) - ptr ! r]"
  using assms by (intro nth_equalityI) (auto simp: rows_of_def slice_def)

lemma build_distributions_eq:
  assumes "s + n \<le> length c" and "length v = length c"
  shows "build_distributions c v u s n =
    Some (map (\<lambda>i. v ! (s + i)) [0..<n], map (\<lambda>i. if c ! (s + i) = u then 0 else v ! (s + i)) [0..<n])"
  using assms by (induction n) (simp_all add: build_distributions_def ofold_append)

lemma collect_range_eq:
  assumes "u + 1 < length ptr" and "ptr ! u \<le> ptr ! (u + 1)" and "ptr ! (u + 1) \<le> length c" and "length v = length c"
  shows "collect_range visit ptr c u s = Some (fold (\<lambda>k s. visit s k) (map fst (rows_of ptr (c, v) u)) s)"
proof -
  have "ofold (\<lambda>i s. do { t \<leftarrow> index c i; Some (visit s t) }) [a..<a + n] s =
      Some (fold (\<lambda>k s. visit s k) (map (\<lambda>i. c ! (a + i)) [0..<n]) s)" if "a + n \<le> length c" for a n
    using that by (induction n) (simp_all add: ofold_append)
  from this [of "ptr ! u" "ptr ! (u + 1) - ptr ! u"] assms show ?thesis
    by (simp add: collect_range_def rows_of_map comp_def)
qed

text \<open>The capped buffer is the beginning of the deduplicated list.\<close>

lemma containsI32_iff: "containsI32 s v \<longleftrightarrow> v \<in> set s"
  by (induction s) auto

lemma capped_loop:
  assumes "seen_agrees s"
  shows "fold (\<lambda>k b. visit_capped m b k) ks (take m (snd s)) = take m (snd (fold visit_unseen ks s))"
  using assms
proof (induction ks arbitrary: s)
  case (Cons k ks)
  have "visit_capped m (take m (snd s)) k = take m (snd (visit_unseen k s))"
  proof (cases "length (snd s) < m")
    case True
    with Cons.prems show ?thesis
      by (cases s) (auto simp: visit_capped_def containsI32_iff visit_unseen_def seen_agrees_def)
  next
    case False
    then show ?thesis by (cases s) (auto simp: visit_capped_def visit_unseen_def)
  qed
  with Cons.IH [of "visit_unseen k s"] visit_unseen_step [OF Cons.prems, of k] show ?case by simp
qed simp

definition pairs_of :: "nat \<Rightarrow> (nat \<times> real) list \<Rightarrow> (bool \<times> real) list" where
  "pairs_of i = map (\<lambda>(t, w). (t = i, w))"

text \<open>The mean over the neighbours that pass a test, as both kernels compute it.\<close>

definition mean_over :: "('a \<Rightarrow> bool) \<Rightarrow> ('a \<Rightarrow> real) \<Rightarrow> 'a list \<Rightarrow> real" where
  "mean_over P f xs = (let ys = filter P xs in if ys = [] then 0 else sum_list (map f ys) / real (length ys))"

lemma mean_over_mset:
  assumes "mset (map g xs) = mset ys" and "\<And>x. x \<in> set xs \<Longrightarrow> P' x = P (g x)"
    and "\<And>x. x \<in> set xs \<Longrightarrow> P' x \<Longrightarrow> f' x = f (g x)"
  shows "mean_over P' f' xs = mean_over P f ys"
proof -
  have filters: "map g (filter P' xs) = filter P (map g xs)"
    unfolding filter_map comp_def using assms(2) by (simp cong: filter_cong)
  have eq: "mset (filter P (map g xs)) = mset (filter P ys)" using assms(1) by (metis mset_filter)
  have "map f' (filter P' xs) = map f (map g (filter P' xs))" using assms(3) by simp
  then have "sum_list (map f' (filter P' xs)) = sum_list (map f (filter P (map g xs)))" by (simp only: filters)
  also have "\<dots> = sum_list (map f (filter P ys))" using eq by (metis mset_map sum_mset_sum_list)
  finally have "sum_list (map f' (filter P' xs)) = sum_list (map f (filter P ys))" .
  moreover have len: "length (filter P' xs) = length (filter P ys)"
    using mset_eq_length [OF eq] arg_cong [OF filters, of length] by simp
  moreover have "filter P' xs = [] \<longleftrightarrow> filter P ys = []" using len by (metis length_0_conv)
  ultimately show ?thesis by (simp only: mean_over_def Let_def)
qed

lemma mean_loop:
  fixes f :: "'a \<Rightarrow> real" and c :: "'c :: semiring_1"
  assumes "\<And>x s c. x \<in> set xs \<Longrightarrow> step x (s, c) = Some (if P x then (s + f x, c + 1) else (s, c))"
  shows "ofold step xs (s, c) = Some (s + sum_list (map f (filter P xs)), c + of_nat (length (filter P xs)))"
  using assms by (induction xs arbitrary: s c) (auto simp: add_ac)

definition removal_value :: "DivergenceFunc \<Rightarrow> (bool \<times> real) list \<Rightarrow> real" where
  "removal_value compute ps =
     the (compute (NormalizeDist (map snd ps)) (NormalizeDist (map (\<lambda>(r, w). if r then 0 else w) ps)))"

definition out_pairs :: "GraphView \<Rightarrow> string \<Rightarrow> string \<Rightarrow> (bool \<times> real) list" where
  "out_pairs V u w = map (\<lambda>t. (t = u, edge_weight V w t)) (gv_OutNeighbors V w)"

context pointwise_divergence begin

lemma removal_returns:
  "compute (NormalizeDist (map snd ps)) (NormalizeDist (map (\<lambda>(r, w). if r then 0 else w) ps)) =
    Some (removal_value compute ps)"
  using compute_sum [of "NormalizeDist (map snd ps)" "NormalizeDist (map (\<lambda>(r, w). if r then 0 else w) ps)"]
  by (simp add: removal_value_def)

lemma removal_value_mset: "mset ps = mset ps' \<Longrightarrow> removal_value compute ps = removal_value compute ps'"
  using removal_mset [of ps ps'] by (simp add: removal_value_def)

lemma Calculate_mean:
  assumes "gv_GetNode V u \<noteq> None"
  shows "Calculate compute V u =
    Some (mean_over (\<lambda>w. gv_OutNeighbors V w \<noteq> []) (\<lambda>w. removal_value compute (out_pairs V u w)) (gv_Neighbors V u))"
proof -
  have step: "visit_neighbor compute V u w (s, c) = Some (if gv_OutNeighbors V w \<noteq> []
      then (s + removal_value compute (out_pairs V u w), c + 1) else (s, c))" for w s c
  proof -
    have "map snd (out_pairs V u w) = map (\<lambda>t. edge_weight V w t) (gv_OutNeighbors V w)"
      "map (\<lambda>(r, x). if r then 0 else x) (out_pairs V u w) = map (\<lambda>t. if t = u then 0 else edge_weight V w t) (gv_OutNeighbors V w)"
      by (simp_all add: out_pairs_def)
    with removal_returns [of "out_pairs V u w"] show ?thesis by (simp add: visit_neighbor_def Let_def)
  qed
  have "ofold (visit_neighbor compute V u) (gv_Neighbors V u) (0, 0) =
      Some (0 + sum_list (map (\<lambda>w. removal_value compute (out_pairs V u w)) (filter (\<lambda>w. gv_OutNeighbors V w \<noteq> []) (gv_Neighbors V u))),
        0 + of_nat (length (filter (\<lambda>w. gv_OutNeighbors V w \<noteq> []) (gv_Neighbors V u))))"
    by (rule mean_loop) (rule step)
  with assms show ?thesis by (auto simp: Calculate_def mean_over_def Let_def)
qed

end

section \<open>Closed forms of the kernels\<close>

lemma pointers_row:
  assumes "pointers_ok n m ptr" and "j < n"
  shows "j + 1 < length ptr" and "ptr ! j \<le> ptr ! (j + 1)" and "ptr ! (j + 1) \<le> m"
  using assms by (auto simp: pointers_ok_def sorted_iff_nth_mono)

lemma row_arrays:
  assumes "pointers_ok n m ptr" and "length c = m" and "length v = m" and "j < n"
  shows "build_distributions c v i (ptr ! j) (ptr ! (j + 1) - ptr ! j) =
      Some (map snd (pairs_of i (rows_of ptr (c, v) j)), map (\<lambda>(r, w). if r then 0 else w) (pairs_of i (rows_of ptr (c, v) j)))"
    and "length (rows_of ptr (c, v) j) = ptr ! (j + 1) - ptr ! j"
  using pointers_row [OF assms(1,4)] assms(2,3)
  by (simp_all add: build_distributions_eq rows_of_map pairs_of_def comp_def)

lemma kernel_steps:
  assumes "pointers_ok n m ptr" and "length c = m" and "length v = m" and "j < n"
  shows "add_neighbor_divergence ptr c v i j (s, k) = Some (if rows_of ptr (c, v) j \<noteq> []
      then (s + removal_value kernel_jsd (pairs_of i (rows_of ptr (c, v) j)), k + 1) else (s, k))"
    and "add_neighbor_divergenceF32 ptr c v i j (s, k) =
      Some (if rows_of ptr (c, v) j \<noteq> [] \<and> length (rows_of ptr (c, v) j) \<le> MaxOutDegree
      then (s + removal_value jsdF32 (pairs_of i (rows_of ptr (c, v) j)), k + 1) else (s, k))"
proof -
  note ptr = pointers_row [OF assms(1,4)] and rows = row_arrays [OF assms]
  have ne: "rows_of ptr (c, v) j = [] \<longleftrightarrow> ptr ! (j + 1) - ptr ! j = 0" using rows(2) by (metis length_0_conv)
  show "add_neighbor_divergence ptr c v i j (s, k) = Some (if rows_of ptr (c, v) j \<noteq> []
      then (s + removal_value kernel_jsd (pairs_of i (rows_of ptr (c, v) j)), k + 1) else (s, k))"
    unfolding ne add_neighbor_divergence_def
    using ptr by (simp add: rows(1) [of i, simplified] normalize_dist_eq jsd64.removal_returns Let_def)
  show "add_neighbor_divergenceF32 ptr c v i j (s, k) =
      Some (if rows_of ptr (c, v) j \<noteq> [] \<and> length (rows_of ptr (c, v) j) \<le> MaxOutDegree
      then (s + removal_value jsdF32 (pairs_of i (rows_of ptr (c, v) j)), k + 1) else (s, k))"
    unfolding ne rows(2) add_neighbor_divergenceF32_def
    using ptr by (auto simp: rows(1) [of i, simplified] normalizeInPlaceF32_eq jsd32.removal_returns Let_def)
qed

definition array_neighbors :: "CSRGraph \<Rightarrow> CSCGraph \<Rightarrow> nat \<Rightarrow> nat list" where
  "array_neighbors csr csc i =
     snd (fold visit_unseen (map fst (csc_col csc i)) (fold visit_unseen (map fst (csr_row csr i)) ([], [])))"

lemma array_neighbors_set:
  "set (array_neighbors csr csc i) = fst ` set (csr_row csr i) \<union> fst ` set (csc_col csc i)"
  "distinct (array_neighbors csr csc i)"
  using visit_two_layers [of "map fst (csc_col csc i)" "map fst (csr_row csr i)"]
  by (simp_all add: array_neighbors_def)

lemma kernels_closed:
  assumes f: "csr_faithful V csr csc" and i: "i < gv_NodeCount V"
  shows "ComputeNodeTension (csr_RowPtr csr) (csr_ColIdx csr) (csr_Values csr) (csc_ColPtr csc) (csc_RowIdx csc) i (csr_NumNodes csr) =
      Some (mean_over (\<lambda>j. csr_row csr j \<noteq> []) (\<lambda>j. removal_value kernel_jsd (pairs_of i (csr_row csr j))) (array_neighbors csr csc i))"
    and "ComputeNodeTensionF32 (csr_RowPtr csr) (csr_ColIdx csr) (csr_Values csr) (csc_ColPtr csc) (csc_RowIdx csc) i (csr_NumNodes csr) =
      Some (mean_over (\<lambda>j. csr_row csr j \<noteq> [] \<and> length (csr_row csr j) \<le> MaxOutDegree)
        (\<lambda>j. removal_value jsdF32 (pairs_of i (csr_row csr j))) (take MaxNeighbors (array_neighbors csr csc i)))"
proof -
  let ?n = "gv_NodeCount V" and ?m = "gv_EdgeCount V" and ?N = "array_neighbors csr csc i"
  have p: "pointers_ok ?n ?m (csr_RowPtr csr)" "pointers_ok ?n ?m (csc_ColPtr csc)" "length (csr_ColIdx csr) = ?m"
    "length (csr_Values csr) = ?m" "length (csc_RowIdx csc) = ?m" "length (csc_Values csc) = ?m" "csr_NumNodes csr = ?n"
    using f by (simp_all add: csr_faithful_def Let_def)
  have rows: "holds_row (csr_row csr i) (\<lambda>j w. j < ?n \<and> (\<exists>e. gv_GetEdge V (csr_NodeIDs csr ! i) (csr_NodeIDs csr ! j) = Some e \<and> w = e_Weight e))"
    "holds_row (csc_col csc i) (\<lambda>j w. j < ?n \<and> (\<exists>e. gv_GetEdge V (csr_NodeIDs csr ! j) (csr_NodeIDs csr ! i) = Some e \<and> w = e_Weight e))"
    using f i unfolding csr_faithful_def Let_def by blast+
  then have small: "j < ?n" if "j \<in> set ?N" for j
    using that by (auto simp: array_neighbors_set holds_row_def)
  have collect: "collect_range visit (csr_RowPtr csr) (csr_ColIdx csr) i s = Some (fold (\<lambda>k s. visit s k) (map fst (csr_row csr i)) s)"
    "collect_range visit (csc_ColPtr csc) (csc_RowIdx csc) i s = Some (fold (\<lambda>k s. visit s k) (map fst (csc_col csc i)) s)"
    for visit :: "'s \<Rightarrow> nat \<Rightarrow> 's" and s
    using collect_range_eq [where visit = visit and s = s and c = "csr_ColIdx csr" and v = "csr_Values csr", OF pointers_row(1,2) [OF p(1) i]]
      collect_range_eq [where visit = visit and s = s and c = "csc_RowIdx csc" and v = "csc_Values csc", OF pointers_row(1,2) [OF p(2) i]]
      pointers_row(3) [OF p(1) i] pointers_row(3) [OF p(2) i] p(3-6)
    by (simp_all add: csr_row_def csc_col_def)
  note steps = kernel_steps [OF p(1,3,4), folded csr_row_def, of _ i]
  have "collectNeighbors (csr_RowPtr csr) (csr_ColIdx csr) (csc_ColPtr csc) (csc_RowIdx csc) i = Some ?N"
    by (simp add: collectNeighbors_def collect array_neighbors_def)
  moreover have "ofold (add_neighbor_divergence (csr_RowPtr csr) (csr_ColIdx csr) (csr_Values csr) i) ?N (0, 0) =
      Some (0 + sum_list (map (\<lambda>j. removal_value kernel_jsd (pairs_of i (csr_row csr j))) (filter (\<lambda>j. csr_row csr j \<noteq> []) ?N)),
        0 + of_nat (length (filter (\<lambda>j. csr_row csr j \<noteq> []) ?N)))"
    by (rule mean_loop) (rule steps(1) [OF small])
  ultimately show "ComputeNodeTension (csr_RowPtr csr) (csr_ColIdx csr) (csr_Values csr) (csc_ColPtr csc) (csc_RowIdx csc) i (csr_NumNodes csr) =
      Some (mean_over (\<lambda>j. csr_row csr j \<noteq> []) (\<lambda>j. removal_value kernel_jsd (pairs_of i (csr_row csr j))) ?N)"
    using i p(7) by (auto simp: ComputeNodeTension_def mean_over_def Let_def)
  let ?T = "take MaxNeighbors ?N"
  have "collectNeighborsF32 (csr_RowPtr csr) (csr_ColIdx csr) (csc_ColPtr csc) (csc_RowIdx csc) i MaxNeighbors = Some ?T"
    using capped_loop [OF seen_agrees_start, of MaxNeighbors "map fst (csr_row csr i)"]
      capped_loop [where m = MaxNeighbors and ks = "map fst (csc_col csc i)", OF conjunct1 [OF visit_unseen_loop [OF seen_agrees_start, of "map fst (csr_row csr i)"]]]
    by (simp add: collectNeighborsF32_def collect array_neighbors_def)
  moreover have "ofold (add_neighbor_divergenceF32 (csr_RowPtr csr) (csr_ColIdx csr) (csr_Values csr) i) ?T (0, 0) =
      Some (0 + sum_list (map (\<lambda>j. removal_value jsdF32 (pairs_of i (csr_row csr j))) (filter (\<lambda>j. csr_row csr j \<noteq> [] \<and> length (csr_row csr j) \<le> MaxOutDegree) ?T)),
        0 + of_nat (length (filter (\<lambda>j. csr_row csr j \<noteq> [] \<and> length (csr_row csr j) \<le> MaxOutDegree) ?T)))"
    by (rule mean_loop) (rule steps(2) [OF small], auto dest: in_set_takeD)
  ultimately show "ComputeNodeTensionF32 (csr_RowPtr csr) (csr_ColIdx csr) (csr_Values csr) (csc_ColPtr csc) (csc_RowIdx csc) i (csr_NumNodes csr) =
      Some (mean_over (\<lambda>j. csr_row csr j \<noteq> [] \<and> length (csr_row csr j) \<le> MaxOutDegree)
        (\<lambda>j. removal_value jsdF32 (pairs_of i (csr_row csr j))) ?T)"
    using i p(7) by (auto simp: ComputeNodeTensionF32_def mean_over_def Let_def)
qed

lemma store_all:
  assumes "\<And>i. i < n \<Longrightarrow> f i = Some (g i)"
  shows "ofold (\<lambda>i ts. do { t \<leftarrow> f i; Some (ts[i := t]) }) [0..<n] (replicate n (0 :: real)) = Some (map g [0..<n])"
proof -
  have "ofold (\<lambda>i ts. do { t \<leftarrow> f i; Some (ts[i := t]) }) [0..<k] (replicate n 0) = Some (map g [0..<k] @ replicate (n - k) 0)"
    if "k \<le> n" for k
    using that
  proof (induction k)
    case (Suc k)
    then have "replicate (n - k) (0 :: real) = 0 # replicate (n - Suc k) 0" by (simp add: replicate_Suc [symmetric] Suc_diff_Suc del: replicate_Suc)
    with Suc assms [of k] show ?case by (simp add: ofold_append list_update_append)
  qed simp
  from this [of n] show ?thesis by simp
qed

section \<open>Arrays and graph\<close>

context graph_view begin

lemma row_matches:
  assumes g: "invar g" and f: "csr_faithful (view g) csr csc" and ij: "i < gv_NodeCount (view g)" "j < gv_NodeCount (view g)"
  shows "mset (pairs_of i (csr_row csr j)) = mset (out_pairs (view g) (csr_NodeIDs csr ! i) (csr_NodeIDs csr ! j))"
proof -
  let ?V = "view g" and ?ids = "csr_NodeIDs csr" and ?n = "gv_NodeCount (view g)" and ?row = "csr_row csr j"
  let ?g = "\<lambda>t. (t = ?ids ! i, edge_weight ?V (?ids ! j) t)"
  have ids: "length ?ids = ?n" "distinct ?ids" "set ?ids = {u. gv_GetNode ?V u \<noteq> None}"
    using f by (auto simp: csr_faithful_def Let_def strict_sorted_iff)
  have row: "holds_row ?row (\<lambda>t w. t < ?n \<and> (\<exists>e. gv_GetEdge ?V (?ids ! j) (?ids ! t) = Some e \<and> w = e_Weight e))"
    using f ij(2) unfolding csr_faithful_def Let_def by blast
  then have cols: "distinct (map fst ?row)" by (simp add: holds_row_def strict_sorted_iff)
  have cell: "t < ?n \<and> w = edge_weight ?V (?ids ! j) (?ids ! t)" if "(t, w) \<in> set ?row" for t w
    using row that by (auto simp: holds_row_def edge_weight_def)
  have "pairs_of i ?row = map ?g (map (\<lambda>t. ?ids ! t) (map fst ?row))"
    unfolding pairs_of_def map_map comp_def
    by (rule map_cong [OF refl]) (use cell ids ij in \<open>auto simp: nth_eq_iff_index_eq\<close>)
  moreover have "mset (map (\<lambda>t. ?ids ! t) (map fst ?row)) = mset (gv_OutNeighbors ?V (?ids ! j))"
  proof (subst set_eq_iff_mset_eq_distinct [symmetric])
    show "distinct (map (\<lambda>t. ?ids ! t) (map fst ?row))"
      using cols cell ids by (subst distinct_map) (auto intro!: inj_onI simp: nth_eq_iff_index_eq)
    show "distinct (gv_OutNeighbors ?V (?ids ! j))" using OutNeighbors_law [OF g] by blast
    have "u \<in> set (map (\<lambda>t. ?ids ! t) (map fst ?row)) \<longleftrightarrow> gv_GetEdge ?V (?ids ! j) u \<noteq> None" for u
    proof
      assume "u \<in> set (map (\<lambda>t. ?ids ! t) (map fst ?row))"
      then show "gv_GetEdge ?V (?ids ! j) u \<noteq> None" using row by (auto simp: holds_row_def)
    next
      assume "gv_GetEdge ?V (?ids ! j) u \<noteq> None"
      then obtain e where e: "gv_GetEdge ?V (?ids ! j) u = Some e" by blast
      with GetEdge_iff [OF g] endpoints_present [OF g, of e] have "u \<in> set ?ids" by (auto simp: ids(3) edge_ends_def)
      then obtain t where "t < ?n" "?ids ! t = u" using ids(1) by (auto simp: in_set_conv_nth)
      with e row have "(t, e_Weight e) \<in> set ?row" unfolding holds_row_def by blast
      with \<open>?ids ! t = u\<close> show "u \<in> set (map (\<lambda>t. ?ids ! t) (map fst ?row))"
        unfolding set_map image_image by (intro image_eqI [of _ _ "(t, e_Weight e)"]) simp_all
    qed
    then show "set (map (\<lambda>t. ?ids ! t) (map fst ?row)) = set (gv_OutNeighbors ?V (?ids ! j))"
      using OutNeighbors_law [OF g] by blast
  qed
  ultimately have "mset (pairs_of i ?row) = image_mset ?g (mset (gv_OutNeighbors ?V (?ids ! j)))" by (simp only: mset_map)
  then show ?thesis by (simp only: out_pairs_def mset_map)
qed

lemma degrees_le_nodes:
  assumes "invar g"
  shows "length (gv_Neighbors (view g) u) \<le> gv_NodeCount (view g)"
    and "length (gv_OutNeighbors (view g) u) \<le> gv_NodeCount (view g)"
proof -
  have nodes: "card (n_ID ` set (gv_nodes (view g))) = gv_NodeCount (view g)"
    using distinct_card [OF node_ids_distinct [OF assms]] by (simp add: NodeCount_visited [OF assms])
  have "set (gv_Neighbors (view g) u) \<subseteq> n_ID ` set (gv_nodes (view g))"
    using neighbour_present [OF assms] GetNode_visited [OF assms] by blast
  moreover have "set (gv_OutNeighbors (view g) u) \<subseteq> set (gv_Neighbors (view g) u)"
    using Neighbors_law [OF assms] by blast
  ultimately show "length (gv_Neighbors (view g) u) \<le> gv_NodeCount (view g)"
    "length (gv_OutNeighbors (view g) u) \<le> gv_NodeCount (view g)"
    using Neighbors_law [OF assms, of u] OutNeighbors_law [OF assms, of u]
    by (metis card_mono distinct_card finite_imageI List.finite_set nodes subset_trans)+
qed

lemma neighbors_match:
  assumes g: "invar g" and f: "csr_faithful (view g) csr csc" and i: "i < gv_NodeCount (view g)"
  shows "mset (map (\<lambda>j. csr_NodeIDs csr ! j) (array_neighbors csr csc i)) = mset (gv_Neighbors (view g) (csr_NodeIDs csr ! i))"
    and "\<And>j. j \<in> set (array_neighbors csr csc i) \<Longrightarrow> j < gv_NodeCount (view g)"
proof -
  let ?V = "view g" and ?ids = "csr_NodeIDs csr" and ?n = "gv_NodeCount (view g)" and ?N = "array_neighbors csr csc i"
  have ids: "length ?ids = ?n" "distinct ?ids" "set ?ids = {u. gv_GetNode ?V u \<noteq> None}"
    using f by (auto simp: csr_faithful_def Let_def strict_sorted_iff)
  have rows: "holds_row (csr_row csr i) (\<lambda>j w. j < ?n \<and> (\<exists>e. gv_GetEdge ?V (?ids ! i) (?ids ! j) = Some e \<and> w = e_Weight e))"
    "holds_row (csc_col csc i) (\<lambda>j w. j < ?n \<and> (\<exists>e. gv_GetEdge ?V (?ids ! j) (?ids ! i) = Some e \<and> w = e_Weight e))"
    using f i unfolding csr_faithful_def Let_def by blast+
  have keys: "j \<in> fst ` set xs \<longleftrightarrow> (\<exists>w. R j w)" if "holds_row xs R" for xs R and j :: nat
    using that by (force simp: holds_row_def)
  have mem: "j \<in> set ?N \<longleftrightarrow> j < ?n \<and> ?ids ! j \<in> set (gv_Neighbors ?V (?ids ! i))" for j
    unfolding array_neighbors_set Un_iff keys [OF rows(1)] keys [OF rows(2)]
    using Neighbors_law [OF g] OutNeighbors_law [OF g] InNeighbors_law [OF g] by auto
  then show small: "\<And>j. j \<in> set ?N \<Longrightarrow> j < ?n" by blast
  show "mset (map (\<lambda>j. ?ids ! j) ?N) = mset (gv_Neighbors ?V (?ids ! i))"
  proof (subst set_eq_iff_mset_eq_distinct [symmetric])
    show "distinct (map (\<lambda>j. ?ids ! j) ?N)"
      using array_neighbors_set(2) [of csr csc i] small ids by (subst distinct_map) (auto intro!: inj_onI simp: nth_eq_iff_index_eq)
    show "distinct (gv_Neighbors ?V (?ids ! i))" using Neighbors_law [OF g] by blast
    have "\<exists>j < ?n. ?ids ! j = u" if "u \<in> set (gv_Neighbors ?V (?ids ! i))" for u
    proof -
      have "u \<in> set ?ids" using neighbour_present [OF g that] unfolding ids(3) by blast
      then show ?thesis unfolding in_set_conv_nth ids(1) by blast
    qed
    then have "set (gv_Neighbors ?V (?ids ! i)) \<subseteq> (\<lambda>j. ?ids ! j) ` set ?N" using mem by blast
    moreover have "(\<lambda>j. ?ids ! j) ` set ?N \<subseteq> set (gv_Neighbors ?V (?ids ! i))" using mem by blast
    ultimately show "set (map (\<lambda>j. ?ids ! j) ?N) = set (gv_Neighbors ?V (?ids ! i))" unfolding set_map by blast
  qed
qed

lemma kernels_match:
  assumes g: "invar g" and f: "csr_faithful (view g) csr csc" and i: "i < gv_NodeCount (view g)"
  shows "ComputeNodeTension (csr_RowPtr csr) (csr_ColIdx csr) (csr_Values csr) (csc_ColPtr csc) (csc_RowIdx csc) i (csr_NumNodes csr) =
      Calculate JSD_Compute (view g) (csr_NodeIDs csr ! i)"
    and "length (gv_Neighbors (view g) (csr_NodeIDs csr ! i)) \<le> MaxNeighbors \<Longrightarrow>
      ComputeNodeTensionF32 (csr_RowPtr csr) (csr_ColIdx csr) (csr_Values csr) (csc_ColPtr csc) (csc_RowIdx csc) i (csr_NumNodes csr) =
      Some (mean_over (\<lambda>w. gv_OutNeighbors (view g) w \<noteq> [] \<and> length (gv_OutNeighbors (view g) w) \<le> MaxOutDegree)
        (\<lambda>w. removal_value jsdF32 (out_pairs (view g) (csr_NodeIDs csr ! i) w)) (gv_Neighbors (view g) (csr_NodeIDs csr ! i)))"
proof -
  let ?V = "view g" and ?ids = "csr_NodeIDs csr" and ?N = "array_neighbors csr csc i"
  let ?u = "?ids ! i"
  note nbrs = neighbors_match [OF g f i]
  have "?u \<in> set ?ids" using f i by (auto simp: csr_faithful_def Let_def)
  then have node: "gv_GetNode ?V ?u \<noteq> None" using f by (auto simp: csr_faithful_def Let_def)
  note rows = row_matches [OF g f i nbrs(2)]
  have lens: "length (csr_row csr j) = length (gv_OutNeighbors ?V (?ids ! j))" if "j \<in> set ?N" for j
    using mset_eq_length [OF rows [OF that]] by (simp add: pairs_of_def out_pairs_def)
  then have empty: "(csr_row csr j \<noteq> []) = (gv_OutNeighbors ?V (?ids ! j) \<noteq> [])" if "j \<in> set ?N" for j
    using that by (metis length_0_conv)
  have mean64: "mean_over (\<lambda>j. csr_row csr j \<noteq> []) (\<lambda>j. removal_value kernel_jsd (pairs_of i (csr_row csr j))) ?N =
      mean_over (\<lambda>w. gv_OutNeighbors ?V w \<noteq> []) (\<lambda>w. removal_value kernel_jsd (out_pairs ?V ?u w)) (gv_Neighbors ?V ?u)"
    by (rule mean_over_mset [OF nbrs(1)]) (erule empty, rule jsd64.removal_value_mset, erule rows)
  have "kernel_jsd = JSD_Compute" by (intro ext) (rule kernel_jsd_eq)
  then show "ComputeNodeTension (csr_RowPtr csr) (csr_ColIdx csr) (csr_Values csr) (csc_ColPtr csc) (csc_RowIdx csc) i (csr_NumNodes csr) =
      Calculate JSD_Compute ?V ?u"
    unfolding kernels_closed(1) [OF f i] mean64 using jsd64.Calculate_mean [OF node] by simp
  show "ComputeNodeTensionF32 (csr_RowPtr csr) (csr_ColIdx csr) (csr_Values csr) (csc_ColPtr csc) (csc_RowIdx csc) i (csr_NumNodes csr) =
      Some (mean_over (\<lambda>w. gv_OutNeighbors ?V w \<noteq> [] \<and> length (gv_OutNeighbors ?V w) \<le> MaxOutDegree)
        (\<lambda>w. removal_value jsdF32 (out_pairs ?V ?u w)) (gv_Neighbors ?V ?u))"
    if few: "length (gv_Neighbors ?V ?u) \<le> MaxNeighbors"
  proof -
    have "length ?N \<le> MaxNeighbors" using few mset_eq_length [OF nbrs(1)] by simp
    moreover have "mean_over (\<lambda>j. csr_row csr j \<noteq> [] \<and> length (csr_row csr j) \<le> MaxOutDegree)
          (\<lambda>j. removal_value jsdF32 (pairs_of i (csr_row csr j))) ?N =
        mean_over (\<lambda>w. gv_OutNeighbors ?V w \<noteq> [] \<and> length (gv_OutNeighbors ?V w) \<le> MaxOutDegree)
          (\<lambda>w. removal_value jsdF32 (out_pairs ?V ?u w)) (gv_Neighbors ?V ?u)"
      by (rule mean_over_mset [OF nbrs(1)]) (simp only: empty lens, rule jsd32.removal_value_mset, erule rows)
    ultimately show ?thesis using kernels_closed(2) [OF f i] by simp
  qed
qed

end

lemma SerializeCSRF32_eq: "SerializeCSRF32 V = SerializeCSR V"
proof -
  have "fold (\<lambda>i vs. vs[i := xs ! i]) [0..<length xs] ys = xs" if "length ys = length xs" for xs ys :: "real list"
  proof -
    have "fold (\<lambda>i vs. vs[i := xs ! i]) [0..<k] ys = take k xs @ drop k ys" if "k \<le> length xs" for k
      using that
    proof (induction k)
      case (Suc k)
      with \<open>length ys = length xs\<close> have "drop k ys = ys ! k # drop (Suc k) ys" by (simp add: Cons_nth_drop_Suc)
      with Suc show ?case by (simp add: list_update_append take_Suc_conv_app_nth)
    qed simp
    from this [of "length xs"] that show ?thesis by simp
  qed
  then show ?thesis by (cases "SerializeCSR V") (simp_all add: SerializeCSRF32_def Let_def)
qed

lemma mean_over_cong:
  "(\<And>x. x \<in> set xs \<Longrightarrow> P x = P' x) \<Longrightarrow> mean_over P f xs = mean_over P' f xs"
  by (simp add: mean_over_def cong: filter_cong)

lemma mean_over_none: "(\<And>x. x \<in> set xs \<Longrightarrow> \<not> P x) \<Longrightarrow> mean_over P f xs = 0"
  by (simp add: mean_over_def filter_False)

section \<open>Properties\<close>





end
