(* ===== verification/Gpu_Backend.thy ===== *)
theory Gpu_Backend
  imports Gpu_Kernel
begin

text \<open>
  \<open>gpu/backend.go\<close>, \<open>gpu/gosl_backend.go\<close> and \<open>gpu/gpu_dispatch.go\<close>: the compute backend. The
  WebGPU library is a parameter: \<open>ComputeSystem\<close> holds the answers of the calls the dispatch makes
  (an error message where the call fails) and what the shader leaves in the output buffer. The
  mutex makes each method one step. The lemmas show the fallback to the CPU kernel, what the
  serialization cache returns, and the closed state.
\<close>

section \<open>Errors and device\<close>

datatype gpu_error =
    ErrGPUInitFailed string
  | ErrGPUNotAvailable string
  | ErrUploadFailed string
  | ErrComputeFailed string
  | ErrDownloadFailed string

record DeviceInfo =
  di_Name :: string
  di_Vendor :: string
  di_Backend :: string
  di_MemoryMB :: int
  di_MaxThreads :: int

definition DeviceInfo_String :: "DeviceInfo \<Rightarrow> string" where
  "DeviceInfo_String d =
     (if di_Name d = '''' then di_Backend d @ '' ('' @ di_Vendor d @ '')''
      else di_Name d @ '' '' @ [CHR 0xE2, CHR 0x80, CHR 0x94] @ '' '' @ di_Backend d @ '' ('' @ di_Vendor d @ '')'')"

section \<open>The pipeline\<close>

record GPU =
  gpu_DeviceName :: string
  gpu_VendorName :: string
  gpu_BackendType :: string

datatype buffer = Params nat | Ints "nat list" | Floats "real list"

record ComputeSystem =
  cs_ValueByIndex :: "string \<Rightarrow> string option"
  cs_BeginComputePass :: "string option"
  cs_ReadValue :: "string \<Rightarrow> string option"
  cs_shader :: "(string \<times> buffer) list \<Rightarrow> nat \<Rightarrow> real list"

record gpuPipeline =
  gp_gpu :: "GPU option"
  gp_system :: "ComputeSystem option"
  gp_info :: DeviceInfo

definition initGPUPipeline :: "GPU option \<Rightarrow> ComputeSystem \<Rightarrow> gpu_error + gpuPipeline option" where
  "initGPUPipeline newComputeGPU sy = (case newComputeGPU of
     None \<Rightarrow> Inl (ErrGPUInitFailed ''NewComputeGPU returned nil'')
   | Some gp \<Rightarrow> Inr (Some \<lparr>gp_gpu = Some gp, gp_system = Some sy,
       gp_info = \<lparr>di_Name = gpu_DeviceName gp, di_Vendor = gpu_VendorName gp,
         di_Backend = ''WebGPU/'' @ gpu_BackendType gp @ '' (WGSL)'', di_MemoryMB = 0, di_MaxThreads = 0\<rparr>\<rparr>))"

text \<open>Without cgo there is no pipeline.\<close>

definition initGPUPipeline_nocgo :: "gpu_error + gpuPipeline option" where
  "initGPUPipeline_nocgo = Inr None"

text \<open>The uploads in their order; the first that fails ends the dispatch.\<close>

fun upload :: "ComputeSystem \<Rightarrow> (string \<times> buffer) list \<Rightarrow> gpu_error option" where
  "upload sy [] = None"
| "upload sy ((name, buf) # bufs) = (case cs_ValueByIndex sy name of
     None \<Rightarrow> upload sy bufs
   | Some err \<Rightarrow> Some (ErrUploadFailed (name @ '': '' @ err)))"

definition dispatch ::
  "gpuPipeline \<Rightarrow> nat list \<Rightarrow> nat list \<Rightarrow> real list \<Rightarrow> nat list \<Rightarrow> nat list \<Rightarrow> nat \<Rightarrow> (gpu_error + real list) option" where
  "dispatch p csrRowPtr csrColIdx csrValues cscColPtr cscRowIdx numNodes = do {
     sy \<leftarrow> gp_system p;
     let tensions = replicate numNodes 0;
     let bufs = [(''params'', Params numNodes), (''csr_row_ptr'', Ints csrRowPtr), (''csr_col_idx'', Ints csrColIdx),
       (''csr_values'', Floats csrValues), (''csc_col_ptr'', Ints cscColPtr), (''csc_row_idx'', Ints cscRowIdx),
       (''tensions'', Floats tensions)];
     Some (case upload sy bufs of
       Some err \<Rightarrow> Inl err
     | None \<Rightarrow> (case cs_BeginComputePass sy of
         Some err \<Rightarrow> Inl (ErrComputeFailed (''begin compute pass: '' @ err))
       | None \<Rightarrow> (case cs_ReadValue sy ''tensions'' of
           Some err \<Rightarrow> Inl (ErrDownloadFailed (''read tensions: '' @ err))
         | None \<Rightarrow> (let out = take numNodes (cs_shader sy bufs numNodes)
                    in Inr (out @ drop (length out) tensions)))))
   }"

definition pipeline_release :: "gpuPipeline \<Rightarrow> gpuPipeline" where
  "pipeline_release p =
     (let p = (if gp_system p \<noteq> None then p\<lparr>gp_system := None\<rparr> else p)
      in if gp_gpu p \<noteq> None then p\<lparr>gp_gpu := None\<rparr> else p)"

section \<open>The backend\<close>

record GoSLBackend =
  gb_pipeline :: "gpuPipeline option"
  gb_info :: DeviceInfo
  gb_available :: bool
  gb_closed :: bool
  gb_useGPU :: bool
  gb_cachedCSR :: "CSRGraphF32 option"
  gb_cachedCSC :: "CSCGraph option"
  gb_cacheNodeCount :: nat
  gb_cacheEdgeCount :: nat

definition NewGoSLBackend :: "gpu_error + gpuPipeline option \<Rightarrow> GoSLBackend" where
  "NewGoSLBackend initResult =
     (let b = \<lparr>gb_pipeline = None, gb_info = \<lparr>di_Name = '''', di_Vendor = '''', di_Backend = '''', di_MemoryMB = 0, di_MaxThreads = 0\<rparr>,
        gb_available = True, gb_closed = False, gb_useGPU = False, gb_cachedCSR = None, gb_cachedCSC = None,
        gb_cacheNodeCount = 0, gb_cacheEdgeCount = 0\<rparr>;
          fallback = b\<lparr>gb_info := \<lparr>di_Name = ''CPU Reference (f32)'', di_Vendor = ''none'',
            di_Backend = ''GoSL (CPU fallback, float32)'', di_MemoryMB = 0, di_MaxThreads = 0\<rparr>, gb_useGPU := False\<rparr>
      in case initResult of
        Inl _ \<Rightarrow> fallback
      | Inr None \<Rightarrow> fallback
      | Inr (Some pipeline) \<Rightarrow> b\<lparr>gb_pipeline := Some pipeline, gb_info := gp_info pipeline, gb_useGPU := True\<rparr>)"

definition Backend_Name :: "GoSLBackend \<Rightarrow> string" where
  "Backend_Name b = ''gosl''"

definition Available :: "GoSLBackend \<Rightarrow> bool" where
  "Available b \<longleftrightarrow> gb_available b \<and> \<not> gb_closed b"

definition Backend_DeviceInfo :: "GoSLBackend \<Rightarrow> DeviceInfo" where
  "Backend_DeviceInfo b = gb_info b"

text \<open>The cached arrays and the backend that holds them, serializing the graph if its counts changed.\<close>

definition serialized_graph :: "GoSLBackend \<Rightarrow> GraphView \<Rightarrow> (GoSLBackend \<times> CSRGraphF32 \<times> CSCGraph) option" where
  "serialized_graph b V =
     (let nc = gv_NodeCount V; ec = gv_EdgeCount V in
      if gb_cachedCSR b = None \<or> gb_cacheNodeCount b \<noteq> nc \<or> gb_cacheEdgeCount b \<noteq> ec
      then do {
        csr \<leftarrow> SerializeCSRF32 V;
        csc \<leftarrow> SerializeCSC V (csr_NodeIdx csr);
        Some (b\<lparr>gb_cachedCSR := Some csr, gb_cachedCSC := Some csc, gb_cacheNodeCount := nc, gb_cacheEdgeCount := ec\<rparr>, csr, csc)
      }
      else do { csr \<leftarrow> gb_cachedCSR b; csc \<leftarrow> gb_cachedCSC b; Some (b, csr, csc) })"

definition run_kernel :: "GoSLBackend \<Rightarrow> CSRGraphF32 \<Rightarrow> CSCGraph \<Rightarrow> real list option" where
  "run_kernel b csr csc =
     (let cpu = ComputeAllTensionsF32 (csr_RowPtr csr) (csr_ColIdx csr) (csr_Values csr) (csc_ColPtr csc) (csc_RowIdx csc) (csr_NumNodes csr)
      in if gb_useGPU b \<and> gb_pipeline b \<noteq> None
         then do {
           p \<leftarrow> gb_pipeline b;
           r \<leftarrow> dispatch p (csr_RowPtr csr) (csr_ColIdx csr) (csr_Values csr) (csc_ColPtr csc) (csc_RowIdx csc) (csr_NumNodes csr);
           (case r of Inl err \<Rightarrow> cpu | Inr tensions \<Rightarrow> Some tensions)
         }
         else cpu)"

definition AnalyzeTensions :: "GraphView \<Rightarrow> GoSLBackend \<Rightarrow> (GoSLBackend \<times> (gpu_error + (string, real) gomap)) option" where
  "AnalyzeTensions V b =
     (if gb_closed b then Some (b, Inl (ErrGPUNotAvailable ''backend closed''))
      else do {
        (b, csr, csc) \<leftarrow> serialized_graph b V;
        (if csr_NumNodes csr = 0 then Some (b, Inr [])
         else do {
           tensionsF32 \<leftarrow> run_kernel b csr csc;
           result \<leftarrow> ofold (\<lambda>(i, nid) result. do { t \<leftarrow> index tensionsF32 i; Some (AList.update nid t result) })
             (zip [0..<length (csr_NodeIDs csr)] (csr_NodeIDs csr)) [];
           Some (b, Inr result)
         })
      })"

definition Backend_FiedlerApprox :: "GraphView \<Rightarrow> string list \<Rightarrow> GoSLBackend \<Rightarrow> gpu_error + real" where
  "Backend_FiedlerApprox V nodeIDs b = Inl (ErrComputeFailed ''FiedlerApprox not yet implemented on GPU'')"

definition Backend_Close :: "GoSLBackend \<Rightarrow> GoSLBackend" where
  "Backend_Close b =
     (if gb_closed b then b
      else (let b = (case gb_pipeline b of Some p \<Rightarrow> b\<lparr>gb_pipeline := None\<rparr> | None \<Rightarrow> b)
            in b\<lparr>gb_closed := True, gb_available := False, gb_useGPU := False, gb_cachedCSR := None, gb_cachedCSC := None\<rparr>))"

section \<open>What a call returns\<close>

text \<open>The device does not answer: every dispatch ends in an error, so the CPU kernel runs.\<close>

definition no_device :: "GoSLBackend \<Rightarrow> bool" where
  "no_device b \<longleftrightarrow> (gb_useGPU b \<longrightarrow> (\<forall>p. gb_pipeline b = Some p \<longrightarrow> (\<exists>sy. gp_system p = Some sy \<and> cs_BeginComputePass sy \<noteq> None)))"

lemma dispatch_fails:
  assumes "gp_system p = Some sy" and "cs_BeginComputePass sy \<noteq> None"
  shows "\<exists>err. dispatch p a c w a' c' n = Some (Inl err)"
  using assms by (auto simp: dispatch_def Let_def split: option.split)

lemma run_kernel_cpu:
  assumes "no_device b"
  shows "run_kernel b csr csc =
    ComputeAllTensionsF32 (csr_RowPtr csr) (csr_ColIdx csr) (csr_Values csr) (csc_ColPtr csc) (csc_RowIdx csc) (csr_NumNodes csr)"
proof (cases "gb_useGPU b \<and> gb_pipeline b \<noteq> None")
  case True
  then obtain p where p: "gb_pipeline b = Some p" by blast
  with assms True obtain sy where "gp_system p = Some sy" "cs_BeginComputePass sy \<noteq> None" by (auto simp: no_device_def)
  from dispatch_fails [OF this] obtain err where
    "dispatch p (csr_RowPtr csr) (csr_ColIdx csr) (csr_Values csr) (csc_ColPtr csc) (csc_RowIdx csc) (csr_NumNodes csr) = Some (Inl err)"
    by blast
  with True p show ?thesis by (simp add: run_kernel_def Let_def)
next
  case False
  then show ?thesis by (simp only: run_kernel_def Let_def if_False)
qed

lemma result_loop:
  assumes "distinct ids" and "length ts = length ids"
  shows "ofold (\<lambda>(i, nid) result. do { t \<leftarrow> index ts i; Some (AList.update nid t result) }) (zip [0..<length ids] ids) [] =
    Some (zip ids ts)"
proof -
  have "ofold (\<lambda>(i, nid) result. do { t \<leftarrow> index ts i; Some (AList.update nid t result) })
      (map (\<lambda>i. (i, ids ! i)) [0..<k]) [] = Some (map (\<lambda>i. (ids ! i, ts ! i)) [0..<k])" if "k \<le> length ids" for k
    using that
  proof (induction k)
    case (Suc k)
    have "map_of (map (\<lambda>i. (ids ! i, ts ! i)) [0..<k]) (ids ! k) = None"
      using assms(1) Suc.prems by (auto simp: map_of_eq_None_iff nth_eq_iff_index_eq)
    with Suc assms(2) show ?case by (simp add: ofold_append update_absent)
  qed simp
  moreover have "zip [0..<length ids] ids = map (\<lambda>i. (i, ids ! i)) [0..<length ids]"
    "zip ids ts = map (\<lambda>i. (ids ! i, ts ! i)) [0..<length ids]"
    using assms(2) by (auto intro!: nth_equalityI)
  ultimately show ?thesis by simp
qed

lemma AnalyzeTensions_fresh:
  assumes ok: "uv_ok v" and V: "V = unified_view v" and b: "\<not> gb_closed b" "gb_cachedCSR b = None" "no_device b"
  shows "\<exists>csr csc ts. SerializeCSRF32 V = Some csr \<and> SerializeCSC V (csr_NodeIdx csr) = Some csc \<and> csr_faithful V csr csc \<and>
    ComputeAllTensionsF32 (csr_RowPtr csr) (csr_ColIdx csr) (csr_Values csr) (csc_ColPtr csc) (csc_RowIdx csc) (csr_NumNodes csr) = Some ts \<and>
    length ts = length (csr_NodeIDs csr) \<and>
    AnalyzeTensions V b = Some (b\<lparr>gb_cachedCSR := Some csr, gb_cachedCSC := Some csc,
      gb_cacheNodeCount := gv_NodeCount V, gb_cacheEdgeCount := gv_EdgeCount V\<rparr>, Inr (zip (csr_NodeIDs csr) ts))"
proof -
  obtain csr csc where s: "SerializeCSRF32 V = Some csr" "SerializeCSC V (csr_NodeIdx csr) = Some csc" "csr_faithful V csr csc"
    using uv_view.serialized [OF ok] unfolding V SerializeCSRF32_eq by blast
  let ?b = "b\<lparr>gb_cachedCSR := Some csr, gb_cachedCSC := Some csc, gb_cacheNodeCount := gv_NodeCount V, gb_cacheEdgeCount := gv_EdgeCount V\<rparr>"
  let ?K = "\<lambda>i. ComputeNodeTensionF32 (csr_RowPtr csr) (csr_ColIdx csr) (csr_Values csr) (csc_ColPtr csc) (csc_RowIdx csc) i (csr_NumNodes csr)"
  have ids: "csr_NumNodes csr = gv_NodeCount V" "length (csr_NodeIDs csr) = gv_NodeCount V" "distinct (csr_NodeIDs csr)"
    using s(3) by (simp_all add: csr_faithful_def Let_def strict_sorted_iff)
  have "?K i = Some (the (?K i))" if "i < gv_NodeCount V" for i using kernels_closed(2) [OF s(3) that] by simp
  from store_all [OF this] have ts: "ComputeAllTensionsF32 (csr_RowPtr csr) (csr_ColIdx csr) (csr_Values csr) (csc_ColPtr csc) (csc_RowIdx csc)
      (csr_NumNodes csr) = Some (map (\<lambda>i. the (?K i)) [0..<gv_NodeCount V])"
    unfolding ComputeAllTensionsF32_def by (simp only: ids(1))
  let ?ts = "map (\<lambda>i. the (?K i)) [0..<gv_NodeCount V]"
  have loop: "ofold (\<lambda>(i, nid) result. do { t \<leftarrow> index ?ts i; Some (AList.update nid t result) })
      (zip [0..<length (csr_NodeIDs csr)] (csr_NodeIDs csr)) [] = Some (zip (csr_NodeIDs csr) ?ts)"
    using result_loop [OF ids(3), of ?ts] ids(2) by simp
  have cpu: "no_device ?b" using b(3) by (simp add: no_device_def)
  have ser: "serialized_graph b V = Some (?b, csr, csc)" using b(2) s(1,2) by (simp add: serialized_graph_def Let_def)
  have "AnalyzeTensions V b = Some (?b, Inr (zip (csr_NodeIDs csr) ?ts))"
  proof (cases "gv_NodeCount V = 0")
    case True
    then show ?thesis using b(1) ser ids by (simp add: AnalyzeTensions_def)
  next
    case False
    then show ?thesis
      unfolding AnalyzeTensions_def ser using b(1) ids run_kernel_cpu [OF cpu, of csr csc] ts loop by simp
  qed
  with s ts ids(2) show ?thesis by (intro exI [of _ csr] exI [of _ csc] exI [of _ ?ts]) simp
qed

text \<open>A hit of the cache returns what the graph that was serialized would return.\<close>

lemma AnalyzeTensions_hit:
  assumes "AnalyzeTensions V b = Some (b', Inr m)" and "no_device b"
    and "gv_NodeCount V' = gv_NodeCount V" and "gv_EdgeCount V' = gv_EdgeCount V"
  shows "AnalyzeTensions V' b' = Some (b', Inr m)"
proof -
  from assms(1) have open': "\<not> gb_closed b" by (auto simp: AnalyzeTensions_def split: if_splits)
  from assms(1) open' obtain csr csc where ser: "serialized_graph b V = Some (b', csr, csc)"
    by (cases "serialized_graph b V") (auto simp: AnalyzeTensions_def bind_eq_Some_conv split: if_splits)
  then have b': "gb_cachedCSR b' = Some csr" "gb_cachedCSC b' = Some csc" "gb_cacheNodeCount b' = gv_NodeCount V"
    "gb_cacheEdgeCount b' = gv_EdgeCount V" "\<not> gb_closed b'" "no_device b'"
    using open' assms(2) by (auto simp: serialized_graph_def Let_def no_device_def bind_eq_Some_conv split: if_splits)
  then have "serialized_graph b' V' = Some (b', csr, csc)"
    using assms(3,4) by (simp add: serialized_graph_def Let_def)
  then show ?thesis
    using assms(1) ser open' b' by (simp add: AnalyzeTensions_def)
qed

section \<open>Property\<close>

text \<open>
  C27. The backend falls back to the CPU, and its cache can be stale. When the device is missing or
  its compute pass fails, a new backend answers with the tensions of the 32-bit CPU kernel: the
  result has exactly the nodes of the graph as keys, each with the kernel's value. But the answer is
  cached under the numbers of nodes and edges only: the next call on any graph with the same two
  numbers returns the same map, whatever its nodes and weights. After \<open>Close\<close> the backend is not
  available, every call is \<open>ErrGPUNotAvailable\<close>, and closing again changes nothing.
\<close>

theorem backend_fallback_and_cache:
  assumes "uv_ok v" and "V = unified_view v" and "gp = None \<or> cs_BeginComputePass sy \<noteq> None"
    and "b = NewGoSLBackend (initGPUPipeline gp sy)"
  shows "Available b \<and> (\<exists>b' m csr csc ts. AnalyzeTensions V b = Some (b', Inr m) \<and>
    SerializeCSRF32 V = Some csr \<and> SerializeCSC V (csr_NodeIdx csr) = Some csc \<and>
    ComputeAllTensionsF32 (csr_RowPtr csr) (csr_ColIdx csr) (csr_Values csr) (csc_ColPtr csc) (csc_RowIdx csc) (csr_NumNodes csr) = Some ts \<and>
    dom (map_of m) = {u. UV_GetNode u v \<noteq> None} \<and> (\<forall>i < UV_NodeCount v. map_of m (csr_NodeIDs csr ! i) = Some (ts ! i)) \<and>
    (\<forall>v2. UV_NodeCount v2 = UV_NodeCount v \<longrightarrow> UV_EdgeCount v2 = UV_EdgeCount v \<longrightarrow>
       AnalyzeTensions (unified_view v2) b' = Some (b', Inr m)) \<and>
    Backend_Close (Backend_Close b') = Backend_Close b' \<and> \<not> Available (Backend_Close b') \<and>
    (\<forall>W. AnalyzeTensions W (Backend_Close b') = Some (Backend_Close b', Inl (ErrGPUNotAvailable ''backend closed''))))"
proof -
  have new: "\<not> gb_closed b" "gb_cachedCSR b = None" "no_device b" "Available b"
    using assms(3) by (auto simp: assms(4) NewGoSLBackend_def initGPUPipeline_def no_device_def Available_def Let_def split: option.split)
  from AnalyzeTensions_fresh [OF assms(1,2) new(1-3)] obtain csr csc ts b' where
    r: "SerializeCSRF32 V = Some csr" "SerializeCSC V (csr_NodeIdx csr) = Some csc" "csr_faithful V csr csc"
      "ComputeAllTensionsF32 (csr_RowPtr csr) (csr_ColIdx csr) (csr_Values csr) (csc_ColPtr csc) (csc_RowIdx csc) (csr_NumNodes csr) = Some ts"
      "length ts = length (csr_NodeIDs csr)" "AnalyzeTensions V b = Some (b', Inr (zip (csr_NodeIDs csr) ts))" by blast
  let ?m = "zip (csr_NodeIDs csr) ts"
  have ids: "length (csr_NodeIDs csr) = UV_NodeCount v" "distinct (csr_NodeIDs csr)" "set (csr_NodeIDs csr) = {u. UV_GetNode u v \<noteq> None}"
    using r(3) by (simp_all add: csr_faithful_def Let_def strict_sorted_iff assms(2))
  have "dom (map_of ?m) = {u. UV_GetNode u v \<noteq> None}" using ids(3) r(5) by simp
  moreover have "map_of ?m (csr_NodeIDs csr ! i) = Some (ts ! i)" if "i < UV_NodeCount v" for i
    using map_of_zip_nth [OF r(5) [symmetric] ids(2)] that ids(1) r(5) by simp
  moreover have "AnalyzeTensions (unified_view v2) b' = Some (b', Inr ?m)"
    if "UV_NodeCount v2 = UV_NodeCount v" "UV_EdgeCount v2 = UV_EdgeCount v" for v2
    using AnalyzeTensions_hit [OF r(6) new(3)] that by (simp add: assms(2))
  moreover have "Backend_Close (Backend_Close b') = Backend_Close b'" "\<not> Available (Backend_Close b')"
    "AnalyzeTensions W (Backend_Close b') = Some (Backend_Close b', Inl (ErrGPUNotAvailable ''backend closed''))" for W
    by (simp_all add: Backend_Close_def Available_def AnalyzeTensions_def Let_def split: option.split)
  ultimately show ?thesis
    using new(4) r(1,2,4,6) by (intro conjI exI [of _ b'] exI [of _ ?m] exI [of _ csr] exI [of _ csc] exI [of _ ts] allI impI) simp_all
qed

definition other_view :: UnifiedView where
  "other_view = NewUnifiedView NewImmutableEmpty
     \<lparr>inner = the (Option.bind (AddEdge ''c'' ''d'' 2 [] 5 New) (AddEdge ''d'' ''c'' 3 [] 6))\<rparr>"

theorem backend_fallback_and_cache_witness:
  "\<exists>b' m. AnalyzeTensions (unified_view sample_view) (NewGoSLBackend (Inl (ErrGPUInitFailed ''NewComputeGPU returned nil''))) = Some (b', Inr m) \<and>
     AnalyzeTensions (unified_view other_view) b' = Some (b', Inr m) \<and>
     map_of m ''c'' = None \<and> UV_GetNode ''c'' other_view \<noteq> None"
proof -
  have facts: "UV_NodeCount other_view = UV_NodeCount sample_view" "UV_EdgeCount other_view = UV_EdgeCount sample_view"
    "UV_GetNode ''c'' other_view \<noteq> None" "UV_GetNode ''c'' sample_view = None" by code_simp+
  obtain b' m where r: "AnalyzeTensions (unified_view sample_view) (NewGoSLBackend (initGPUPipeline None undefined)) = Some (b', Inr m)"
    "dom (map_of m) = {u. UV_GetNode u sample_view \<noteq> None}"
    "\<forall>v2. UV_NodeCount v2 = UV_NodeCount sample_view \<longrightarrow> UV_EdgeCount v2 = UV_EdgeCount sample_view \<longrightarrow>
       AnalyzeTensions (unified_view v2) b' = Some (b', Inr m)"
    using backend_fallback_and_cache [where sy = undefined, OF sample_view_ok refl disjI1 [OF refl] refl] by blast
  then have "map_of m ''c'' = None" using facts(4) by blast
  with r facts show ?thesis by (auto simp: initGPUPipeline_def)
qed

end
