(* ===== verification/Public_Data.thy ===== *)
theory Public_Data
  imports Types Compaction
begin

text \<open>
  The structs of \<open>types.go\<close> and \<open>callbacks.go\<close> that cross the package boundary: nodes and edges as
  the callbacks see them, deltas, the storage format, statistics; and the conversions of
  \<open>engine.go\<close> and \<open>snapshot.go\<close> between them and the graph. The lemmas show what a graph keeps when
  it goes to storage and comes back.
\<close>

section \<open>Data\<close>

record Node =
  nd_ID :: string
  nd_Type :: string
  nd_Degree :: int
  nd_InDegree :: int
  nd_OutDegree :: int
  nd_Attributes :: "(string, real) gomap option"
  nd_FirstSeen :: time
  nd_LastSeen :: time

record Edge =
  ed_From :: string
  ed_To :: string
  ed_Weight :: real
  ed_Type :: string
  ed_Count :: int
  ed_FirstSeen :: time
  ed_LastSeen :: time

datatype DeltaType =
    DeltaNodeAdded | DeltaNodeUpdated | DeltaNodeRemoved
  | DeltaEdgeAdded | DeltaEdgeUpdated | DeltaEdgeRemoved
  | DeltaTensionChanged | DeltaAnomalyDetected | DeltaAnomalyResolved

record Delta =
  dl_Type :: DeltaType
  dl_Timestamp :: time
  dl_Version :: "64 word"
  dl_NodeID :: string
  dl_Node :: "Node option"
  dl_EdgeFrom :: string
  dl_EdgeTo :: string
  dl_Edge :: "Edge option"
  dl_Tension :: real
  dl_Previous :: real

record EngineStats =
  es_Nodes :: int
  es_Edges :: int
  es_OverlayEvents :: int
  es_BaseNodes :: int
  es_BaseEdges :: int
  es_VersionsCurrent :: "64 word"
  es_VersionsTotal :: "64 word"
  es_SnapshotsActive :: int
  es_EventsTotal :: int
  es_EventsPerSecond :: real
  es_Uptime :: duration

record GraphData =
  gd_Nodes :: "Node list"
  gd_Edges :: "Edge list"
  gd_Timestamp :: time

text \<open>\<open>ExportFormat\<close> is an integer type: \<open>Other_Format\<close> stands for the values without a name.\<close>

datatype ExportFormat = ExportJSON | ExportDOT | Other_Format

definition nodeFromGraph :: "NodeData \<Rightarrow> Node" where
  "nodeFromGraph n = \<lparr>nd_ID = n_ID n, nd_Type = n_Type n, nd_Degree = n_Degree n, nd_InDegree = n_InDegree n,
     nd_OutDegree = n_OutDegree n, nd_Attributes = None, nd_FirstSeen = n_FirstSeen n, nd_LastSeen = n_LastSeen n\<rparr>"

definition edgeFromGraph :: "EdgeData \<Rightarrow> Edge" where
  "edgeFromGraph e = \<lparr>ed_From = e_From e, ed_To = e_To e, ed_Weight = e_Weight e, ed_Type = e_Type e,
     ed_Count = e_Count e, ed_FirstSeen = e_FirstSeen e, ed_LastSeen = e_LastSeen e\<rparr>"

text \<open>The view a user's \<open>CurvatureFunc\<close> gets.\<close>

record AdapterView =
  av_GetNode :: "string \<Rightarrow> Node option"
  av_GetEdge :: "string \<Rightarrow> string \<Rightarrow> Edge option"
  av_Neighbors :: "string \<Rightarrow> string list"
  av_InNeighbors :: "string \<Rightarrow> string list"
  av_OutNeighbors :: "string \<Rightarrow> string list"

definition graphViewAdapter :: "GraphView \<Rightarrow> AdapterView" where
  "graphViewAdapter gv = \<lparr>
     av_GetNode = \<lambda>nid. (case gv_GetNode gv nid of None \<Rightarrow> None | Some n \<Rightarrow> Some (nodeFromGraph n)),
     av_GetEdge = \<lambda>from to. (case gv_GetEdge gv from to of None \<Rightarrow> None | Some e \<Rightarrow> Some (edgeFromGraph e)),
     av_Neighbors = gv_Neighbors gv, av_InNeighbors = gv_InNeighbors gv, av_OutNeighbors = gv_OutNeighbors gv\<rparr>"

section \<open>Storage\<close>

definition load_node :: "Node \<Rightarrow> Graph \<Rightarrow> Graph" where
  "load_node n g = AddNode \<lparr>n_ID = nd_ID n, n_Type = nd_Type n, n_Degree = nd_Degree n, n_InDegree = nd_InDegree n,
     n_OutDegree = nd_OutDegree n, n_Attributes = None, n_FirstSeen = nd_FirstSeen n, n_LastSeen = nd_LastSeen n\<rparr> g"

definition load_edge :: "Edge \<Rightarrow> Graph \<Rightarrow> Graph option" where
  "load_edge ed g = do {
     g1 \<leftarrow> AddEdge (ed_From ed) (ed_To ed) (ed_Weight ed) (ed_Type ed) (ed_FirstSeen ed) g;
     Some (modify_edge (ed_From ed) (ed_To ed) (\<lambda>ge. ge\<lparr>e_Count := ed_Count ed, e_LastSeen := ed_LastSeen ed\<rparr>) g1)
   }"

definition graphFromData :: "GraphData \<Rightarrow> ImmutableGraph option" where
  "graphFromData gd = do {
     g \<leftarrow> ofold load_edge (gd_Edges gd) (fold load_node (gd_Nodes gd) New);
     NewImmutable g
   }"

definition graphToData :: "time \<Rightarrow> ImmutableGraph \<Rightarrow> GraphData" where
  "graphToData now ig =
     (let nodes = IG_ForEachNode (\<lambda>n ns. (ns @ [nodeFromGraph n], True)) ig [];
          edges = IG_ForEachEdge (\<lambda>e es. (es @ [edgeFromGraph e], True)) ig []
      in \<lparr>gd_Nodes = nodes, gd_Edges = edges, gd_Timestamp = now\<rparr>)"

lemma load_node_fromGraph: "load_node (nodeFromGraph n) = copy_base_node n"
  by (simp add: load_node_def nodeFromGraph_def copy_base_node_def fun_eq_iff)

lemma load_edge_fromGraph: "load_edge (edgeFromGraph e) = copy_base_edge e"
  by (simp add: load_edge_def edgeFromGraph_def copy_base_edge_def fun_eq_iff)

lemma collect_map: "fold (\<lambda>x xs. xs @ [f x]) ys out = out @ map f ys"
  by (induction ys arbitrary: out) auto

lemma graphToData_eq:
  "graphToData now ig = \<lparr>gd_Nodes = map nodeFromGraph (ig_nodes ig), gd_Edges = map edgeFromGraph (ig_edges ig), gd_Timestamp = now\<rparr>"
  by (simp add: graphToData_def IG_ForEachNode_def IG_ForEachEdge_def ForEachNode_def ForEachEdge_def go_range_fold
      ig_nodes_def [symmetric] ig_edges_def [symmetric] collect_map)

lemma ofold_map: "ofold f (map g xs) s = ofold (\<lambda>x. f (g x)) xs s"
  by (induction xs arbitrary: s) (simp_all cong: Option.bind_cong)

lemma reload:
  assumes ok: "ig_ok ig"
  obtains ig' where "graphFromData (graphToData now ig) = Some ig'" and "ig_ok ig'"
    and "\<And>u v. IG_GetEdge u v ig' = IG_GetEdge u v ig"
    and "\<And>u. rel_option same_identity (IG_GetNode u ig') (map_option stripped (IG_GetNode u ig))"
    and "degrees_off (base_degrees ig) (inner ig')"
proof -
  obtain g where g: "ofold copy_base_edge (ig_edges ig) (fold copy_base_node (ig_nodes ig) New) = Some g" "wf_graph g"
    "map_of (g_edges g) = map_of (g_edges (inner ig))" "degrees_off (base_degrees ig) g"
    and n: "\<And>k. rel_option same_identity (map_of (g_nodes g) k) (map_option stripped (IG_GetNode k ig))"
    using base_copied [OF ok] by blast
  obtain cp where cp: "deepCopyGraph g = Some cp" "wf_graph cp" "g_nodes cp = g_nodes g" "g_edges cp = g_edges g"
    by (rule deepCopyGraph_correct [OF g(2)]) blast
  show thesis
  proof (rule that [of "\<lparr>inner = cp\<rparr>"])
    show "graphFromData (graphToData now ig) = Some \<lparr>inner = cp\<rparr>"
      using g(1) cp(1) by (simp add: graphFromData_def graphToData_eq ofold_map load_edge_fromGraph fold_map comp_def
          load_node_fromGraph NewImmutable_def)
    show "IG_GetEdge u v \<lparr>inner = cp\<rparr> = IG_GetEdge u v ig" for u v
      by (simp add: IG_GetEdge_def GetEdge_def cp(4) g(3))
    show same: "rel_option same_identity (IG_GetNode u \<lparr>inner = cp\<rparr>) (map_option stripped (IG_GetNode u ig))" for u
      using n [of u] by (simp add: IG_GetNode_def GetNode_def cp(3))
    have "IG_GetNode u ig \<noteq> None" if "IG_GetNode u \<lparr>inner = cp\<rparr> \<noteq> None" for u
      using same [of u] that by (auto simp: rel_option_iff split: option.splits)
    then show "ig_ok \<lparr>inner = cp\<rparr>"
      using ok cp(2) by (auto simp: ig_ok_def ids_nul_free_def keys_eq_dom dom_def IG_GetNode_def GetNode_def)
    show "degrees_off (base_degrees ig) (inner \<lparr>inner = cp\<rparr>)"
      using g(4) deepCopyGraph_neighbours [OF g(2) cp(2,4)] by (simp add: degrees_off_def cp(3))
  qed
qed

section \<open>Property\<close>

text \<open>
  C28. The round trip to storage and back. Converting a consistent graph to \<open>GraphData\<close> and loading it
  never panics and gives back every edge with all its fields and exactly the same nodes, with
  their types and seen intervals. The degree counters are not what was saved: \<open>AddEdge\<close> counts every
  edge on top of the loaded counters, so the out-degree after the round trip is the saved one plus
  the number of out-neighbours, and the same for the in-degree.
\<close>

theorem storage_roundtrip:
  assumes "ig_ok ig"
  shows "\<exists>ig'. graphFromData (graphToData now ig) = Some ig' \<and> ig_ok ig' \<and>
    (\<forall>u v. IG_GetEdge u v ig' = IG_GetEdge u v ig) \<and>
    (\<forall>u. map_option (\<lambda>n. (n_ID n, n_Type n, n_FirstSeen n, n_LastSeen n)) (IG_GetNode u ig') =
         map_option (\<lambda>n. (n_ID n, n_Type n, n_FirstSeen n, n_LastSeen n)) (IG_GetNode u ig)) \<and>
    (\<forall>u n n'. IG_GetNode u ig = Some n \<longrightarrow> IG_GetNode u ig' = Some n' \<longrightarrow>
         n_OutDegree n' = n_OutDegree n + int (length (IG_OutNeighbors u ig)) \<and>
         n_InDegree n' = n_InDegree n + int (length (IG_InNeighbors u ig)))"
proof -
  obtain ig' where r: "graphFromData (graphToData now ig) = Some ig'" "ig_ok ig'"
    "\<And>u v. IG_GetEdge u v ig' = IG_GetEdge u v ig"
    "\<And>u. rel_option same_identity (IG_GetNode u ig') (map_option stripped (IG_GetNode u ig))"
    "degrees_off (base_degrees ig) (inner ig')"
    using reload [OF assms, of now] by blast
  have nb: "length (IG_OutNeighbors u ig') = length (IG_OutNeighbors u ig)" "length (IG_InNeighbors u ig') = length (IG_InNeighbors u ig)" for u
    using ig_view.OutNeighbors_law [OF r(2), of u] ig_view.OutNeighbors_law [OF assms, of u]
      ig_view.InNeighbors_law [OF r(2), of u] ig_view.InNeighbors_law [OF assms, of u] r(3)
    by (auto simp: immutable_view_def distinct_card [symmetric] simp del: not_None_eq)
  have "map_option (\<lambda>n. (n_ID n, n_Type n, n_FirstSeen n, n_LastSeen n)) (IG_GetNode u ig') =
      map_option (\<lambda>n. (n_ID n, n_Type n, n_FirstSeen n, n_LastSeen n)) (IG_GetNode u ig)" for u
    using r(4) [of u] by (cases "IG_GetNode u ig"; cases "IG_GetNode u ig'") (auto simp: same_identity_def)
  moreover have "n_OutDegree n' = n_OutDegree n + int (length (IG_OutNeighbors u ig)) \<and>
      n_InDegree n' = n_InDegree n + int (length (IG_InNeighbors u ig))"
    if "IG_GetNode u ig = Some n" "IG_GetNode u ig' = Some n'" for u n n'
    using r(5) that nb [of u] by (auto simp: degrees_off_def base_degrees_def IG_defs GetNode_def)
  ultimately show ?thesis using r(1-3) by blast
qed

theorem storage_roundtrip_witness:
  "\<exists>ig'. graphFromData (graphToData 7 \<lparr>inner = sample_graph\<rparr>) = Some ig' \<and>
     map_option n_OutDegree (IG_GetNode ''a'' \<lparr>inner = sample_graph\<rparr>) = Some 1 \<and>
     map_option n_OutDegree (IG_GetNode ''a'' ig') = Some 2"
proof -
  have ok: "ig_ok \<lparr>inner = sample_graph\<rparr>" using sample_graph_ok by (simp add: ig_ok_def)
  have a: "map_option n_OutDegree (IG_GetNode ''a'' \<lparr>inner = sample_graph\<rparr>) = Some 1"
    "length (IG_OutNeighbors ''a'' \<lparr>inner = sample_graph\<rparr>) = 1" by code_simp+
  obtain ig' where r: "graphFromData (graphToData 7 \<lparr>inner = sample_graph\<rparr>) = Some ig'"
    "\<forall>u. map_option (\<lambda>n. (n_ID n, n_Type n, n_FirstSeen n, n_LastSeen n)) (IG_GetNode u ig') =
         map_option (\<lambda>n. (n_ID n, n_Type n, n_FirstSeen n, n_LastSeen n)) (IG_GetNode u \<lparr>inner = sample_graph\<rparr>)"
    "\<forall>u n n'. IG_GetNode u \<lparr>inner = sample_graph\<rparr> = Some n \<longrightarrow> IG_GetNode u ig' = Some n' \<longrightarrow>
         n_OutDegree n' = n_OutDegree n + int (length (IG_OutNeighbors u \<lparr>inner = sample_graph\<rparr>)) \<and>
         n_InDegree n' = n_InDegree n + int (length (IG_InNeighbors u \<lparr>inner = sample_graph\<rparr>))"
    using storage_roundtrip [OF ok, of 7] by blast
  obtain n where n: "IG_GetNode ''a'' \<lparr>inner = sample_graph\<rparr> = Some n" "n_OutDegree n = 1" using a(1) by auto
  with r(2) [rule_format, of "''a''"] obtain n' where "IG_GetNode ''a'' ig' = Some n'" by auto
  with r(1) r(3) n a show ?thesis by auto
qed

end
