(* ===== verification/Builder_Config.thy ===== *)
theory Builder_Config
  imports Public_Data Gpu_Backend Calibrator
begin

text \<open>
  \<open>builder.go\<close> and \<open>itt.go\<close>: the configuration of an engine. Optional functions are options, \<open>None\<close>
  is \<open>nil\<close>. A callback is the panic it ends in, if any, as a function of its argument; that it was
  called is recorded by the engine. The calibrator and the GPU backend are interfaces: the
  configuration holds their operations, over state types \<open>'c\<close> and \<open>'g\<close>; the objects themselves are
  part of the engine's state. The logger is left out, nothing depends on it. \<open>Build\<close> returns the
  configuration the engine is made from, or the error of the first check that fails.
\<close>

section \<open>Configuration\<close>

type_synonym 'a callback = "('a \<Rightarrow> string option) option"

record 'c CalibratorOps =
  cal_Observe :: "time \<Rightarrow> real \<Rightarrow> 'c \<Rightarrow> 'c"
  cal_IsWarmedUp :: "'c \<Rightarrow> bool"
  cal_IsAnomaly :: "real \<Rightarrow> 'c \<Rightarrow> bool"

record 'g BackendOps =
  bk_Available :: "'g \<Rightarrow> bool"
  bk_AnalyzeTensions :: "GraphView \<Rightarrow> 'g \<Rightarrow> ('g \<times> (gpu_error + (string, real) gomap)) option"
  bk_Close :: "'g \<Rightarrow> 'g \<times> string option"

record Storage =
  st_Load :: "string + GraphData option"
  st_Save :: "GraphData \<Rightarrow> string option"

type_synonym curvature_func = "AdapterView \<Rightarrow> string \<Rightarrow> string \<Rightarrow> real"
type_synonym topology_func = "AdapterView \<Rightarrow> int \<times> int"

record ('c, 'g) Builder =
  b_divergence :: "DivergenceFunc option"
  b_curvature :: "curvature_func option"
  b_topology :: "topology_func option"
  b_threshold :: real
  b_thresholdFunc :: "(Node \<Rightarrow> real \<Rightarrow> bool) option"
  b_weightFunc :: "(Event \<Rightarrow> real) option"
  b_nodeTypeFunc :: "(string \<Rightarrow> string) option"
  b_aggregation :: "(real list \<Rightarrow> real) option"
  b_gcSnapshotWarning :: duration
  b_gcSnapshotForce :: duration
  b_compactionStrategy :: CompactionStrategy
  b_compactionThreshold :: int
  b_compactionInterval :: duration
  b_onChange :: "Delta callback"
  b_onAnomaly :: "TensionResult callback"
  b_onCompact :: "CompactStats callback"
  b_onGC :: "GCStats callback"
  b_onError :: "string callback"
  b_storage :: "Storage option"
  b_baseGraph :: "GraphData option"
  b_calibrator :: "'c CalibratorOps option"
  b_curvatureAlpha :: real
  b_detectabilityAlpha :: real
  b_concealmentLambda :: real
  b_concealmentHops :: int
  b_temporalCapacity :: int
  b_diffusivityAlpha :: real
  b_onTensionSpike :: "(string \<times> real) callback"
  b_tensionSpikeThreshold :: real
  b_parallelWorkers :: int
  b_gpuBackend :: "'g BackendOps option"
  b_gpuThreshold :: int
  b_cacheEnabled :: bool
  b_cacheTTL :: duration
  b_channelSize :: int

definition minute :: duration where
  "minute = 60 * 10 ^ 9"

definition NewBuilder :: "('c, 'g) Builder" where
  "NewBuilder = \<lparr>b_divergence = None, b_curvature = None, b_topology = None, b_threshold = 2 / 10,
     b_thresholdFunc = None, b_weightFunc = None, b_nodeTypeFunc = None, b_aggregation = None,
     b_gcSnapshotWarning = 5 * minute, b_gcSnapshotForce = 15 * minute,
     b_compactionStrategy = CompactByVolume, b_compactionThreshold = 10000, b_compactionInterval = 0,
     b_onChange = None, b_onAnomaly = None, b_onCompact = None, b_onGC = None, b_onError = None,
     b_storage = None, b_baseGraph = None, b_calibrator = None, b_curvatureAlpha = 0,
     b_detectabilityAlpha = 5 / 100, b_concealmentLambda = 0, b_concealmentHops = 0,
     b_temporalCapacity = 100, b_diffusivityAlpha = 1 / 10, b_onTensionSpike = None,
     b_tensionSpikeThreshold = 3 / 10, b_parallelWorkers = 0, b_gpuBackend = None, b_gpuThreshold = 0,
     b_cacheEnabled = False, b_cacheTTL = 0, b_channelSize = 10000\<rparr>"

section \<open>Setters\<close>

text \<open>The methods that only assign a field; the two for the logger are left out.\<close>

definition B_Divergence :: "DivergenceFunc option \<Rightarrow> ('c, 'g) Builder \<Rightarrow> ('c, 'g) Builder" where
  "B_Divergence x b = b\<lparr>b_divergence := x\<rparr>"

definition B_CurvatureAlpha :: "real \<Rightarrow> ('c, 'g) Builder \<Rightarrow> ('c, 'g) Builder" where
  "B_CurvatureAlpha x b = b\<lparr>b_curvatureAlpha := x\<rparr>"

definition B_DetectabilityAlpha :: "real \<Rightarrow> ('c, 'g) Builder \<Rightarrow> ('c, 'g) Builder" where
  "B_DetectabilityAlpha x b = b\<lparr>b_detectabilityAlpha := x\<rparr>"

definition B_Topology :: "topology_func option \<Rightarrow> ('c, 'g) Builder \<Rightarrow> ('c, 'g) Builder" where
  "B_Topology x b = b\<lparr>b_topology := x\<rparr>"

definition B_Threshold :: "real \<Rightarrow> ('c, 'g) Builder \<Rightarrow> ('c, 'g) Builder" where
  "B_Threshold x b = b\<lparr>b_threshold := x\<rparr>"

definition B_ThresholdFunc :: "(Node \<Rightarrow> real \<Rightarrow> bool) option \<Rightarrow> ('c, 'g) Builder \<Rightarrow> ('c, 'g) Builder" where
  "B_ThresholdFunc x b = b\<lparr>b_thresholdFunc := x\<rparr>"

definition B_WeightFunc :: "(Event \<Rightarrow> real) option \<Rightarrow> ('c, 'g) Builder \<Rightarrow> ('c, 'g) Builder" where
  "B_WeightFunc x b = b\<lparr>b_weightFunc := x\<rparr>"

definition B_NodeTypeFunc :: "(string \<Rightarrow> string) option \<Rightarrow> ('c, 'g) Builder \<Rightarrow> ('c, 'g) Builder" where
  "B_NodeTypeFunc x b = b\<lparr>b_nodeTypeFunc := x\<rparr>"

definition B_AggregationFunc :: "(real list \<Rightarrow> real) option \<Rightarrow> ('c, 'g) Builder \<Rightarrow> ('c, 'g) Builder" where
  "B_AggregationFunc x b = b\<lparr>b_aggregation := x\<rparr>"

definition B_GCSnapshotWarning :: "duration \<Rightarrow> ('c, 'g) Builder \<Rightarrow> ('c, 'g) Builder" where
  "B_GCSnapshotWarning x b = b\<lparr>b_gcSnapshotWarning := x\<rparr>"

definition B_GCSnapshotForce :: "duration \<Rightarrow> ('c, 'g) Builder \<Rightarrow> ('c, 'g) Builder" where
  "B_GCSnapshotForce x b = b\<lparr>b_gcSnapshotForce := x\<rparr>"

definition B_CompactionStrategy :: "CompactionStrategy \<Rightarrow> ('c, 'g) Builder \<Rightarrow> ('c, 'g) Builder" where
  "B_CompactionStrategy x b = b\<lparr>b_compactionStrategy := x\<rparr>"

definition B_CompactionThreshold :: "int \<Rightarrow> ('c, 'g) Builder \<Rightarrow> ('c, 'g) Builder" where
  "B_CompactionThreshold x b = b\<lparr>b_compactionThreshold := x\<rparr>"

definition B_CompactionInterval :: "duration \<Rightarrow> ('c, 'g) Builder \<Rightarrow> ('c, 'g) Builder" where
  "B_CompactionInterval x b = b\<lparr>b_compactionInterval := x\<rparr>"

definition B_OnChange :: "Delta callback \<Rightarrow> ('c, 'g) Builder \<Rightarrow> ('c, 'g) Builder" where
  "B_OnChange x b = b\<lparr>b_onChange := x\<rparr>"

definition B_OnAnomaly :: "TensionResult callback \<Rightarrow> ('c, 'g) Builder \<Rightarrow> ('c, 'g) Builder" where
  "B_OnAnomaly x b = b\<lparr>b_onAnomaly := x\<rparr>"

definition B_OnCompact :: "CompactStats callback \<Rightarrow> ('c, 'g) Builder \<Rightarrow> ('c, 'g) Builder" where
  "B_OnCompact x b = b\<lparr>b_onCompact := x\<rparr>"

definition B_OnGC :: "GCStats callback \<Rightarrow> ('c, 'g) Builder \<Rightarrow> ('c, 'g) Builder" where
  "B_OnGC x b = b\<lparr>b_onGC := x\<rparr>"

definition B_OnError :: "string callback \<Rightarrow> ('c, 'g) Builder \<Rightarrow> ('c, 'g) Builder" where
  "B_OnError x b = b\<lparr>b_onError := x\<rparr>"

definition B_SetStorage :: "Storage option \<Rightarrow> ('c, 'g) Builder \<Rightarrow> ('c, 'g) Builder" where
  "B_SetStorage x b = b\<lparr>b_storage := x\<rparr>"

definition B_BaseGraph :: "GraphData option \<Rightarrow> ('c, 'g) Builder \<Rightarrow> ('c, 'g) Builder" where
  "B_BaseGraph x b = b\<lparr>b_baseGraph := x\<rparr>"

definition B_SetCalibrator :: "'c CalibratorOps option \<Rightarrow> ('c, 'g) Builder \<Rightarrow> ('c, 'g) Builder" where
  "B_SetCalibrator x b = b\<lparr>b_calibrator := x\<rparr>"

definition B_WithStorage :: "Storage option \<Rightarrow> ('c, 'g) Builder \<Rightarrow> ('c, 'g) Builder" where
  "B_WithStorage x b = b\<lparr>b_storage := x\<rparr>"

definition B_WithCalibrator :: "'c CalibratorOps option \<Rightarrow> ('c, 'g) Builder \<Rightarrow> ('c, 'g) Builder" where
  "B_WithCalibrator x b = b\<lparr>b_calibrator := x\<rparr>"

definition B_TemporalCapacity :: "int \<Rightarrow> ('c, 'g) Builder \<Rightarrow> ('c, 'g) Builder" where
  "B_TemporalCapacity x b = b\<lparr>b_temporalCapacity := x\<rparr>"

definition B_DiffusivityAlpha :: "real \<Rightarrow> ('c, 'g) Builder \<Rightarrow> ('c, 'g) Builder" where
  "B_DiffusivityAlpha x b = b\<lparr>b_diffusivityAlpha := x\<rparr>"

definition B_OnTensionSpike :: "(string \<times> real) callback \<Rightarrow> ('c, 'g) Builder \<Rightarrow> ('c, 'g) Builder" where
  "B_OnTensionSpike x b = b\<lparr>b_onTensionSpike := x\<rparr>"

definition B_TensionSpikeThreshold :: "real \<Rightarrow> ('c, 'g) Builder \<Rightarrow> ('c, 'g) Builder" where
  "B_TensionSpikeThreshold x b = b\<lparr>b_tensionSpikeThreshold := x\<rparr>"

definition B_ChannelSize :: "int \<Rightarrow> ('c, 'g) Builder \<Rightarrow> ('c, 'g) Builder" where
  "B_ChannelSize x b = b\<lparr>b_channelSize := x\<rparr>"

definition B_WithParallelWorkers :: "int \<Rightarrow> ('c, 'g) Builder \<Rightarrow> ('c, 'g) Builder" where
  "B_WithParallelWorkers x b = b\<lparr>b_parallelWorkers := x\<rparr>"

definition B_WithGPUBackend :: "'g BackendOps option \<Rightarrow> int \<Rightarrow> ('c, 'g) Builder \<Rightarrow> ('c, 'g) Builder" where
  "B_WithGPUBackend backend gpuThreshold b = b\<lparr>b_gpuBackend := backend, b_gpuThreshold := gpuThreshold\<rparr>"

definition B_Curvature :: "curvature_func option \<Rightarrow> ('c, 'g) Builder \<Rightarrow> ('c, 'g) Builder" where
  "B_Curvature c b =
     (let b = b\<lparr>b_curvature := c\<rparr>
      in if b_curvatureAlpha b = 0 then b\<lparr>b_curvatureAlpha := 5 / 10\<rparr> else b)"

definition B_Concealment :: "real \<Rightarrow> int \<Rightarrow> ('c, 'g) Builder \<Rightarrow> ('c, 'g) Builder" where
  "B_Concealment lambda maxHops b = b\<lparr>b_concealmentLambda := lambda, b_concealmentHops := maxHops\<rparr>"

text \<open>\<open>NewGoSLBackend\<close> never fails; its operations and the new object are what \<open>WithGPU\<close> installs.\<close>

definition gosl_ops :: "GoSLBackend BackendOps" where
  "gosl_ops = \<lparr>bk_Available = Available, bk_AnalyzeTensions = AnalyzeTensions, bk_Close = (\<lambda>b. (Backend_Close b, None))\<rparr>"

definition B_WithGPU :: "int \<Rightarrow> ('c, GoSLBackend) Builder \<Rightarrow> ('c, GoSLBackend) Builder" where
  "B_WithGPU gpuThreshold b =
     (if gpuThreshold \<le> 0 then b
      else b\<lparr>b_gpuBackend := Some gosl_ops, b_gpuThreshold := gpuThreshold\<rparr>)"

definition B_WithCache :: "duration \<Rightarrow> ('c, 'g) Builder \<Rightarrow> ('c, 'g) Builder" where
  "B_WithCache ttl b =
     (let b = b\<lparr>b_cacheEnabled := True\<rparr>
      in if ttl > 0 then b\<lparr>b_cacheTTL := ttl\<rparr> else b\<lparr>b_cacheTTL := minute\<rparr>)"

section \<open>Build\<close>

definition Build :: "('c, 'g) Builder \<Rightarrow> go_error + ('c, 'g) Builder" where
  "Build b =
     (if b_threshold b < 0 then Inl (ErrInvalidConfig ''threshold must be >= 0'')
      else if b_gcSnapshotForce b > 0 \<and> b_gcSnapshotWarning b > 0 \<and> b_gcSnapshotForce b < b_gcSnapshotWarning b
        then Inl (ErrInvalidConfig ''gcSnapshotForce must be >= gcSnapshotWarning'')
      else if b_channelSize b \<le> 0 then Inl (ErrInvalidConfig ''channelSize must be > 0'')
      else if b_detectabilityAlpha b \<le> 0 \<or> b_detectabilityAlpha b \<ge> 1
        then Inl (ErrInvalidConfig ''detectabilityAlpha must be in (0, 1)'')
      else if b_concealmentLambda b < 0 then Inl (ErrInvalidConfig ''concealmentLambda must be >= 0'')
      else if b_concealmentHops b < 0 then Inl (ErrInvalidConfig ''concealmentHops must be >= 0'')
      else if b_gpuThreshold b < 0 then Inl (ErrInvalidConfig ''gpuThreshold must be >= 0'')
      else Inr b)"

end
