(* ===== verification/Engine.thy ===== *)
theory Engine
  imports Builder_Config Event_Log Mvcc_GC Results_Cache Tension_History
begin

text \<open>
  \<open>engine.go\<close>: the engine's state and its operations, each as the code runs it when no other
  goroutine interferes; \<open>None\<close> is a panic. A call reads the clock once, its argument \<open>now\<close>. The objects
  the configuration points to - calibrator, GPU backend - are part of the state, and so are the
  versions' heap and the callbacks called so far (\<open>en_log\<close>). \<open>doCompact\<close> is given as the two halves
  that the base lock separates, because other goroutines see what lies between them. The logger
  is left out. What goroutines do to each other is the subject of the theories that import this.
\<close>

section \<open>State\<close>

datatype notice =
    N_Change Delta
  | N_Anomaly TensionResult
  | N_Compact CompactStats
  | N_GC GCStats
  | N_Spike string real
  | N_Error string

text \<open>What the result cache holds: the type assertion of the reader decides by the constructor.\<close>

datatype cached = Full_Analysis Results | Node_Analysis TensionResult | Region_Analysis RegionResult

record ('c, 'g) Engine =
  en_config :: "('c, 'g) Builder"
  en_heap :: vheap
  en_alloc :: vaddr
  en_vc :: Controller
  en_versionID :: "64 word"
  en_gc :: GC
  en_eventCh :: "Event list"
  en_started :: bool
  en_stopped :: bool
  en_ctxDone :: bool
  en_startTime :: time
  en_eventsTotal :: int
  en_base :: ImmutableGraph
  en_overlayCount :: int
  en_lastCompact :: time
  en_snapshotsActive :: int
  en_tensionHistory :: "(string, TensionHistory) gomap"
  en_lastTrend :: "(string, Trend) gomap"
  en_ResultsCache :: "cached ResultsCache option"
  en_cacheEnabled :: bool
  en_calibrator :: 'c
  en_gpu :: 'g
  en_log :: "notice list"
  en_saves :: "ImmutableGraph list"

record Snapshot =
  sn_version :: vaddr
  sn_base :: ImmutableGraph
  sn_closed :: bool

section \<open>Callbacks\<close>

definition safeCallback :: "notice \<Rightarrow> string option \<Rightarrow> ('c, 'g) Engine \<Rightarrow> ('c, 'g) Engine" where
  "safeCallback call panic e = e\<lparr>en_log := en_log e @ [call] @
     (case panic of None \<Rightarrow> []
      | Some r \<Rightarrow> (case b_onError (en_config e) of None \<Rightarrow> [] | Some f \<Rightarrow> [N_Error (''callback panic: '' @ r)]))\<rparr>"

definition reportError :: "string \<Rightarrow> ('c, 'g) Engine \<Rightarrow> ('c, 'g) Engine" where
  "reportError err e = (case b_onError (en_config e) of None \<Rightarrow> e | Some f \<Rightarrow> safeCallback (N_Error err) (f err) e)"

definition onChange :: "Delta \<Rightarrow> ('c, 'g) Engine \<Rightarrow> ('c, 'g) Engine" where
  "onChange d e = (case b_onChange (en_config e) of None \<Rightarrow> e | Some f \<Rightarrow> safeCallback (N_Change d) (f d) e)"

definition zero_delta :: Delta where
  "zero_delta = \<lparr>dl_Type = DeltaNodeAdded, dl_Timestamp = 0, dl_Version = 0, dl_NodeID = '''', dl_Node = None,
     dl_EdgeFrom = '''', dl_EdgeTo = '''', dl_Edge = None, dl_Tension = 0, dl_Previous = 0\<rparr>"

section \<open>Construction\<close>

definition store_version :: "Version \<Rightarrow> ('c, 'g) Engine \<Rightarrow> ('c, 'g) Engine" where
  "store_version v e = e\<lparr>en_heap := (en_heap e)(en_alloc e := v), en_alloc := en_alloc e + 1,
     en_vc := Store (en_alloc e) (en_vc e)\<rparr>"

definition zero_version :: Version where
  "zero_version = \<lparr>v_ID = 0, v_Graph = NewImmutableEmpty, v_Timestamp = 0, v_Dirty = [], v_refCount = 0\<rparr>"

definition newEngine :: "time \<Rightarrow> 'c \<Rightarrow> 'g \<Rightarrow> ('c, 'g) Builder \<Rightarrow> ('c, 'g) Engine option" where
  "newEngine now cal gpu cfg = do {
     base \<leftarrow> (case b_baseGraph cfg of Some gd \<Rightarrow> graphFromData gd | None \<Rightarrow> Some NewImmutableEmpty);
     base \<leftarrow> (case b_storage cfg of
         Some st \<Rightarrow> (case st_Load st of Inr (Some gd) \<Rightarrow> graphFromData gd | _ \<Rightarrow> Some base)
       | None \<Rightarrow> Some base);
     let e = \<lparr>en_config = cfg, en_heap = (\<lambda>_. zero_version), en_alloc = 0, en_vc = NewController, en_versionID = 0,
       en_gc = NewGC \<lparr>Interval = 30 * 10 ^ 9, WarningTimeout = b_gcSnapshotWarning cfg, ForceTimeout = b_gcSnapshotForce cfg\<rparr>,
       en_eventCh = [], en_started = False, en_stopped = False, en_ctxDone = False, en_startTime = 0, en_eventsTotal = 0,
       en_base = base, en_overlayCount = 0, en_lastCompact = now, en_snapshotsActive = 0,
       en_tensionHistory = [], en_lastTrend = [],
       en_ResultsCache = (if b_cacheEnabled cfg then Some (NewResultsCache (b_cacheTTL cfg)) else None),
       en_cacheEnabled = b_cacheEnabled cfg, en_calibrator = cal, en_gpu = gpu, en_log = [], en_saves = []\<rparr>;
     Some (store_version (zero_version\<lparr>v_Timestamp := now\<rparr>) e)
   }"

section \<open>Compaction\<close>

definition Engine_shouldCompact :: "time \<Rightarrow> ('c, 'g) Engine \<Rightarrow> bool" where
  "Engine_shouldCompact now e = (case b_compactionStrategy (en_config e) of
     CompactByVolume \<Rightarrow> en_overlayCount e \<ge> b_compactionThreshold (en_config e)
   | CompactByTime \<Rightarrow> now - en_lastCompact e \<ge> b_compactionInterval (en_config e)
   | CompactManual \<Rightarrow> False)"

text \<open>Up to the release of the base lock; \<open>None\<close> as statistics when there is no current version.\<close>

definition doCompact_merge :: "time \<Rightarrow> ('c, 'g) Engine \<Rightarrow> (('c, 'g) Engine \<times> Stats option) option" where
  "doCompact_merge start e = (case Load (en_vc e) of
     None \<Rightarrow> Some (e, None)
   | Some a \<Rightarrow> do {
       (merged, cStats) \<leftarrow> Compact start (en_base e) (v_Graph (en_heap e a));
       Some (e\<lparr>en_base := merged\<rparr>, Some cStats)
     })"

text \<open>The rest: an empty overlay as the new version, the save in the background, the callback.\<close>

definition doCompact_publish :: "time \<Rightarrow> time \<Rightarrow> Stats \<Rightarrow> ('c, 'g) Engine \<Rightarrow> ('c, 'g) Engine" where
  "doCompact_publish now start cStats e =
     (let nextID = en_versionID e + 1;
          e = store_version \<lparr>v_ID = nextID, v_Graph = NewImmutableEmpty, v_Timestamp = now, v_Dirty = [], v_refCount = 0\<rparr>
                (e\<lparr>en_versionID := nextID\<rparr>);
          e = e\<lparr>en_overlayCount := 0, en_lastCompact := now\<rparr>;
          e = (if b_storage (en_config e) \<noteq> None then e\<lparr>en_saves := en_saves e @ [en_base e]\<rparr> else e)
      in case b_onCompact (en_config e) of
           None \<Rightarrow> e
         | Some f \<Rightarrow> (let st = \<lparr>cs_NodesMerged = st_NodesMerged cStats, cs_EdgesMerged = st_EdgesMerged cStats,
               cs_OverlayBefore = st_OverlayBefore cStats, cs_OverlayAfter = st_OverlayAfter cStats,
               cs_Duration = now - start, cs_Timestamp = start\<rparr>
             in safeCallback (N_Compact st) (f st) e))"

definition doCompact :: "time \<Rightarrow> ('c, 'g) Engine \<Rightarrow> ('c, 'g) Engine option" where
  "doCompact now e = do {
     (e, cStats) \<leftarrow> doCompact_merge now e;
     (case cStats of None \<Rightarrow> Some e | Some st \<Rightarrow> Some (doCompact_publish now now st e))
   }"

text \<open>The goroutine a compaction starts: it saves the base of that moment.\<close>

definition run_save :: "time \<Rightarrow> ('c, 'g) Engine \<Rightarrow> ('c, 'g) Engine" where
  "run_save now e = (case (b_storage (en_config e), en_saves e) of
     (Some st, base # rest) \<Rightarrow>
       (let e = e\<lparr>en_saves := rest\<rparr> in
        case st_Save st (graphToData now base) of None \<Rightarrow> e | Some err \<Rightarrow> reportError err e)
   | _ \<Rightarrow> e)"

definition Running :: "('c, 'g) Engine \<Rightarrow> bool" where
  "Running e \<longleftrightarrow> en_started e \<and> \<not> en_stopped e"

definition Engine_Compact :: "time \<Rightarrow> ('c, 'g) Engine \<Rightarrow> (('c, 'g) Engine \<times> go_error option) option" where
  "Engine_Compact now e =
     (if \<not> Running e then Some (e, Some ErrEngineStopped)
      else do { e \<leftarrow> doCompact now e; Some (e, None) })"

definition Reset :: "time \<Rightarrow> ('c, 'g) Engine \<Rightarrow> ('c, 'g) Engine" where
  "Reset now e =
     (let e = e\<lparr>en_base := NewImmutableEmpty, en_overlayCount := 0, en_lastCompact := now\<rparr>;
          nextID = en_versionID e + 1
      in store_version \<lparr>v_ID = nextID, v_Graph = NewImmutableEmpty, v_Timestamp = now, v_Dirty = [], v_refCount = 0\<rparr>
           (e\<lparr>en_versionID := nextID\<rparr>))"

section \<open>Anomalies of the nodes an event touches\<close>

definition isAnomaly :: "('c, 'g) Builder \<Rightarrow> 'c \<Rightarrow> NodeData \<Rightarrow> real \<Rightarrow> bool" where
  "isAnomaly cfg cal node tension = (case b_thresholdFunc cfg of
     Some f \<Rightarrow> f (nodeFromGraph node) tension
   | None \<Rightarrow> (case b_calibrator cfg of
       Some ops \<Rightarrow> (if cal_IsWarmedUp ops cal then cal_IsAnomaly ops tension cal else tension > b_threshold cfg)
     | None \<Rightarrow> tension > b_threshold cfg))"

definition getDivergence :: "('c, 'g) Builder \<Rightarrow> DivergenceFunc" where
  "getDivergence cfg = (case b_divergence cfg of Some d \<Rightarrow> d | None \<Rightarrow> JSD_Compute)"

definition observe_tension :: "time \<Rightarrow> real \<Rightarrow> ('c, 'g) Engine \<Rightarrow> ('c, 'g) Engine" where
  "observe_tension now t e = (case b_calibrator (en_config e) of
     None \<Rightarrow> e | Some ops \<Rightarrow> e\<lparr>en_calibrator := cal_Observe ops now t (en_calibrator e)\<rparr>)"

definition push_history :: "string \<Rightarrow> TensionSample \<Rightarrow> ('c, 'g) Engine \<Rightarrow> ('c, 'g) Engine" where
  "push_history nodeID s e =
     (let h = (case map_of (en_tensionHistory e) nodeID of
                 Some h \<Rightarrow> h | None \<Rightarrow> NewTensionHistory (b_temporalCapacity (en_config e)))
      in e\<lparr>en_tensionHistory := AList.update nodeID (Push s h) (en_tensionHistory e)\<rparr>)"

definition previous_tension :: "string \<Rightarrow> ('c, 'g) Engine \<Rightarrow> real option" where
  "previous_tension nodeID e = (case map_of (en_tensionHistory e) nodeID of
     None \<Rightarrow> None | Some th \<Rightarrow> map_option sm_Tension (Previous th))"

definition check_spike :: "string \<Rightarrow> real \<Rightarrow> ('c, 'g) Engine \<Rightarrow> ('c, 'g) Engine" where
  "check_spike nodeID t e = (case b_onTensionSpike (en_config e) of
     None \<Rightarrow> e
   | Some f \<Rightarrow> (case previous_tension nodeID e of
       None \<Rightarrow> e
     | Some prev \<Rightarrow> (let spikeDelta = \<bar>t - prev\<bar> in
         if spikeDelta > b_tensionSpikeThreshold (en_config e)
         then safeCallback (N_Spike nodeID spikeDelta) (f (nodeID, spikeDelta)) e else e)))"

definition current_trend :: "real \<Rightarrow> real option \<Rightarrow> Trend" where
  "current_trend t prev = (case prev of
     None \<Rightarrow> TrendStable
   | Some p \<Rightarrow> (let delta = t - p in
       if delta > 1 / 100 then TrendIncreasing else if delta < - (1 / 100) then TrendDecreasing else TrendStable))"

definition update_trend :: "time \<Rightarrow> 64 word \<Rightarrow> string \<Rightarrow> real \<Rightarrow> ('c, 'g) Engine \<Rightarrow> ('c, 'g) Engine" where
  "update_trend ts version nodeID t e =
     (let trend = current_trend t (previous_tension nodeID e);
          prevTrend = map_of (en_lastTrend e) nodeID;
          e = e\<lparr>en_lastTrend := AList.update nodeID trend (en_lastTrend e)\<rparr>
      in if prevTrend \<noteq> None \<and> prevTrend \<noteq> Some trend
         then onChange (zero_delta\<lparr>dl_Type := DeltaTensionChanged, dl_Timestamp := ts, dl_Version := version,
                dl_NodeID := nodeID, dl_Tension := t\<rparr>) e
         else e)"

definition confidence_of :: "int \<Rightarrow> real" where
  "confidence_of degree = (if degree > 0 then min 1 (real_of_int degree / 10) else 0)"

definition report_anomaly :: "time \<Rightarrow> 64 word \<Rightarrow> string \<Rightarrow> NodeData \<Rightarrow> real \<Rightarrow> ('c, 'g) Engine \<Rightarrow> ('c, 'g) Engine" where
  "report_anomaly ts version nodeID node t e =
     (let result = \<lparr>tr_NodeID = nodeID, tr_Tension = t, tr_Degree = n_Degree node, tr_Curvature = 0, tr_Anomaly = True,
            tr_Confidence = confidence_of (n_Degree node), tr_Concealment = 0, tr_Trend = TrendStable,
            tr_Components = [(''tension'', t)]\<rparr>;
          e = (case b_onAnomaly (en_config e) of None \<Rightarrow> e | Some f \<Rightarrow> safeCallback (N_Anomaly result) (f result) e)
      in onChange (zero_delta\<lparr>dl_Type := DeltaAnomalyDetected, dl_Timestamp := ts, dl_Version := version,
           dl_NodeID := nodeID, dl_Node := Some (nodeFromGraph node), dl_Tension := t\<rparr>) e)"

definition check_node ::
  "time \<Rightarrow> ImmutableGraph \<Rightarrow> time \<Rightarrow> 64 word \<Rightarrow> string \<Rightarrow> ('c, 'g) Engine \<Rightarrow> ('c, 'g) Engine option" where
  "check_node now g ts version nodeID e = (case IG_GetNode nodeID g of
     None \<Rightarrow> Some e
   | Some node \<Rightarrow> do {
       t \<leftarrow> Calculate (getDivergence (en_config e)) (immutable_view g) nodeID;
       let e = observe_tension now t e;
       let e = push_history nodeID \<lparr>sm_Tension = t, sm_Timestamp = ts, sm_Version = version\<rparr> e;
       let e = check_spike nodeID t e;
       let e = update_trend ts version nodeID t e;
       Some (if isAnomaly (en_config e) (en_calibrator e) node t then report_anomaly ts version nodeID node t e else e)
     })"

definition checkAnomalies :: "time \<Rightarrow> ImmutableGraph \<Rightarrow> Event \<Rightarrow> 64 word \<Rightarrow> ('c, 'g) Engine \<Rightarrow> ('c, 'g) Engine option" where
  "checkAnomalies now g ev version e =
     ofold (check_node now g (ev_Timestamp ev) version) [ev_Source ev, ev_Target ev] e"

section \<open>One event\<close>

text \<open>The assignment \<open>n.Type = t\<close> to the node of the new graph, before the graph is published.\<close>

definition set_node_type :: "string \<Rightarrow> string \<Rightarrow> ImmutableGraph \<Rightarrow> ImmutableGraph" where
  "set_node_type nid ty ig = (case IG_GetNode nid ig of
     None \<Rightarrow> ig
   | Some n \<Rightarrow> \<lparr>inner = (inner ig)\<lparr>g_nodes := AList.update nid (n\<lparr>n_Type := ty\<rparr>) (g_nodes (inner ig))\<rparr>\<rparr>)"

definition event_weight :: "('c, 'g) Builder \<Rightarrow> Event \<Rightarrow> real" where
  "event_weight cfg ev = (case b_weightFunc cfg of None \<Rightarrow> ev_Weight ev | Some f \<Rightarrow> f ev)"

text \<open>The graph with the event: the new weight, then the types of source and target.\<close>

definition event_graph :: "('c, 'g) Builder \<Rightarrow> Event \<Rightarrow> ImmutableGraph \<Rightarrow> ImmutableGraph option" where
  "event_graph cfg ev ig = do {
     newGraph \<leftarrow> WithEvent (ev_Source ev) (ev_Target ev) (event_weight cfg ev) (ev_Type ev) (ev_Timestamp ev) ig;
     Some (case b_nodeTypeFunc cfg of
       None \<Rightarrow> newGraph
     | Some f \<Rightarrow>
         (let newGraph = (if f (ev_Source ev) \<noteq> '''' then set_node_type (ev_Source ev) (f (ev_Source ev)) newGraph else newGraph)
          in if f (ev_Target ev) \<noteq> '''' then set_node_type (ev_Target ev) (f (ev_Target ev)) newGraph else newGraph))
   }"

definition node_added :: "string \<Rightarrow> Event \<Rightarrow> 64 word \<Rightarrow> ImmutableGraph \<Rightarrow> ('c, 'g) Engine \<Rightarrow> ('c, 'g) Engine" where
  "node_added nid ev version newGraph e = (case IG_GetNode nid newGraph of
     None \<Rightarrow> e
   | Some n \<Rightarrow> onChange (zero_delta\<lparr>dl_Type := DeltaNodeAdded, dl_Timestamp := ev_Timestamp ev, dl_Version := version,
       dl_NodeID := nid, dl_Node := Some (nodeFromGraph n)\<rparr>) e)"

definition fire_changes :: "ImmutableGraph \<Rightarrow> ImmutableGraph \<Rightarrow> Event \<Rightarrow> 64 word \<Rightarrow> ('c, 'g) Engine \<Rightarrow> ('c, 'g) Engine" where
  "fire_changes oldGraph newGraph ev version e =
     (let edge = IG_GetEdge (ev_Source ev) (ev_Target ev) oldGraph;
          e = (if IG_GetNode (ev_Source ev) oldGraph = None then node_added (ev_Source ev) ev version newGraph e else e);
          e = (if IG_GetNode (ev_Target ev) oldGraph = None then node_added (ev_Target ev) ev version newGraph e else e)
      in onChange (zero_delta\<lparr>dl_Type := (if edge \<noteq> None then DeltaEdgeUpdated else DeltaEdgeAdded),
           dl_Timestamp := ev_Timestamp ev, dl_Version := version, dl_EdgeFrom := ev_Source ev, dl_EdgeTo := ev_Target ev,
           dl_Previous := (case edge of None \<Rightarrow> 0 | Some oldEdge \<Rightarrow> e_Weight oldEdge),
           dl_Edge := map_option edgeFromGraph (IG_GetEdge (ev_Source ev) (ev_Target ev) newGraph)\<rparr>) e)"

definition publish_event :: "Event \<Rightarrow> ImmutableGraph \<Rightarrow> ('c, 'g) Engine \<Rightarrow> ('c, 'g) Engine" where
  "publish_event ev newGraph e =
     (let nextID = en_versionID e + 1;
          dirty = AList.update (ev_Target ev) True (AList.update (ev_Source ev) True []);
          e = store_version \<lparr>v_ID = nextID, v_Graph = newGraph, v_Timestamp = ev_Timestamp ev, v_Dirty = dirty, v_refCount = 0\<rparr>
                (e\<lparr>en_versionID := nextID\<rparr>)
      in e\<lparr>en_eventsTotal := en_eventsTotal e + 1, en_overlayCount := en_overlayCount e + 1\<rparr>)"

definition processEvent :: "time \<Rightarrow> Event \<Rightarrow> ('c, 'g) Engine \<Rightarrow> ('c, 'g) Engine option" where
  "processEvent now ev e = (case Load (en_vc e) of
     None \<Rightarrow> Some e
   | Some a \<Rightarrow> do {
       let oldGraph = v_Graph (en_heap e a);
       newGraph \<leftarrow> event_graph (en_config e) ev oldGraph;
       let e = publish_event ev newGraph e;
       let nextID = en_versionID e;
       e \<leftarrow> (if Engine_shouldCompact now e then doCompact now e else Some e);
       let e = (if b_onChange (en_config e) \<noteq> None then fire_changes oldGraph newGraph ev nextID e else e);
       (if b_onAnomaly (en_config e) \<noteq> None then checkAnomalies now newGraph ev nextID e else Some e)
     })"

section \<open>Lifecycle\<close>

text \<open>\<open>parentDone\<close>: the context given to \<open>Start\<close> is cancelled already.\<close>

definition Engine_Start :: "time \<Rightarrow> bool \<Rightarrow> ('c, 'g) Engine \<Rightarrow> ('c, 'g) Engine \<times> go_error option" where
  "Engine_Start now parentDone e =
     (if en_started e then (e, Some ErrEngineRunning)
      else (e\<lparr>en_ctxDone := parentDone, en_started := True, en_stopped := False, en_startTime := now\<rparr>, None))"

text \<open>The worker after cancellation: it empties the channel.\<close>

definition drain :: "time \<Rightarrow> ('c, 'g) Engine \<Rightarrow> ('c, 'g) Engine option" where
  "drain now e = ofold (processEvent now) (en_eventCh e) (e\<lparr>en_eventCh := []\<rparr>)"

definition close_backend :: "('c, 'g) Engine \<Rightarrow> ('c, 'g) Engine" where
  "close_backend e = (case b_gpuBackend (en_config e) of
     None \<Rightarrow> e
   | Some ops \<Rightarrow> (let (g, err) = bk_Close ops (en_gpu e); e = e\<lparr>en_gpu := g\<rparr>
       in case err of None \<Rightarrow> e | Some msg \<Rightarrow> reportError msg e))"

definition Engine_Stop :: "time \<Rightarrow> ('c, 'g) Engine \<Rightarrow> (('c, 'g) Engine \<times> go_error option) option" where
  "Engine_Stop now e =
     (if \<not> en_started e \<or> en_stopped e then Some (e, Some ErrEngineStopped)
      else do {
        e \<leftarrow> drain now (e\<lparr>en_ctxDone := True\<rparr>);
        Some (close_backend (e\<lparr>en_stopped := True, en_started := False\<rparr>), None)
      })"

text \<open>
  \<open>AddEvent\<close> up to the \<open>select\<close>: the error it returns, or the event it offers to the channel and the
  engine it may have started. The outcomes of the \<open>select\<close> are a relation: either case may be taken
  when both are ready, and with none the call blocks.
\<close>

definition AddEvent_offer :: "time \<Rightarrow> Event \<Rightarrow> ('c, 'g) Engine \<Rightarrow> ('c, 'g) Engine \<times> (go_error + Event)" where
  "AddEvent_offer now event e = (case Validate event of
     Some err \<Rightarrow> (e, Inl err)
   | None \<Rightarrow> (let e = (if \<not> en_started e then fst (Engine_Start now False e) else e)
       in if en_stopped e then (e, Inl ErrEngineStopped) else (e, Inr (Normalize now event))))"

definition can_send :: "('c, 'g) Engine \<Rightarrow> bool" where
  "can_send e \<longleftrightarrow> int (length (en_eventCh e)) < b_channelSize (en_config e)"

inductive AddEvent_select :: "Event \<Rightarrow> ('c, 'g) Engine \<Rightarrow> ('c, 'g) Engine \<Rightarrow> go_error option \<Rightarrow> bool" where
  select_send: "can_send e \<Longrightarrow> AddEvent_select ev e (e\<lparr>en_eventCh := en_eventCh e @ [ev]\<rparr>) None"
| select_done: "en_ctxDone e \<Longrightarrow> AddEvent_select ev e e (Some ErrEngineStopped)"

inductive AddEvent :: "time \<Rightarrow> Event \<Rightarrow> ('c, 'g) Engine \<Rightarrow> ('c, 'g) Engine \<Rightarrow> go_error option \<Rightarrow> bool" where
  AddEvent_rejected: "AddEvent_offer now ev e = (e', Inl err) \<Longrightarrow> AddEvent now ev e e' (Some err)"
| AddEvent_selected: "AddEvent_offer now ev e = (e1, Inr ev') \<Longrightarrow> AddEvent_select ev' e1 e' r \<Longrightarrow> AddEvent now ev e e' r"

text \<open>\<open>AddEvents\<close>: all events are validated before the first is added.\<close>

fun first_invalid :: "Event list \<Rightarrow> go_error option" where
  "first_invalid [] = None"
| "first_invalid (ev # evs) = (case Validate ev of Some err \<Rightarrow> Some err | None \<Rightarrow> first_invalid evs)"

inductive AddEvents_loop :: "time \<Rightarrow> Event list \<Rightarrow> ('c, 'g) Engine \<Rightarrow> ('c, 'g) Engine \<Rightarrow> go_error option \<Rightarrow> bool" where
  loop_done: "AddEvents_loop now [] e e None"
| loop_error: "AddEvent now ev e e' (Some err) \<Longrightarrow> AddEvents_loop now (ev # evs) e e' (Some err)"
| loop_next: "AddEvent now ev e e1 None \<Longrightarrow> AddEvents_loop now evs e1 e' r \<Longrightarrow> AddEvents_loop now (ev # evs) e e' r"

inductive AddEvents :: "time \<Rightarrow> Event list \<Rightarrow> ('c, 'g) Engine \<Rightarrow> ('c, 'g) Engine \<Rightarrow> go_error option \<Rightarrow> bool" where
  AddEvents_invalid: "first_invalid evs = Some err \<Longrightarrow> AddEvents now evs e e (Some err)"
| AddEvents_valid: "first_invalid evs = None \<Longrightarrow> AddEvents_loop now evs e e' r \<Longrightarrow> AddEvents now evs e e' r"

inductive_cases AddEvent_selectE: "AddEvent_select ev e e' r"
inductive_cases AddEventE: "AddEvent now ev e e' r"
inductive_cases AddEventsE: "AddEvents now evs e e' r"
inductive_cases AddEvents_loopE: "AddEvents_loop now evs e e' r"

section \<open>Background workers, snapshots, statistics\<close>

definition gc_tick :: "time \<Rightarrow> ('c, 'g) Engine \<Rightarrow> ('c, 'g) Engine" where
  "gc_tick now e =
     (let (gc, h, stats, _) = Collect now (en_vc e) (en_gc e) (en_heap e);
          e = e\<lparr>en_gc := gc, en_heap := h\<rparr>
      in if co_VersionsRemoved stats > 0
         then (let e = (if en_cacheEnabled e
                        then e\<lparr>en_ResultsCache := map_option
                               (fold (\<lambda>v c. snd (InvalidateVersion v c)) (co_RemovedVersions stats)) (en_ResultsCache e)\<rparr>
                        else e)
               in case b_onGC (en_config e) of
                    None \<Rightarrow> e
                  | Some f \<Rightarrow> (let st = \<lparr>gs_VersionsRemoved = co_VersionsRemoved stats, gs_MemoryFreed = 0,
                        gs_OldestRemoved = co_OldestRemoved stats, gs_Timestamp = co_Timestamp stats\<rparr>
                      in safeCallback (N_GC st) (f st) e))
         else e)"

definition eviction_tick :: "time \<Rightarrow> ('c, 'g) Engine \<Rightarrow> ('c, 'g) Engine" where
  "eviction_tick now e = e\<lparr>en_ResultsCache := map_option (\<lambda>c. snd (EvictExpired now c)) (en_ResultsCache e)\<rparr>"

text \<open>\<open>Track\<close> dereferences the version: without a current one the call panics.\<close>

definition Engine_Snapshot :: "time \<Rightarrow> ('c, 'g) Engine \<Rightarrow> (('c, 'g) Engine \<times> Snapshot) option" where
  "Engine_Snapshot now e =
     (let e = e\<lparr>en_snapshotsActive := en_snapshotsActive e + 1\<rparr>; (v, h) = Controller_Acquire (en_vc e) (en_heap e)
      in do {
        a \<leftarrow> v;
        let e = e\<lparr>en_heap := h, en_gc := Track now h a (en_gc e)\<rparr>;
        Some (e, \<lparr>sn_version = a, sn_base = en_base e, sn_closed = False\<rparr>)
      })"

definition Engine_Stats :: "time \<Rightarrow> ('c, 'g) Engine \<Rightarrow> EngineStats" where
  "Engine_Stats now e =
     (let (overlayNodes, overlayEdges) = (case Load (en_vc e) of
            Some a \<Rightarrow> (int (IG_NodeCount (v_Graph (en_heap e a))), int (IG_EdgeCount (v_Graph (en_heap e a))))
          | None \<Rightarrow> (0, 0));
          baseNodes = int (IG_NodeCount (en_base e)); baseEdges = int (IG_EdgeCount (en_base e));
          uptime = (if en_started e then now - en_startTime e else 0);
          seconds = real_of_int uptime / 10 ^ 9;
          eps = (if en_started e \<and> seconds > 0 then real_of_int (en_eventsTotal e) / seconds else 0)
      in \<lparr>es_Nodes = overlayNodes + baseNodes, es_Edges = overlayEdges + baseEdges, es_OverlayEvents = en_overlayCount e,
          es_BaseNodes = baseNodes, es_BaseEdges = baseEdges, es_VersionsCurrent = en_versionID e,
          es_VersionsTotal = en_versionID e, es_SnapshotsActive = en_snapshotsActive e,
          es_EventsTotal = en_eventsTotal e, es_EventsPerSecond = eps, es_Uptime = uptime\<rparr>)"

end
