(* ===== verification/Engine_Log.thy ===== *)
theory Engine_Log
  imports Engine
begin

text \<open>
  What the engine's two layers say of the events it processed. The overlay is the copy-on-write
  graph of the events since the last compaction, the base holds the events before; the lemmas show
  that their union always sums up the whole log on top of the graph the engine started from, through
  automatic and forced compactions, resets, snapshots, garbage collection and background saves.
\<close>

section \<open>Summaries of layers\<close>

definition merge2 :: "EdgeData option \<Rightarrow> EdgeData option \<Rightarrow> EdgeData option" where
  "merge2 a b = (case a of None \<Rightarrow> b | Some x \<Rightarrow> (case b of None \<Rightarrow> a | Some y \<Rightarrow> Some (untyped (mergeEdges x y))))"

lemma untyped_fields [simp]:
  "e_From (untyped e) = e_From e" "e_To (untyped e) = e_To e" "e_Weight (untyped e) = e_Weight e"
  "e_Count (untyped e) = e_Count e" "e_FirstSeen (untyped e) = e_FirstSeen e" "e_LastSeen (untyped e) = e_LastSeen e"
  "e_Type (untyped e) = []"
  by (simp_all add: untyped_def)

lemma merge2_None [simp]: "merge2 None b = b" "merge2 a None = a"
  by (simp_all add: merge2_def split: option.split)

lemma merge2_assoc: "merge2 (merge2 a b) c = merge2 a (merge2 b c)"
  by (cases a; cases b; cases c) (auto simp: merge2_def intro!: EdgeData_eqI)

lemma view_merge2:
  "map_option untyped (UV_GetEdge u v (NewUnifiedView base overlay)) =
    merge2 (map_option untyped (IG_GetEdge u v base)) (map_option untyped (IG_GetEdge u v overlay))"
  by (auto simp: UV_GetEdge_def NewUnifiedView_def merge2_def split: option.split intro!: EdgeData_eqI)

lemma matching_append: "matching u v (xs @ ys) = matching u v xs @ matching u v ys"
  by (simp add: matching_def)

lemma edge_summary_append:
  "map_option untyped (edge_summary u v (xs @ ys)) =
    merge2 (map_option untyped (edge_summary u v xs)) (map_option untyped (edge_summary u v ys))"
proof (cases "matching u v xs")
  case Nil
  then show ?thesis by (simp add: edge_summary_def matching_append)
next
  case x: (Cons e es)
  show ?thesis
  proof (cases "matching u v ys")
    case Nil
    with x show ?thesis by (simp add: edge_summary_def matching_append)
  next
    case y: (Cons e' es')
    have "Min (ev_Timestamp ` set ((e # es) @ e' # es')) = min (Min (ev_Timestamp ` set (e # es))) (Min (ev_Timestamp ` set (e' # es')))"
      "Max (ev_Timestamp ` set ((e # es) @ e' # es')) = max (Max (ev_Timestamp ` set (e # es))) (Max (ev_Timestamp ` set (e' # es')))"
      unfolding set_append image_Un by (rule Min_Un Max_Un; simp)+
    with x y show ?thesis
      by (auto simp: edge_summary_def matching_append merge2_def intro!: EdgeData_eqI)
  qed
qed

lemma edge_summary_span:
  "edge_summary u v es = Some e \<Longrightarrow> matching u v es \<noteq> [] \<and> e_FirstSeen e = Min (ev_Timestamp ` set (matching u v es)) \<and>
     e_LastSeen e = Max (ev_Timestamp ` set (matching u v es))"
  by (auto simp: edge_summary_def split: list.splits)

lemma touching_append: "touching u (xs @ ys) = touching u xs @ touching u ys"
  by (simp add: touching_def)

section \<open>Layers that agree with a log\<close>

text \<open>The base sums up the initial graph and the compacted events; the overlay the rest.\<close>

definition base_agrees :: "ImmutableGraph \<Rightarrow> Event list \<Rightarrow> ImmutableGraph \<Rightarrow> bool" where
  "base_agrees g0 es base \<longleftrightarrow> ig_ok base \<and>
     (\<forall>u v. nul_free u \<longrightarrow> map_option untyped (IG_GetEdge u v base) =
        merge2 (map_option untyped (IG_GetEdge u v g0)) (map_option untyped (edge_summary u v es))) \<and>
     (\<forall>u. IG_GetNode u base \<noteq> None \<longleftrightarrow> IG_GetNode u g0 \<noteq> None \<or> touching u es \<noteq> [])"

lemma base_agrees_start: "ig_ok g0 \<Longrightarrow> base_agrees g0 [] g0"
  by (simp add: base_agrees_def edge_summary_def matching_def touching_def)

lemma overlay_laws:
  assumes "agrees_with_log es ig"
  shows "ig_ok ig" and "time_ordered ig" and "nul_free u \<Longrightarrow> IG_GetEdge u v ig = edge_summary u v es"
    and "IG_GetNode u ig \<noteq> None \<longleftrightarrow> touching u es \<noteq> []"
proof -
  show ok: "ig_ok ig" using assms by (simp add: agrees_with_log_def ig_ok_def)
  show edge: "IG_GetEdge u v ig = edge_summary u v es" if "nul_free u" for u v
    using assms that by (simp add: agrees_with_log_def IG_GetEdge_def)
  have "map_option seen_interval (GetNode u (inner ig)) = seen_summary u es"
    using assms by (simp add: agrees_with_log_def)
  then show "IG_GetNode u ig \<noteq> None \<longleftrightarrow> touching u es \<noteq> []"
    by (cases "touching u es") (auto simp: IG_GetNode_def seen_summary_def)
  have "e_FirstSeen e \<le> e_LastSeen e" if e: "e \<in> set (ig_edges ig)" for e
  proof -
    have "nul_free (e_From e)" using stored_nul_free(1) [OF ok e] .
    moreover have "IG_GetEdge (e_From e) (e_To e) ig = Some e"
      using layer_laws(4) [OF ok, of "e_From e" "e_To e" e] e by (simp add: edge_ends_def)
    ultimately have "edge_summary (e_From e) (e_To e) es = Some e" using edge by metis
    from edge_summary_span [OF this] obtain x where "x \<in> ev_Timestamp ` set (matching (e_From e) (e_To e) es)"
      "e_FirstSeen e = Min (ev_Timestamp ` set (matching (e_From e) (e_To e) es))"
      "e_LastSeen e = Max (ev_Timestamp ` set (matching (e_From e) (e_To e) es))"
      by (metis equals0I image_is_empty set_empty)
    then show ?thesis by (metis Max_ge Min_le List.finite_set finite_imageI order_trans)
  qed
  then show "time_ordered ig" by (simp add: time_ordered_def)
qed

lemma layers_view:
  assumes "base_agrees g0 es1 base" and "agrees_with_log es2 overlay" and "nul_free u"
  shows "map_option untyped (UV_GetEdge u v (NewUnifiedView base overlay)) =
      merge2 (map_option untyped (IG_GetEdge u v g0)) (map_option untyped (edge_summary u v (es1 @ es2)))"
  using assms overlay_laws(3) [OF assms(2,3)]
  by (simp add: view_merge2 base_agrees_def edge_summary_append merge2_assoc)

lemma layers_nodes:
  assumes "base_agrees g0 es1 base" and "agrees_with_log es2 overlay"
  shows "UV_GetNode u (NewUnifiedView base overlay) \<noteq> None \<longleftrightarrow> IG_GetNode u g0 \<noteq> None \<or> touching u (es1 @ es2) \<noteq> []"
  using assms overlay_laws(4) [OF assms(2), of u]
  by (auto simp: base_agrees_def UV_GetNode_def NewUnifiedView_def touching_append split: option.split)

lemma compact_layers:
  assumes b: "base_agrees g0 es1 base" and o': "agrees_with_log es2 overlay"
  shows "\<exists>merged st. Compact start base overlay = Some (merged, st) \<and> base_agrees g0 (es1 @ es2) merged"
proof -
  have ok: "ig_ok base" "ig_ok overlay" "time_ordered overlay" using b overlay_laws [OF o'] by (simp_all add: base_agrees_def)
  obtain merged st where c: "Compact start base overlay = Some (merged, st)"
    "\<And>u v. IG_GetEdge u v merged = compact_edge (IG_GetEdge u v base) (IG_GetEdge u v overlay)"
    by (rule Compact_correct [OF ok(1,2), of start]) blast
  note merged = Compact_ig_ok [OF ok(1,2) c(1)]
  have "map_option untyped (IG_GetEdge u v merged) =
      merge2 (map_option untyped (IG_GetEdge u v g0)) (map_option untyped (edge_summary u v (es1 @ es2)))" if "nul_free u" for u v
    using layers_view [OF b o' that] compact_edge_view [OF ok] by (simp add: c(2))
  with c(1) merged layers_nodes [OF b o'] show ?thesis by (auto simp: base_agrees_def)
qed

section \<open>The parts of the state the layers depend on\<close>

definition core :: "('c, 'g) Engine \<Rightarrow>
    ('c, 'g) Builder \<times> vheap \<times> vaddr \<times> Controller \<times> 64 word \<times> ImmutableGraph \<times> int" where
  "core e = (en_config e, en_heap e, en_alloc e, en_vc e, en_versionID e, en_base e, en_eventsTotal e)"

lemma core_safeCallback [simp]: "core (safeCallback n r e) = core e"
  by (simp add: safeCallback_def core_def)

lemma core_reportError [simp]: "core (reportError err e) = core e"
  by (simp add: reportError_def split: option.split)

lemma core_onChange [simp]: "core (onChange d e) = core e"
  by (simp add: onChange_def split: option.split)

lemma core_node_added [simp]: "core (node_added nid ev ver g e) = core e"
  by (simp add: node_added_def split: option.split)

lemma core_fire_changes [simp]: "core (fire_changes g g' ev ver e) = core e"
  by (simp add: fire_changes_def Let_def)

lemma core_config: "core e = core e' \<Longrightarrow> en_config e = en_config e'"
  by (simp add: core_def)

lemma core_observe_tension [simp]: "core (observe_tension now t e) = core e"
  by (simp add: observe_tension_def core_def split: option.split)

lemma core_push_history [simp]: "core (push_history nid s e) = core e"
  by (simp add: push_history_def core_def Let_def)

lemma core_check_spike [simp]: "core (check_spike nid t e) = core e"
  by (simp add: check_spike_def Let_def split: option.split)

lemma core_update_trend [simp]: "core (update_trend ts ver nid t e) = core e"
  by (auto simp: update_trend_def Let_def) (simp_all add: core_def)

lemma core_report_anomaly [simp]: "core (report_anomaly ts ver nid node t e) = core e"
  by (simp add: report_anomaly_def Let_def split: option.split)

lemma check_node_core: "check_node now g ts ver nid e = Some e' \<Longrightarrow> core e' = core e"
  by (auto simp: check_node_def Let_def bind_eq_Some_conv split: option.splits if_splits)

lemma checkAnomalies_core: "checkAnomalies now g ev ver e = Some e' \<Longrightarrow> core e' = core e"
  by (auto simp: checkAnomalies_def bind_eq_Some_conv dest!: check_node_core)

lemma core_check_node:
  assumes "\<And>v. Calculate (getDivergence (en_config e)) (immutable_view g) v \<noteq> None"
  shows "\<exists>e'. check_node now g ts ver nid e = Some e' \<and> core e' = core e"
proof (cases "IG_GetNode nid g")
  case (Some node)
  obtain t where t: "Calculate (getDivergence (en_config e)) (immutable_view g) nid = Some t" using assms by blast
  show ?thesis unfolding check_node_def using Some t by (simp add: Let_def)
qed (simp add: check_node_def)

lemma core_checkAnomalies:
  assumes "\<And>v. Calculate (getDivergence (en_config e)) (immutable_view g) v \<noteq> None"
  shows "\<exists>e'. checkAnomalies now g ev ver e = Some e' \<and> core e' = core e"
proof -
  obtain e1 where e1: "check_node now g (ev_Timestamp ev) ver (ev_Source ev) e = Some e1" "core e1 = core e"
    using core_check_node [OF assms] by blast
  obtain e2 where "check_node now g (ev_Timestamp ev) ver (ev_Target ev) e1 = Some e2" "core e2 = core e1"
    using core_check_node [of e1] assms core_config [OF e1(2)] by metis
  with e1 show ?thesis by (simp add: checkAnomalies_def)
qed

section \<open>The overlay after an event\<close>

definition effective :: "('c, 'g) Builder \<Rightarrow> Event \<Rightarrow> Event" where
  "effective cfg ev = ev\<lparr>ev_Weight := event_weight cfg ev\<rparr>"

lemma agrees_set_type:
  assumes "agrees_with_log es ig"
  shows "agrees_with_log es (set_node_type nid ty ig)"
proof (cases "IG_GetNode nid ig")
  case None
  with assms show ?thesis by (simp add: set_node_type_def)
next
  case (Some n)
  let ?g = "inner ig" and ?n = "n\<lparr>n_Type := ty\<rparr>"
  let ?g' = "?g\<lparr>g_nodes := AList.update nid ?n (g_nodes ?g)\<rparr>"
  have g: "wf_graph ?g" "degrees_ok ?g" "ids_nul_free ?g" using assms by (simp_all add: agrees_with_log_def)
  have n: "map_of (g_nodes ?g) nid = Some n" using Some by (simp add: IG_GetNode_def GetNode_def)
  have "n_ID ?n = nid" "wf_attributes ?n" using wf_graphD(5,6) [OF g(1) n] by (simp_all add: wf_attributes_def)
  note wf = wf_update_node [OF g(1) n this]
  have "degrees_ok ?g'" by (rule wf(2) [OF g(2)]) simp_all
  moreover have "ids_nul_free ?g'"
    using g(3) n by (auto simp: ids_nul_free_def keys_eq_dom dom_def)
  moreover have "map_option seen_interval (GetNode u ?g') = map_option seen_interval (GetNode u ?g)" for u
    using n by (simp add: GetNode_def seen_interval_def)
  ultimately show ?thesis
    using assms wf(1) Some by (simp add: set_node_type_def agrees_with_log_def GetEdge_def)
qed

lemma event_graph_agrees:
  assumes "agrees_with_log es ig" and "clean_event (effective cfg ev)" and "\<forall>e \<in> set es. clean_event e"
  shows "\<exists>ig'. event_graph cfg ev ig = Some ig' \<and> agrees_with_log (es @ [effective cfg ev]) ig'"
proof -
  have "\<forall>e \<in> set es. 0 < ev_Timestamp e" using assms(3) by (simp add: clean_event_def)
  from agrees_step [OF assms(1,2) this] obtain ig' where "apply_event (effective cfg ev) ig = Some ig'"
    and ig': "agrees_with_log (es @ [effective cfg ev]) ig'" by blast
  then have "WithEvent (ev_Source ev) (ev_Target ev) (event_weight cfg ev) (ev_Type ev) (ev_Timestamp ev) ig = Some ig'"
    by (simp add: apply_event_def effective_def)
  with ig' show ?thesis
    by (auto simp: event_graph_def Let_def intro: agrees_set_type split: option.split)
qed

section \<open>The invariant\<close>

definition engine_sums :: "ImmutableGraph \<Rightarrow> Event list \<Rightarrow> ('c, 'g) Engine \<Rightarrow> bool" where
  "engine_sums g0 es e \<longleftrightarrow> (\<exists>a es1 es2. Load (en_vc e) = Some a \<and> a < en_alloc e \<and> es = es1 @ es2 \<and>
     base_agrees g0 es1 (en_base e) \<and> agrees_with_log es2 (v_Graph (en_heap e a)) \<and> (\<forall>x \<in> set es2. clean_event x) \<and>
     v_ID (en_heap e a) = en_versionID e)"

lemma engine_sums_core: "core e = core e' \<Longrightarrow> engine_sums g0 es e = engine_sums g0 es e'"
  by (simp add: engine_sums_def core_def)

lemma store_version_sel [simp]:
  "Load (en_vc (store_version v e)) = Some (en_alloc e)" "en_heap (store_version v e) (en_alloc e) = v"
  "en_alloc (store_version v e) = en_alloc e + 1" "en_base (store_version v e) = en_base e"
  "en_versionID (store_version v e) = en_versionID e" "en_config (store_version v e) = en_config e"
  "en_eventsTotal (store_version v e) = en_eventsTotal e"
  by (simp_all add: store_version_def Load_def Store_def)

lemma agrees_start: "agrees_with_log [] NewImmutableEmpty"
  by (rule agrees_empty)

lemma engine_sums_empty_overlay:
  assumes "base_agrees g0 es (en_base e)" and "v_Graph v = NewImmutableEmpty" and "v_ID v = en_versionID e"
  shows "engine_sums g0 es (store_version v e)"
  unfolding engine_sums_def using assms agrees_start
  by (intro exI [of _ "en_alloc e"] exI [of _ es] exI [of _ "[]"]) simp

text \<open>The counters a step leaves alone or moves.\<close>

lemma publish_core:
  "\<exists>v e1. core (doCompact_publish now start st e) = core (store_version v e1) \<and> en_base e1 = en_base e \<and> en_config e1 = en_config e \<and>
    en_eventsTotal e1 = en_eventsTotal e \<and> en_versionID e1 = en_versionID e + 1 \<and> v_Graph v = NewImmutableEmpty \<and> v_ID v = en_versionID e + 1"
proof -
  let ?v = "\<lparr>v_ID = en_versionID e + 1, v_Graph = NewImmutableEmpty, v_Timestamp = now, v_Dirty = [], v_refCount = 0\<rparr>"
  have "core (doCompact_publish now start st e) = core (store_version ?v (e\<lparr>en_versionID := en_versionID e + 1\<rparr>))"
    by (simp add: doCompact_publish_def Let_def split: option.split) (simp add: core_def store_version_def)
  then show ?thesis by (intro exI [of _ ?v] exI [of _ "e\<lparr>en_versionID := en_versionID e + 1\<rparr>"]) simp
qed

lemma core_eqD:
  "core e = core e' \<Longrightarrow> en_config e = en_config e' \<and> en_eventsTotal e = en_eventsTotal e' \<and> en_versionID e = en_versionID e' \<and>
    en_base e = en_base e' \<and> Load (en_vc e) = Load (en_vc e') \<and> en_heap e = en_heap e'"
  by (simp add: core_def)

lemma doCompact_sums:
  assumes "engine_sums g0 es e"
  shows "\<exists>e'. doCompact now e = Some e' \<and> engine_sums g0 es e' \<and> en_config e' = en_config e \<and>
    en_eventsTotal e' = en_eventsTotal e \<and> en_versionID e' = en_versionID e + 1"
proof -
  from assms obtain a es1 es2 where e: "Load (en_vc e) = Some a" "es = es1 @ es2" "base_agrees g0 es1 (en_base e)"
    "agrees_with_log es2 (v_Graph (en_heap e a))" unfolding engine_sums_def by blast
  obtain merged st where c: "Compact now (en_base e) (v_Graph (en_heap e a)) = Some (merged, st)" "base_agrees g0 es merged"
    using compact_layers [OF e(3,4), of now] e(2) by blast
  let ?e = "e\<lparr>en_base := merged\<rparr>"
  obtain v e1 where p: "core (doCompact_publish now now st ?e) = core (store_version v e1)" "en_base e1 = merged"
    "en_config e1 = en_config e" "en_eventsTotal e1 = en_eventsTotal e" "en_versionID e1 = en_versionID e + 1"
    "v_Graph v = NewImmutableEmpty" "v_ID v = en_versionID e1"
    using publish_core [of now now st ?e] by auto
  have "engine_sums g0 es (store_version v e1)" using engine_sums_empty_overlay [of g0 es e1 v] c(2) p by simp
  then have "engine_sums g0 es (doCompact_publish now now st ?e)" using engine_sums_core [OF p(1)] by simp
  moreover have "doCompact now e = Some (doCompact_publish now now st ?e)"
    using e(1) c(1) by (simp add: doCompact_def doCompact_merge_def)
  ultimately show ?thesis using core_eqD [OF p(1)] p by simp
qed

definition safe_divergence :: "('c, 'g) Builder \<Rightarrow> bool" where
  "safe_divergence cfg \<longleftrightarrow> (\<forall>p q. length p = length q \<longrightarrow> getDivergence cfg p q \<noteq> None)"

lemma safe_divergence_default: "b_divergence cfg = None \<Longrightarrow> safe_divergence cfg"
  by (simp add: safe_divergence_def getDivergence_def JSD_eq)

lemma ofold_total: "(\<And>x s. x \<in> set xs \<Longrightarrow> f x s \<noteq> None) \<Longrightarrow> ofold f xs s \<noteq> None"
proof (induction xs arbitrary: s)
  case (Cons x xs)
  then obtain s' where "f x s = Some s'" by fastforce
  with Cons show ?case by simp
qed simp

lemma Calculate_total:
  assumes "\<And>p q. length p = length q \<Longrightarrow> d p q \<noteq> None"
  shows "Calculate d V v \<noteq> None"
proof -
  have "visit_neighbor d V v n (s, k) \<noteq> None" for n s k
  proof -
    have "d (NormalizeDist (map (edge_weight V n) (gv_OutNeighbors V n)))
        (NormalizeDist (map (\<lambda>t. if t = v then 0 else edge_weight V n t) (gv_OutNeighbors V n))) \<noteq> None"
      by (rule assms) simp
    then show ?thesis by (auto simp: visit_neighbor_def Let_def)
  qed
  then have "ofold (visit_neighbor d V v) (gv_Neighbors V v) (0, 0) \<noteq> None"
    by (intro ofold_total) (auto simp del: not_None_eq)
  then show ?thesis by (auto simp: Calculate_def Let_def split: option.split)
qed

lemma processEvent_sums:
  assumes sums: "engine_sums g0 es e" and clean: "clean_event (effective (en_config e) ev)" and safe: "safe_divergence (en_config e)"
  shows "\<exists>e'. processEvent now ev e = Some e' \<and> engine_sums g0 (es @ [effective (en_config e) ev]) e' \<and>
    en_config e' = en_config e \<and> en_eventsTotal e' = en_eventsTotal e + 1"
proof -
  from sums obtain a es1 es2 where e: "Load (en_vc e) = Some a" "es = es1 @ es2" "base_agrees g0 es1 (en_base e)"
    "agrees_with_log es2 (v_Graph (en_heap e a))" "\<forall>x \<in> set es2. clean_event x" unfolding engine_sums_def by blast
  let ?x = "effective (en_config e) ev"
  obtain g where g: "event_graph (en_config e) ev (v_Graph (en_heap e a)) = Some g" "agrees_with_log (es2 @ [?x]) g"
    using event_graph_agrees [OF e(4) clean e(5)] by blast
  let ?e1 = "publish_event ev g e"
  have "\<exists>v e0. core ?e1 = core ((store_version v e0)\<lparr>en_eventsTotal := en_eventsTotal e + 1\<rparr>) \<and> en_base e0 = en_base e \<and> v_Graph v = g \<and>
      v_ID v = en_versionID e0 \<and> en_config e0 = en_config e"
    by (intro exI [of _ "\<lparr>v_ID = en_versionID e + 1, v_Graph = g, v_Timestamp = ev_Timestamp ev,
        v_Dirty = AList.update (ev_Target ev) True (AList.update (ev_Source ev) True []), v_refCount = 0\<rparr>"]
      exI [of _ "e\<lparr>en_versionID := en_versionID e + 1\<rparr>"] conjI)
      (simp_all add: core_def store_version_def publish_event_def Let_def)
  then obtain v e0 where p: "core ?e1 = core ((store_version v e0)\<lparr>en_eventsTotal := en_eventsTotal e + 1\<rparr>)"
    "en_base e0 = en_base e" "v_Graph v = g" "v_ID v = en_versionID e0" "en_config e0 = en_config e" by blast
  have "engine_sums g0 (es @ [?x]) ((store_version v e0)\<lparr>en_eventsTotal := en_eventsTotal e + 1\<rparr>)"
    unfolding engine_sums_def
    by (rule exI [of _ "en_alloc e0"], rule exI [of _ es1], rule exI [of _ "es2 @ [?x]"]) (use p e(2,3,5) g(2) clean in auto)
  then have "engine_sums g0 (es @ [?x]) ?e1" using engine_sums_core [OF p(1)] by blast
  moreover have cfg1: "en_config ?e1 = en_config e" "en_eventsTotal ?e1 = en_eventsTotal e + 1"
    using core_eqD [OF p(1)] p(5) by simp_all
  ultimately obtain e2 where e2: "(if Engine_shouldCompact now ?e1 then doCompact now ?e1 else Some ?e1) = Some e2"
    "engine_sums g0 (es @ [?x]) e2" "en_config e2 = en_config e" "en_eventsTotal e2 = en_eventsTotal e + 1"
    using doCompact_sums [of g0 "es @ [?x]" ?e1 now] by (cases "Engine_shouldCompact now ?e1") auto
  obtain e3 where e3: "(if b_onChange (en_config e2) \<noteq> None then fire_changes (v_Graph (en_heap e a)) g ev (en_versionID ?e1) e2 else e2) = e3"
    "core e3 = core e2" by simp
  have tot: "Calculate (getDivergence (en_config e3)) (immutable_view g) w \<noteq> None" for w
    using safe core_eqD [OF e3(2)] e2(3) by (intro Calculate_total) (simp add: safe_divergence_def)
  obtain e4 where e4: "(if b_onAnomaly (en_config e3) \<noteq> None then checkAnomalies now g ev (en_versionID ?e1) e3 else Some e3) = Some e4"
    "core e4 = core e2"
    using core_checkAnomalies [OF tot, of now ev "en_versionID ?e1"] e3(2) by (cases "b_onAnomaly (en_config e3) \<noteq> None") auto
  have "processEvent now ev e = Some e4"
    unfolding processEvent_def e(1) option.case Let_def g(1) Option.bind.simps e2(1) e3(1) by (rule e4(1))
  with e2 e4(2) engine_sums_core [OF e4(2)] core_eqD [OF e4(2)] show ?thesis by simp
qed

section \<open>Everything else keeps the sum\<close>

lemma engine_sums_frame:
  assumes "engine_sums g0 es e" and "en_vc e' = en_vc e" and "en_alloc e' = en_alloc e" and "en_base e' = en_base e"
    and "en_versionID e' = en_versionID e" and "\<And>a. v_Graph (en_heap e' a) = v_Graph (en_heap e a) \<and> v_ID (en_heap e' a) = v_ID (en_heap e a)"
  shows "engine_sums g0 es e'"
  using assms by (simp add: engine_sums_def)

definition same_versions :: "vheap \<Rightarrow> vheap \<Rightarrow> bool" where
  "same_versions h h' \<longleftrightarrow> (\<forall>a. v_Graph (h' a) = v_Graph (h a) \<and> v_ID (h' a) = v_ID (h a) \<and> v_Timestamp (h' a) = v_Timestamp (h a))"

lemma same_versions_refl: "same_versions h h"
  by (simp add: same_versions_def)

lemma same_versions_trans: "same_versions h h' \<Longrightarrow> same_versions h' h'' \<Longrightarrow> same_versions h h''"
  by (simp add: same_versions_def)

lemma same_versions_refs: "same_versions h (set_refs a n h)" "same_versions h (Acquire a h)" "same_versions h (Release a h)"
  by (simp_all add: same_versions_def Acquire_def Release_def set_refs_def Let_def)

lemma same_versions_force: "same_versions h (force_release a h)"
proof (induction a h rule: force_release.induct)
  case (1 a h)
  show ?case
  proof (cases "RefCount h a > 0")
    case True
    then have "force_release a h = force_release a (Release a h)" by (subst force_release.simps) simp
    with 1 [OF True] show ?thesis using same_versions_trans [OF same_versions_refs(3)] by simp
  next
    case False
    then show ?thesis by (subst force_release.simps) (simp add: same_versions_refl)
  qed
qed

lemma same_versions_sweep:
  "same_versions h (sw_heap s) \<Longrightarrow> same_versions h (sw_heap (fold (\<lambda>(nid, tv). sweep_visit now cfg cur nid tv) xs s))"
proof (induction xs arbitrary: s)
  case (Cons x xs)
  obtain nid tv where x: "x = (nid, tv)" by (cases x)
  have "same_versions h (sw_heap (sweep_visit now cfg cur nid tv s))"
    using Cons.prems same_versions_trans [OF Cons.prems same_versions_force]
    by (simp add: sweep_visit_def Let_def)
  from Cons.IH [OF this] show ?case by (simp add: x)
qed simp

lemma same_versions_Collect: "Collect now c gc h = (gc', h', st, evs) \<Longrightarrow> same_versions h h'"
  using same_versions_sweep [of h "\<lparr>sw_heap = h, sw_versions = gc_versions gc, sw_toRemove = [], sw_events = []\<rparr>" now "gc_config gc"
      "map_option (\<lambda>a. v_ID (h a)) (Load c)" "gc_versions gc"]
  by (auto simp: Collect_def Let_def same_versions_refl split: prod.splits)

definition keeps_sum :: "('c, 'g) Engine \<Rightarrow> ('c, 'g) Engine \<Rightarrow> bool" where
  "keeps_sum e e' \<longleftrightarrow> en_config e' = en_config e \<and> en_eventsTotal e' = en_eventsTotal e \<and>
     (\<forall>g0 es. engine_sums g0 es e \<longrightarrow> engine_sums g0 es e')"

lemma keeps_sumI:
  "en_config e' = en_config e \<Longrightarrow> en_eventsTotal e' = en_eventsTotal e \<Longrightarrow> en_vc e' = en_vc e \<Longrightarrow> en_alloc e' = en_alloc e \<Longrightarrow>
   en_base e' = en_base e \<Longrightarrow> en_versionID e' = en_versionID e \<Longrightarrow> same_versions (en_heap e) (en_heap e') \<Longrightarrow> keeps_sum e e'"
  by (auto simp: keeps_sum_def same_versions_def intro: engine_sums_frame)

lemma keeps_sum_core: "core e' = core e \<Longrightarrow> keeps_sum e e'"
  by (rule keeps_sumI) (simp_all add: core_def same_versions_refl)

lemma gc_tick_keeps: "keeps_sum e (gc_tick now e)"
proof -
  obtain gc h st evs where c: "Collect now (en_vc e) (en_gc e) (en_heap e) = (gc, h, st, evs)" by (metis prod_cases4)
  let ?e = "e\<lparr>en_gc := gc, en_heap := h\<rparr>"
  have "core (gc_tick now e) = core ?e"
    by (auto simp: gc_tick_def c Let_def split: option.split) (simp_all add: core_def)
  moreover have "keeps_sum e ?e"
    using same_versions_Collect [OF c] by (intro keeps_sumI) simp_all
  ultimately show ?thesis
    using engine_sums_core [of "gc_tick now e" ?e] core_eqD [of "gc_tick now e" ?e] by (simp add: keeps_sum_def)
qed

lemma eviction_tick_keeps: "keeps_sum e (eviction_tick now e)"
  by (rule keeps_sum_core) (simp add: eviction_tick_def core_def)

lemma run_save_keeps: "keeps_sum e (run_save now e)"
proof (rule keeps_sum_core)
  have "core (e\<lparr>en_saves := x\<rparr>) = core e" for x by (simp add: core_def)
  then show "core (run_save now e) = core e"
    by (simp add: run_save_def Let_def split: option.split list.split)
qed

lemma Snapshot_keeps:
  assumes "engine_sums g0 es e"
  shows "\<exists>e' s. Engine_Snapshot now e = Some (e', s) \<and> keeps_sum e e'"
proof -
  from assms obtain a where a: "Load (en_vc e) = Some a" by (auto simp: engine_sums_def)
  show ?thesis
    by (simp add: Engine_Snapshot_def Controller_Acquire_def a Let_def) (rule keeps_sumI; simp add: same_versions_refs)
qed

lemma Reset_sums: "engine_sums NewImmutableEmpty [] (Reset now e)"
  "en_config (Reset now e) = en_config e" "en_eventsTotal (Reset now e) = en_eventsTotal e"
  unfolding Reset_def Let_def
  by (rule engine_sums_empty_overlay) (simp_all add: base_agrees_start overlay_laws(1) [OF agrees_start])

section \<open>Runs\<close>

text \<open>What the engine's goroutines do to the layers, one operation at a time.\<close>

datatype action = Process time Event | Force_Compact time | Reset_All time | Take_Snapshot time | GC_Tick time | Evict_Tick time | Save_Base time

fun act :: "action \<Rightarrow> ('c, 'g) Engine \<Rightarrow> ('c, 'g) Engine option" where
  "act (Process now ev) e = processEvent now ev e"
| "act (Force_Compact now) e = map_option fst (Engine_Compact now e)"
| "act (Reset_All now) e = Some (Reset now e)"
| "act (Take_Snapshot now) e = map_option fst (Engine_Snapshot now e)"
| "act (GC_Tick now) e = Some (gc_tick now e)"
| "act (Evict_Tick now) e = Some (eviction_tick now e)"
| "act (Save_Base now) e = Some (run_save now e)"

text \<open>The specification: the graph to start from and the events since.\<close>

fun logged :: "('c, 'g) Builder \<Rightarrow> action \<Rightarrow> ImmutableGraph \<times> Event list \<Rightarrow> ImmutableGraph \<times> Event list" where
  "logged cfg (Process now ev) (g0, es) = (g0, es @ [effective cfg ev])"
| "logged cfg (Reset_All now) _ = (NewImmutableEmpty, [])"
| "logged cfg _ l = l"

fun acceptable :: "('c, 'g) Builder \<Rightarrow> action \<Rightarrow> bool" where
  "acceptable cfg (Process now ev) = clean_event (effective cfg ev)"
| "acceptable cfg _ = True"

fun processed :: "action list \<Rightarrow> int" where
  "processed [] = 0"
| "processed (Process now ev # as) = 1 + processed as"
| "processed (_ # as) = processed as"

lemma act_sums:
  assumes s: "engine_sums (fst l) (snd l) e" and cfg: "en_config e = cfg" and "acceptable cfg x" and "safe_divergence cfg"
  shows "\<exists>e'. act x e = Some e' \<and> engine_sums (fst (logged cfg x l)) (snd (logged cfg x l)) e' \<and> en_config e' = cfg \<and>
    en_eventsTotal e' = en_eventsTotal e + processed [x]"
proof -
  have keep: ?thesis if "keeps_sum e e'" "act x e = Some e'" "logged cfg x l = l" "processed [x] = 0" for e'
    using that s cfg by (simp add: keeps_sum_def)
  obtain g0 es where l: "l = (g0, es)" by (cases l)
  show ?thesis
  proof (cases x)
    case (Process now ev)
    with processEvent_sums [OF s, of ev now] assms show ?thesis by (auto simp: l)
  next
    case (Force_Compact now)
    from doCompact_sums [OF s, of now] show ?thesis
      using s cfg by (auto simp: Force_Compact Engine_Compact_def l)
  next
    case (Take_Snapshot now)
    moreover obtain e' sn where "Engine_Snapshot now e = Some (e', sn)" "keeps_sum e e'" using Snapshot_keeps [OF s] by blast
    ultimately show ?thesis by (intro keep [of e']) simp_all
  next
    case (Reset_All now)
    with Reset_sums [where e = e and now = now] cfg show ?thesis by simp
  next
    case (GC_Tick now)
    then show ?thesis by (intro keep [OF gc_tick_keeps]) (simp_all add: l)
  next
    case (Evict_Tick now)
    then show ?thesis by (intro keep [OF eviction_tick_keeps]) (simp_all add: l)
  next
    case (Save_Base now)
    then show ?thesis by (intro keep [OF run_save_keeps]) (simp_all add: l)
  qed
qed

lemma run_sums:
  assumes "engine_sums (fst l) (snd l) e" and "en_config e = cfg" and "\<forall>x \<in> set xs. acceptable cfg x" and "safe_divergence cfg"
  shows "\<exists>e'. ofold act xs e = Some e' \<and> engine_sums (fst (fold (logged cfg) xs l)) (snd (fold (logged cfg) xs l)) e' \<and>
    en_config e' = cfg \<and> en_eventsTotal e' = en_eventsTotal e + processed xs"
  using assms(1-3)
proof (induction xs arbitrary: e l)
  case (Cons x xs)
  from act_sums [OF Cons.prems(1,2) _ assms(4), of x] Cons.prems(3)
  obtain e1 where e1: "act x e = Some e1" "engine_sums (fst (logged cfg x l)) (snd (logged cfg x l)) e1" "en_config e1 = cfg"
    "en_eventsTotal e1 = en_eventsTotal e + processed [x]" by auto
  have "processed (x # xs) = processed [x] + processed xs" by (cases x) simp_all
  with Cons.IH [OF e1(2,3)] Cons.prems(3) e1 show ?case by auto
qed simp

lemma newEngine_sums:
  assumes "newEngine now cal gpu cfg = Some e" and "ig_ok (en_base e)"
  shows "engine_sums (en_base e) [] e" and "en_config e = cfg" and "en_eventsTotal e = 0"
proof -
  from assms(1) obtain base e0 where e: "e = store_version (zero_version\<lparr>v_Timestamp := now\<rparr>) e0" "en_base e0 = base"
    "en_versionID e0 = 0" "en_config e0 = cfg" "en_eventsTotal e0 = 0"
    by (auto simp: newEngine_def Let_def bind_eq_Some_conv simp del: split_paired_Ex)
  show "engine_sums (en_base e) [] e" unfolding e
    using base_agrees_start [OF assms(2)] e by (intro engine_sums_empty_overlay) (simp_all add: zero_version_def)
  show "en_config e = cfg" "en_eventsTotal e = 0" by (simp_all add: e)
qed

section \<open>Property\<close>


definition eager_config :: "(unit, unit) Builder" where
  "eager_config = NewBuilder\<lparr>b_compactionStrategy := CompactByVolume, b_compactionThreshold := 1\<rparr>"


end
