(* ===== verification/Engine_Lifecycle.thy ===== *)
theory Engine_Lifecycle
  imports Engine_Log
begin

text \<open>
  The life of an engine between goroutines: callers of \<open>AddEvent\<close>, \<open>Start\<close> and \<open>Stop\<close>, the parent
  context, and the worker that takes events from the channel and empties it after cancellation.
  \<open>AddEvent\<close> is two steps, the checks and the \<open>select\<close>, so a call may wait while the engine stops;
  \<open>Stop\<close> is two steps around \<open>wg.Wait\<close>. Calls of \<open>Start\<close> and of \<open>Stop\<close> do not overlap with their own
  kind, and the processing of an event is one step.
\<close>

section \<open>The parts of the state that decide about the channel\<close>

definition life :: "('c, 'g) Engine \<Rightarrow> ('c, 'g) Builder \<times> Event list \<times> bool \<times> bool \<times> bool" where
  "life e = (en_config e, en_eventCh e, en_started e, en_stopped e, en_ctxDone e)"

lemma life_safeCallback [simp]: "life (safeCallback n r e) = life e"
  by (simp add: safeCallback_def life_def)

lemma life_reportError [simp]: "life (reportError err e) = life e"
  by (simp add: reportError_def split: option.split)

lemma life_onChange [simp]: "life (onChange d e) = life e"
  by (simp add: onChange_def split: option.split)

lemma life_fire_changes [simp]: "life (fire_changes g g' ev ver e) = life e"
  by (simp add: fire_changes_def node_added_def Let_def split: option.split)

lemma life_store_version [simp]: "life (store_version v e) = life e"
  by (simp add: store_version_def life_def)

lemma life_check_node: "check_node now g ts ver nid e = Some e' \<Longrightarrow> life e' = life e"
proof -
  have obs: "life (observe_tension now t e) = life e" for t and e :: "('a, 'b) Engine"
    by (simp add: observe_tension_def life_def split: option.split)
  have push: "life (push_history nid s e) = life e" for s and e :: "('a, 'b) Engine"
    by (simp add: push_history_def life_def Let_def)
  have spike: "life (check_spike nid t e) = life e" for t and e :: "('a, 'b) Engine"
    by (simp add: check_spike_def Let_def split: option.split)
  have trend: "life (update_trend ts ver nid t e) = life e" for t and e :: "('a, 'b) Engine"
    by (auto simp: update_trend_def Let_def) (simp_all add: life_def)
  have rep: "life (report_anomaly ts ver nid node t e) = life e" for t node and e :: "('a, 'b) Engine"
    by (simp add: report_anomaly_def Let_def split: option.split)
  assume "check_node now g ts ver nid e = Some e'"
  then show ?thesis
    by (auto simp: check_node_def Let_def obs push spike trend rep bind_eq_Some_conv split: option.splits if_splits)
qed

lemma life_checkAnomalies: "checkAnomalies now g ev ver e = Some e' \<Longrightarrow> life e' = life e"
  by (auto simp: checkAnomalies_def bind_eq_Some_conv dest!: life_check_node split: option.splits)

lemma life_doCompact: "doCompact now e = Some e' \<Longrightarrow> life e' = life e"
proof -
  have p: "life (doCompact_publish now start st e) = life e" for start st and e :: "('a, 'b) Engine"
    by (simp add: doCompact_publish_def Let_def split: option.split) (simp add: life_def store_version_def)
  have m: "doCompact_merge start e = Some (e1, st) \<Longrightarrow> life e1 = life e" for start e1 st
    by (auto simp: doCompact_merge_def life_def bind_eq_Some_conv split: option.splits)
  assume "doCompact now e = Some e'"
  then show ?thesis by (auto simp: doCompact_def p m bind_eq_Some_conv split: option.splits dest!: m)
qed

lemma life_processEvent:
  assumes "processEvent now ev e = Some e'"
  shows "life e' = life e"
proof (cases "Load (en_vc e)")
  case (Some a)
  have pub: "life (publish_event ev g e) = life e" for g
    by (simp add: publish_event_def Let_def life_def store_version_def)
  from assms Some obtain g e2 where e2: "(if Engine_shouldCompact now (publish_event ev g e) then doCompact now (publish_event ev g e)
      else Some (publish_event ev g e)) = Some e2" and
    e': "(let x = (if b_onChange (en_config e2) \<noteq> None
        then fire_changes (v_Graph (en_heap e a)) g ev (en_versionID (publish_event ev g e)) e2 else e2)
      in if b_onAnomaly (en_config x) \<noteq> None then checkAnomalies now g ev (en_versionID (publish_event ev g e)) x else Some x) = Some e'"
    by (auto simp: processEvent_def bind_eq_Some_conv Let_def)
  have "life e2 = life e" using e2 by (auto simp: pub split: if_splits dest: life_doCompact)
  with e' show ?thesis by (auto simp: Let_def split: if_splits dest!: life_checkAnomalies)
qed (use assms in \<open>simp add: processEvent_def\<close>)

lemma life_act:
  assumes "act x e = Some e'"
  shows "life e' = life e"
proof (cases x)
  case (Process now ev)
  with assms show ?thesis by (simp add: life_processEvent)
next
  case (Force_Compact now)
  with assms show ?thesis by (auto simp: Engine_Compact_def bind_eq_Some_conv split: if_splits dest: life_doCompact)
next
  case (GC_Tick now)
  with assms show ?thesis
    by (auto simp: gc_tick_def Let_def split: prod.splits option.splits) (simp_all add: life_def)
next
  case (Save_Base now)
  have "life (e\<lparr>en_saves := y\<rparr>) = life e" for y by (simp add: life_def)
  with Save_Base assms show ?thesis by (auto simp: run_save_def Let_def split: option.splits list.splits)
next
  case (Take_Snapshot now)
  with assms show ?thesis
    by (auto simp: Engine_Snapshot_def Let_def bind_eq_Some_conv life_def split: prod.splits)
qed (use assms in \<open>auto simp: life_def Reset_def Let_def eviction_tick_def store_version_def\<close>)

lemma life_close_backend: "life (close_backend e) = life e"
proof -
  have "life (e\<lparr>en_gpu := g\<rparr>) = life e" for g by (simp add: life_def)
  then show ?thesis by (simp add: close_backend_def Let_def split: option.split prod.split)
qed

lemma core_close_backend: "core (close_backend e) = core e"
proof -
  have "core (e\<lparr>en_gpu := g\<rparr>) = core e" for g by (simp add: core_def)
  then show ?thesis by (simp add: close_backend_def Let_def split: option.split prod.split)
qed

section \<open>The system\<close>

datatype worker = No_Worker | Selecting | Draining | Exited

text \<open>
  A waiting call of \<open>AddEvent\<close> is its event and whether the context it selects on has been
  cancelled. The last four fields are history: the events accepted, processed, sent after the worker
  had left, and the log that the layers sum up.
\<close>

record ('c, 'g) sys =
  s_engine :: "('c, 'g) Engine"
  s_worker :: worker
  s_stopping :: bool
  s_calls :: "(Event \<times> bool) list"
  s_accepted :: "Event list"
  s_processed :: "Event list"
  s_late :: "Event list"
  s_log :: "ImmutableGraph \<times> Event list"

definition s_config :: "('c, 'g) sys \<Rightarrow> ('c, 'g) Builder" where
  "s_config s = en_config (s_engine s)"

definition cancel :: "('c, 'g) sys \<Rightarrow> ('c, 'g) sys" where
  "cancel s = s\<lparr>s_engine := (s_engine s)\<lparr>en_ctxDone := True\<rparr>, s_calls := map (\<lambda>(ev, _). (ev, True)) (s_calls s)\<rparr>"

definition launch :: "('c, 'g) Engine \<Rightarrow> ('c, 'g) sys \<Rightarrow> ('c, 'g) sys" where
  "launch e s = s\<lparr>s_engine := e, s_worker := Selecting, s_late := []\<rparr>"

definition alive :: "('c, 'g) sys \<Rightarrow> bool" where
  "alive s \<longleftrightarrow> s_worker s = Selecting \<or> s_worker s = Draining"

inductive worker_step :: "('c, 'g) sys \<Rightarrow> ('c, 'g) sys \<Rightarrow> bool" where
  take: "alive s \<Longrightarrow> en_eventCh (s_engine s) = ev # rest \<Longrightarrow>
    processEvent now ev ((s_engine s)\<lparr>en_eventCh := rest\<rparr>) = Some e' \<Longrightarrow>
    worker_step s (s\<lparr>s_engine := e', s_processed := s_processed s @ [ev],
      s_log := logged (s_config s) (Process now ev) (s_log s)\<rparr>)"
| cancelled: "s_worker s = Selecting \<Longrightarrow> en_ctxDone (s_engine s) \<Longrightarrow> worker_step s (s\<lparr>s_worker := Draining\<rparr>)"
| exit: "s_worker s = Draining \<Longrightarrow> en_eventCh (s_engine s) = [] \<Longrightarrow> worker_step s (s\<lparr>s_worker := Exited\<rparr>)"

inductive lc_step :: "('c, 'g) sys \<Rightarrow> ('c, 'g) sys \<Rightarrow> bool" where
  start: "Engine_Start now pd (s_engine s) = (e', None) \<Longrightarrow> lc_step s (launch e' s)"
| offer: "AddEvent_offer now ev (s_engine s) = (e', Inr ev') \<Longrightarrow> now \<noteq> 0 \<Longrightarrow>
    s' = (if en_started (s_engine s) then s else launch e' s) \<Longrightarrow>
    lc_step s (s'\<lparr>s_calls := s_calls s' @ [(ev', en_ctxDone e')]\<rparr>)"
| select: "i < length (s_calls s) \<Longrightarrow> s_calls s ! i = (ev, c) \<Longrightarrow>
    AddEvent_select ev ((s_engine s)\<lparr>en_ctxDone := c\<rparr>) e' r \<Longrightarrow>
    lc_step s (s\<lparr>s_engine := e'\<lparr>en_ctxDone := en_ctxDone (s_engine s)\<rparr>,
      s_calls := take i (s_calls s) @ drop (Suc i) (s_calls s),
      s_accepted := (if r = None then s_accepted s @ [ev] else s_accepted s),
      s_late := (if r = None \<and> \<not> alive s then s_late s @ [ev] else s_late s)\<rparr>)"
| work: "worker_step s s' \<Longrightarrow> lc_step s s'"
| parent_cancel: "en_started (s_engine s) \<Longrightarrow> lc_step s (cancel s)"
| stop_begin: "Running (s_engine s) \<Longrightarrow> \<not> s_stopping s \<Longrightarrow> lc_step s ((cancel s)\<lparr>s_stopping := True\<rparr>)"
| stop_end: "s_stopping s \<Longrightarrow> s_worker s = Exited \<Longrightarrow>
    lc_step s (s\<lparr>s_engine := close_backend ((s_engine s)\<lparr>en_stopped := True, en_started := False\<rparr>), s_stopping := False\<rparr>)"
| other: "act x (s_engine s) = Some e' \<Longrightarrow> (\<forall>now ev. x \<noteq> Process now ev) \<Longrightarrow>
    lc_step s (s\<lparr>s_engine := e', s_log := logged (s_config s) x (s_log s)\<rparr>)"

inductive_cases worker_stepE: "worker_step s s'"

definition lc_init :: "('c, 'g) Engine \<Rightarrow> ('c, 'g) sys" where
  "lc_init e = \<lparr>s_engine = e, s_worker = No_Worker, s_stopping = False, s_calls = [], s_accepted = [], s_processed = [],
     s_late = [], s_log = (en_base e, [])\<rparr>"

section \<open>Invariant of the channel\<close>

definition ready :: "Event \<Rightarrow> bool" where
  "ready ev \<longleftrightarrow> Validate ev = None \<and> 0 < ev_Weight ev \<and> ev_Timestamp ev \<noteq> 0"

definition lc_ok :: "('c, 'g) Builder \<Rightarrow> ('c, 'g) sys \<Rightarrow> bool" where
  "lc_ok cfg s \<longleftrightarrow> (let e = s_engine s in
     s_config s = cfg \<and> \<not> (en_started e \<and> en_stopped e) \<and>
     s_accepted s = s_processed s @ en_eventCh e \<and>
     int (length (en_eventCh e)) \<le> b_channelSize cfg \<and>
     (\<forall>(ev, c) \<in> set (s_calls s). ready ev) \<and> (\<forall>ev \<in> set (s_accepted s). ready ev) \<and>
     (alive s \<longrightarrow> en_started e \<and> s_late s = []) \<and> (\<not> alive s \<longrightarrow> en_eventCh e = s_late s) \<and>
     (en_started e \<longrightarrow> s_worker s \<noteq> No_Worker) \<and>
     (s_worker s = Draining \<or> en_started e \<and> s_worker s = Exited \<longrightarrow> en_ctxDone e) \<and>
     (s_stopping s \<longrightarrow> en_started e \<and> en_ctxDone e))"

lemmas lc_simps = lc_ok_def s_config_def alive_def Let_def

lemma lc_ok_life:
  assumes "lc_ok cfg s" and "life e' = life (s_engine s)"
  shows "lc_ok cfg (s\<lparr>s_engine := e', s_log := l\<rparr>)"
  using assms by (simp add: lc_simps life_def)

lemma ready_Normalize: "Validate ev = None \<Longrightarrow> now \<noteq> 0 \<Longrightarrow> ready (Normalize now ev)"
  by (auto simp: ready_def Validate_def Normalize_def Let_def split: if_splits)

lemma lc_ok_launch: "lc_ok cfg s \<Longrightarrow> \<not> en_started (s_engine s) \<Longrightarrow> e' = fst (Engine_Start now pd (s_engine s)) \<Longrightarrow> lc_ok cfg (launch e' s)"
  by (auto simp: lc_simps Engine_Start_def launch_def)

lemma lc_ok_offer:
  assumes "lc_ok cfg s" and "ready ev"
  shows "lc_ok cfg (s\<lparr>s_calls := s_calls s @ [(ev, c)]\<rparr>)"
  using assms by (auto simp: lc_simps)

lemma lc_ok_cancel: "lc_ok cfg s \<Longrightarrow> lc_ok cfg (cancel s)"
  by (auto simp: lc_simps cancel_def)

lemma lc_ok_worker:
  assumes "worker_step s s'" and ok: "lc_ok cfg s"
  shows "lc_ok cfg s'"
  using assms(1)
proof cases
  case (take ev rest now e')
  have "life e' = life ((s_engine s)\<lparr>en_eventCh := rest\<rparr>)" by (rule life_processEvent [OF take(4)])
  with ok take(2,3) show ?thesis by (auto simp: take(1) lc_simps life_def)
qed (use ok in \<open>auto simp: lc_simps\<close>)

lemma lc_ok_step:
  assumes "lc_step s s'" and ok: "lc_ok cfg s"
  shows "lc_ok cfg s'"
  using assms(1)
proof cases
  case (start now pd e')
  with ok show ?thesis by (auto simp: Engine_Start_def split: if_splits intro!: lc_ok_launch [of _ _ _ now pd])
next
  case (offer now ev e' ev' s1)
  have "Validate ev = None" "ev' = Normalize now ev" "\<not> en_started (s_engine s) \<Longrightarrow> e' = fst (Engine_Start now False (s_engine s))"
    using offer(2) by (auto simp: AddEvent_offer_def Let_def split: option.splits if_splits)
  then have "ready ev'" "lc_ok cfg s1"
    using ok offer(3,4) ready_Normalize lc_ok_launch [OF ok] by auto
  with offer(1) show ?thesis by (simp add: lc_ok_offer)
next
  case (select i ev c e' r)
  have mem: "(ev, c) \<in> set (s_calls s)" using select(2,3) nth_mem by fastforce
  with ok have "ready ev" by (auto simp: lc_simps)
  moreover have "\<forall>x \<in> set (take i (s_calls s) @ drop (Suc i) (s_calls s)). x \<in> set (s_calls s)"
    by (auto dest: in_set_takeD in_set_dropD)
  ultimately show ?thesis
    using select(4) ok unfolding select(1)
    by (elim AddEvent_selectE) (auto simp: lc_simps can_send_def)
next
  case work
  then show ?thesis using ok lc_ok_worker by blast
next
  case (other x e')
  with lc_ok_life [OF ok life_act [OF other(2)]] show ?thesis by simp
next
  case stop_end
  let ?e = "(s_engine s)\<lparr>en_stopped := True, en_started := False\<rparr>"
  have "life (close_backend ?e) = life ?e" by (rule life_close_backend)
  with ok stop_end show ?thesis by (auto simp: lc_simps life_def)
qed (use lc_ok_cancel [OF ok] ok in \<open>auto simp: lc_simps cancel_def Running_def\<close>)

lemma lc_ok_reachable:
  assumes "lc_step\<^sup>*\<^sup>* s s'" and "lc_ok cfg s"
  shows "lc_ok cfg s'"
  using assms by (induction rule: rtranclp_induct) (auto intro: lc_ok_step)

section \<open>The layers sum up what was processed\<close>

definition lc_sums :: "('c, 'g) Builder \<Rightarrow> ('c, 'g) sys \<Rightarrow> bool" where
  "lc_sums cfg s \<longleftrightarrow> engine_sums (fst (s_log s)) (snd (s_log s)) (s_engine s) \<and>
     en_eventsTotal (s_engine s) = int (length (s_processed s)) \<and>
     (\<exists>k. snd (s_log s) = drop k (map (effective cfg) (s_processed s)))"

definition clean_so_far :: "('c, 'g) Builder \<Rightarrow> ('c, 'g) sys \<Rightarrow> bool" where
  "clean_so_far cfg s \<longleftrightarrow> (\<forall>ev \<in> set (s_accepted s). clean_event (effective cfg ev))"

lemma lc_sums_core:
  "core e = core (s_engine s) \<Longrightarrow> s_log s' = s_log s \<Longrightarrow> s_processed s' = s_processed s \<Longrightarrow> s_engine s' = e \<Longrightarrow> lc_sums cfg s \<Longrightarrow> lc_sums cfg s'"
  using core_eqD [of e "s_engine s"] engine_sums_core [of e "s_engine s"] by (simp add: lc_sums_def)

lemma core_launch: "core (fst (Engine_Start now pd e)) = core e"
  by (simp add: Engine_Start_def core_def)

lemma drop_snoc_le: "\<exists>k'. drop k xs @ [x] = drop k' (xs @ [x])"
  by (cases "k \<le> length xs") (auto intro: exI [of _ k] exI [of _ "length xs"])

lemma lc_sums_take:
  assumes sums: "lc_sums cfg s" and cfg: "s_config s = cfg" and "clean_event (effective cfg ev)" and "safe_divergence cfg"
  shows "\<exists>e'. processEvent now ev ((s_engine s)\<lparr>en_eventCh := rest\<rparr>) = Some e' \<and>
    lc_sums cfg (s\<lparr>s_engine := e', s_processed := s_processed s @ [ev], s_log := logged cfg (Process now ev) (s_log s)\<rparr>)"
proof -
  let ?e = "(s_engine s)\<lparr>en_eventCh := rest\<rparr>"
  obtain g0 es where l: "s_log s = (g0, es)" by (cases "s_log s")
  have c: "core ?e = core (s_engine s)" "en_config ?e = cfg" using cfg by (simp_all add: core_def s_config_def)
  have "engine_sums g0 es ?e" using sums engine_sums_core [OF c(1)] by (simp add: lc_sums_def l)
  from processEvent_sums [OF this, of ev now] assms(3,4) c(2) obtain e' where e': "processEvent now ev ?e = Some e'"
    "engine_sums g0 (es @ [effective cfg ev]) e'" "en_eventsTotal e' = en_eventsTotal ?e + 1" by auto
  from sums obtain k where "es = drop k (map (effective cfg) (s_processed s))" by (auto simp: lc_sums_def l)
  with drop_snoc_le [of k "map (effective cfg) (s_processed s)" "effective cfg ev"]
  have "\<exists>k. es @ [effective cfg ev] = drop k (map (effective cfg) (s_processed s @ [ev]))" by simp
  with e' sums show ?thesis by (simp add: lc_sums_def l)
qed

lemma lc_sums_other:
  assumes sums: "lc_sums cfg s" and "s_config s = cfg" and "safe_divergence cfg" and x: "act x (s_engine s) = Some e'" "\<forall>now ev. x \<noteq> Process now ev"
  shows "lc_sums cfg (s\<lparr>s_engine := e', s_log := logged cfg x (s_log s)\<rparr>)"
proof -
  have "acceptable cfg x" "processed [x] = 0" using x(2) by (cases x; simp)+
  with act_sums [of "s_log s" "s_engine s" cfg x] sums assms(2,3) x(1)
  have e': "engine_sums (fst (logged cfg x (s_log s))) (snd (logged cfg x (s_log s))) e'" "en_eventsTotal e' = en_eventsTotal (s_engine s)"
    by (simp_all add: lc_sums_def s_config_def)
  have "snd (logged cfg x (s_log s)) = snd (s_log s) \<or> snd (logged cfg x (s_log s)) = []"
    using x(2) by (cases x; cases "s_log s") auto
  moreover have "\<exists>k. [] = drop k (map (effective cfg) (s_processed s))" by (rule exI [of _ "length (s_processed s)"]) simp
  ultimately show ?thesis using e' sums by (auto simp: lc_sums_def)
qed

lemma lc_sums_worker:
  assumes "worker_step s s'" and "lc_ok cfg s" and "lc_sums cfg s" and "clean_so_far cfg s" and safe: "safe_divergence cfg"
  shows "lc_sums cfg s'"
  using assms(1)
proof cases
  case (take ev rest now e')
  have "ev \<in> set (s_accepted s)" "s_config s = cfg" using assms(2) take(3) by (auto simp: lc_simps)
  with lc_sums_take [OF assms(3) _ _ safe, of ev now rest] take(4) assms(4) show ?thesis by (auto simp: take(1) clean_so_far_def)
qed (use assms(3) in \<open>simp_all add: lc_sums_def\<close>)

lemma lc_step_accepted: "lc_step s s' \<Longrightarrow> set (s_accepted s) \<subseteq> set (s_accepted s')"
  by (erule lc_step.cases) (auto simp: launch_def cancel_def elim: worker_stepE)

lemma lc_sums_step:
  assumes "lc_step s s'" and ok: "lc_ok cfg s" and sums: "lc_sums cfg s" and clean: "clean_so_far cfg s" and safe: "safe_divergence cfg"
  shows "lc_sums cfg s'"
  using assms(1)
proof cases
  case (start now pd e')
  then have "core e' = core (s_engine s)" using core_launch [of now pd "s_engine s"] by simp
  then show ?thesis by (rule lc_sums_core [OF _ _ _ _ sums]) (simp_all add: start(1) launch_def)
next
  case (offer now ev e' ev' s1)
  have "core e' = core (s_engine s)"
    using offer(2) core_launch [of now False "s_engine s"] by (auto simp: AddEvent_offer_def Let_def split: option.splits if_splits)
  then have "lc_sums cfg s1" using sums by (auto simp: offer(4) launch_def intro: lc_sums_core [OF _ _ _ _ sums])
  then show ?thesis by (simp add: offer(1) lc_sums_def)
next
  case (select i ev c e' r)
  have "core (e'\<lparr>en_ctxDone := en_ctxDone (s_engine s)\<rparr>) = core (s_engine s)"
    using select(4) by (elim AddEvent_selectE) (simp_all add: core_def)
  then show ?thesis by (rule lc_sums_core [OF _ _ _ _ sums]) (simp_all add: select(1))
next
  case work
  then show ?thesis using lc_sums_worker [OF _ ok sums clean safe] by blast
next
  case (other x e')
  have "s_config s = cfg" using ok by (simp add: lc_simps)
  with lc_sums_other [OF sums _ safe other(2,3)] show ?thesis by (simp add: other(1))
next
  case stop_end
  let ?e = "(s_engine s)\<lparr>en_stopped := True, en_started := False\<rparr>"
  have "core (close_backend ?e) = core (s_engine s)" by (simp add: core_close_backend) (simp add: core_def)
  then show ?thesis by (rule lc_sums_core [OF _ _ _ _ sums]) (simp_all add: stop_end(1))
next
  case parent_cancel
  show ?thesis unfolding parent_cancel(1) by (rule lc_sums_core [OF _ _ _ refl sums]) (simp_all add: cancel_def core_def)
next
  case stop_begin
  show ?thesis unfolding stop_begin(1) by (rule lc_sums_core [OF _ _ _ refl sums]) (simp_all add: cancel_def core_def)
qed

lemma lc_init_ok:
  assumes "Build b = Inr cfg" and "newEngine now cal gpu cfg = Some e" and "ig_ok (en_base e)"
  shows "lc_ok cfg (lc_init e)" and "lc_sums cfg (lc_init e)" and "0 < b_channelSize cfg"
proof -
  show size: "0 < b_channelSize cfg" using assms(1) by (auto simp: Build_def split: if_splits)
  note new = newEngine_sums [OF assms(2,3)]
  have "en_eventCh e = []" "\<not> en_started e"
    using assms(2) by (auto simp: newEngine_def store_version_def Let_def bind_eq_Some_conv)
  with new size show "lc_ok cfg (lc_init e)" by (simp add: lc_simps lc_init_def)
  show "lc_sums cfg (lc_init e)" using new by (simp add: lc_sums_def lc_init_def)
qed

lemma lc_reachable:
  assumes "lc_step\<^sup>*\<^sup>* s s'" and "lc_ok cfg s" and "lc_sums cfg s" and "safe_divergence cfg" and "clean_so_far cfg s'"
  shows "lc_ok cfg s' \<and> lc_sums cfg s'"
  using assms(1,5)
proof (induction rule: rtranclp_induct)
  case (step y z)
  from step(4) lc_step_accepted [OF step(2)] have clean: "clean_so_far cfg y" by (auto simp: clean_so_far_def)
  with step(3) have "lc_ok cfg y" "lc_sums cfg y" by simp_all
  with lc_ok_step [OF step(2)] lc_sums_step [OF step(2) _ _ clean assms(4)] show ?case by blast
qed (use assms in simp)

section \<open>The worker makes progress\<close>

definition worker_rank :: "('c, 'g) sys \<Rightarrow> nat" where
  "worker_rank s = length (en_eventCh (s_engine s)) + (case s_worker s of Selecting \<Rightarrow> 2 | Draining \<Rightarrow> 1 | _ \<Rightarrow> 0)"

lemma worker_rank_decreases: "worker_step s s' \<Longrightarrow> worker_rank s' < worker_rank s"
proof (erule worker_step.cases, goal_cases)
  case (1 s0 ev rest now e')
  have "en_eventCh e' = rest" using life_processEvent [OF 1(5)] by (simp add: life_def)
  with 1 show ?case by (simp add: worker_rank_def)
qed (simp_all add: worker_rank_def)

lemma worker_takes:
  assumes "lc_ok cfg s" and "lc_sums cfg s" and "clean_so_far cfg s" and "safe_divergence cfg"
    and "alive s" and ch: "en_eventCh (s_engine s) = ev # rest"
  shows "\<exists>s'. worker_step s s' \<and> s_processed s' = s_processed s @ [ev] \<and> s_accepted s' = s_accepted s \<and>
    s_worker s' = s_worker s \<and> en_eventCh (s_engine s') = rest \<and> en_ctxDone (s_engine s') = en_ctxDone (s_engine s)"
proof -
  have "ev \<in> set (s_accepted s)" and cfg: "s_config s = cfg" using assms(1) ch by (auto simp: lc_simps)
  with lc_sums_take [OF assms(2) cfg _ assms(4), of ev 0 rest] assms(3)
  obtain e' where e': "processEvent 0 ev ((s_engine s)\<lparr>en_eventCh := rest\<rparr>) = Some e'" by (auto simp: clean_so_far_def)
  from worker_step.take [OF assms(5) ch this] life_processEvent [OF e'] show ?thesis
    by (intro exI conjI) (assumption, simp_all add: life_def)
qed

lemma worker_finishes:
  assumes "lc_ok cfg s" and "lc_sums cfg s" and "clean_so_far cfg s" and "safe_divergence cfg" and "alive s" and "en_ctxDone (s_engine s)"
  shows "\<exists>s'. worker_step\<^sup>*\<^sup>* s s' \<and> s_worker s' = Exited \<and> s_processed s' = s_accepted s \<and> s_accepted s' = s_accepted s \<and>
    en_eventCh (s_engine s') = []"
  using assms(1-3,5,6)
proof (induction "length (en_eventCh (s_engine s))" arbitrary: s)
  case 0
  let ?d = "s\<lparr>s_worker := Draining\<rparr>" and ?x = "s\<lparr>s_worker := Exited\<rparr>"
  have acc: "s_processed s = s_accepted s" using 0(1,2) by (simp add: lc_simps)
  have "worker_step ?d ?x" using worker_step.exit [of ?d] 0(1) by simp
  moreover have "worker_step\<^sup>*\<^sup>* s ?d"
  proof (cases "s_worker s = Selecting")
    case True
    with worker_step.cancelled [of s] 0(6) show ?thesis by simp
  next
    case False
    with 0(5) have "?d = s" by (cases s) (simp add: alive_def)
    then show ?thesis by simp
  qed
  ultimately have "worker_step\<^sup>*\<^sup>* s ?x" by (rule rtranclp.rtrancl_into_rtrancl [rotated])
  with acc 0(1) show ?case by (intro exI [of _ ?x]) simp
next
  case (Suc n)
  then obtain ev rest where ch: "en_eventCh (s_engine s) = ev # rest" "length rest = n" by (cases "en_eventCh (s_engine s)") auto
  from worker_takes [OF Suc.prems(1,2,3) assms(4) Suc.prems(4) ch(1)] obtain s1 where s1: "worker_step s s1"
    "s_accepted s1 = s_accepted s" "s_worker s1 = s_worker s" "en_eventCh (s_engine s1) = rest" "en_ctxDone (s_engine s1)"
    using Suc.prems(5) by auto
  have "lc_ok cfg s1" "lc_sums cfg s1" using lc_ok_worker [OF s1(1)] lc_sums_worker [OF s1(1)] Suc.prems assms(4) by blast+
  moreover have "clean_so_far cfg s1" "alive s1" using Suc.prems(3,4) s1 by (simp_all add: clean_so_far_def alive_def)
  ultimately obtain s' where "worker_step\<^sup>*\<^sup>* s1 s'" "s_worker s' = Exited" "s_processed s' = s_accepted s" "s_accepted s' = s_accepted s"
    "en_eventCh (s_engine s') = []" using Suc.hyps(1) [of s1] s1 ch(2) by auto
  with s1(1) show ?case by (meson converse_rtranclp_into_rtranclp)
qed

lemma worker_steps_lc: "worker_step\<^sup>*\<^sup>* s s' \<Longrightarrow> lc_step\<^sup>*\<^sup>* s s'"
  by (induction rule: rtranclp_induct) (auto intro: lc_step.work rtranclp.rtrancl_into_rtrancl)

lemma stop_returns:
  assumes run: "worker_step\<^sup>*\<^sup>* s s1" and stopping: "s_stopping s" and "s_worker s1 = Exited"
  shows "\<exists>s2. lc_step\<^sup>*\<^sup>* s s2 \<and> \<not> s_stopping s2 \<and> en_stopped (s_engine s2) \<and> \<not> Running (s_engine s2) \<and>
    s_processed s2 = s_processed s1 \<and> s_accepted s2 = s_accepted s1 \<and> en_eventCh (s_engine s2) = en_eventCh (s_engine s1)"
proof -
  have "s_stopping s1" using run stopping by (induction rule: rtranclp_induct) (auto elim: worker_stepE)
  from lc_step.stop_end [OF this assms(3)] obtain s2 where s2: "lc_step s1 s2" "\<not> s_stopping s2"
    "s_engine s2 = close_backend ((s_engine s1)\<lparr>en_stopped := True, en_started := False\<rparr>)" "s_processed s2 = s_processed s1"
    "s_accepted s2 = s_accepted s1" by fastforce
  have "lc_step\<^sup>*\<^sup>* s s2" using worker_steps_lc [OF run] s2(1) by simp
  moreover have "life (s_engine s2) = life ((s_engine s1)\<lparr>en_stopped := True, en_started := False\<rparr>)"
    unfolding s2(3) by (rule life_close_backend)
  ultimately show ?thesis using s2 by (intro exI [of _ s2]) (simp add: life_def Running_def)
qed

text \<open>Two short runs: a call of \<open>AddEvent\<close> starts the engine, and its event is sent in time or too late.\<close>

lemma first_call:
  assumes new: "newEngine now cal gpu cfg = Some e0"
  shows "\<exists>s e1. lc_step (lc_init e0) s \<and> s = (launch e1 (lc_init e0))\<lparr>s_calls := [(Normalize 1 sample_event, False)]\<rparr> \<and>
    en_started e1 \<and> en_eventCh e1 = [] \<and> \<not> en_stopped e1 \<and> en_config e1 = cfg \<and> \<not> en_ctxDone e1"
proof -
  let ?ev = "Normalize 1 sample_event" and ?i = "lc_init e0" and ?e1 = "fst (Engine_Start 1 False e0)"
  have e0: "\<not> en_started e0" "en_eventCh e0 = []" "\<not> en_stopped e0" "en_config e0 = cfg"
    using new by (auto simp: newEngine_def store_version_def Let_def bind_eq_Some_conv)
  have e1: "en_started ?e1" "en_eventCh ?e1 = []" "\<not> en_stopped ?e1" "en_config ?e1 = cfg" "\<not> en_ctxDone ?e1"
    using e0 by (simp_all add: Engine_Start_def)
  have "AddEvent_offer 1 sample_event e0 = (?e1, Inr ?ev)"
    using e0(1) e1(3) by (simp add: AddEvent_offer_def Let_def Validate_def sample_event_def)
  from lc_step.offer [of 1 sample_event ?i, OF _ _ refl, of ?e1 ?ev] this
  have "lc_step ?i ((launch ?e1 ?i)\<lparr>s_calls := [(?ev, False)]\<rparr>)"
    using e0(1) e1(5) by (simp add: lc_init_def launch_def)
  with e1 show ?thesis by blast
qed

lemma accepted_without_worker:
  fixes e0 :: "('c, 'g) Engine"
  assumes new: "newEngine now cal gpu cfg = Some e0" and size: "0 < b_channelSize cfg"
  shows "\<exists>s. lc_step\<^sup>*\<^sup>* (lc_init e0) s \<and> Running (s_engine s) \<and> s_worker s = Exited \<and>
    s_accepted s = [Normalize 1 sample_event] \<and> s_processed s = []"
proof -
  let ?ev = "Normalize 1 sample_event" and ?i = "lc_init e0"
  from first_call [OF new] obtain s1 e1 where 1: "lc_step ?i s1" "s1 = (launch e1 ?i)\<lparr>s_calls := [(?ev, False)]\<rparr>"
    and e1: "en_started e1" "en_eventCh e1 = []" "\<not> en_stopped e1" "en_config e1 = cfg" by blast
  have 2: "lc_step s1 (cancel s1)" by (rule lc_step.parent_cancel) (simp add: 1(2) launch_def e1)
  define s3 where "s3 = (cancel s1)\<lparr>s_worker := Draining\<rparr>"
  have 3: "lc_step (cancel s1) s3" unfolding s3_def
    by (intro lc_step.work worker_step.cancelled) (simp_all add: 1(2) launch_def cancel_def)
  define s4 where "s4 = s3\<lparr>s_worker := Exited\<rparr>"
  have 4: "lc_step s3 s4" unfolding s4_def
    by (intro lc_step.work worker_step.exit) (simp_all add: s3_def 1(2) launch_def cancel_def e1)
  have calls: "s_calls s4 = [(?ev, True)]" "s_engine s4 = e1\<lparr>en_ctxDone := True\<rparr>" "s_accepted s4 = []" "s_processed s4 = []"
    by (simp_all add: s4_def s3_def 1(2) launch_def cancel_def lc_init_def)
  have "AddEvent_select ?ev ((s_engine s4)\<lparr>en_ctxDone := True\<rparr>) (e1\<lparr>en_ctxDone := True, en_eventCh := [?ev]\<rparr>) None"
    using select_send [of "e1\<lparr>en_ctxDone := True\<rparr>" ?ev] size e1 by (simp add: calls can_send_def)
  from lc_step.select [of 0 s4, OF _ _ this] calls obtain s5 where 5: "lc_step s4 s5" "s_accepted s5 = [?ev]" "s_processed s5 = []"
    "s_worker s5 = Exited" "Running (s_engine s5)"
    using e1 by (fastforce simp: Running_def s4_def)
  have "lc_step\<^sup>*\<^sup>* ?i s5" using 1(1) 2 3 4 5(1) by (meson converse_rtranclp_into_rtranclp r_into_rtranclp)
  with 5 show ?thesis by blast
qed

lemma accepted_then_stopping:
  fixes e0 :: "('c, 'g) Engine"
  assumes new: "newEngine now cal gpu cfg = Some e0" and size: "0 < b_channelSize cfg"
  shows "\<exists>s. lc_step\<^sup>*\<^sup>* (lc_init e0) s \<and> alive s \<and> s_stopping s \<and> s_accepted s = [Normalize 1 sample_event] \<and> s_processed s = []"
proof -
  let ?ev = "Normalize 1 sample_event" and ?i = "lc_init e0"
  from first_call [OF new] obtain s1 e1 where 1: "lc_step ?i s1" "s1 = (launch e1 ?i)\<lparr>s_calls := [(?ev, False)]\<rparr>"
    and e1: "en_started e1" "en_eventCh e1 = []" "\<not> en_stopped e1" "en_config e1 = cfg" "\<not> en_ctxDone e1" by blast
  have s1: "s_calls s1 = [(?ev, False)]" "s_engine s1 = e1" "s_worker s1 = Selecting" "s_accepted s1 = []" "s_processed s1 = []" "\<not> s_stopping s1"
    by (simp_all add: 1(2) launch_def lc_init_def)
  have "AddEvent_select ?ev ((s_engine s1)\<lparr>en_ctxDone := False\<rparr>) (e1\<lparr>en_ctxDone := False, en_eventCh := [?ev]\<rparr>) None"
    using select_send [of "e1\<lparr>en_ctxDone := False\<rparr>" ?ev] size e1 by (simp add: s1 can_send_def)
  from lc_step.select [of 0 s1, OF _ _ this] s1 obtain s2 where 2: "lc_step s1 s2" "s_accepted s2 = [?ev]" "s_processed s2 = []"
    "s_worker s2 = Selecting" "Running (s_engine s2)" "\<not> s_stopping s2"
    using e1 by (fastforce simp: Running_def)
  have 3: "lc_step s2 ((cancel s2)\<lparr>s_stopping := True\<rparr>)" using 2 by (intro lc_step.stop_begin) simp_all
  have "lc_step\<^sup>*\<^sup>* ?i ((cancel s2)\<lparr>s_stopping := True\<rparr>)" using 1(1) 2(1) 3 by (meson converse_rtranclp_into_rtranclp r_into_rtranclp)
  moreover have "alive ((cancel s2)\<lparr>s_stopping := True\<rparr>)" "s_accepted ((cancel s2)\<lparr>s_stopping := True\<rparr>) = [?ev]"
    "s_processed ((cancel s2)\<lparr>s_stopping := True\<rparr>) = []" using 2 by (simp_all add: alive_def cancel_def)
  ultimately show ?thesis by (intro exI [of _ "(cancel s2)\<lparr>s_stopping := True\<rparr>"]) simp
qed

lemma eager_engine:
  "\<exists>e0 :: (unit, unit) Engine. newEngine 0 () () eager_config = Some e0 \<and> ig_ok (en_base e0)"
  "Build eager_config = Inr eager_config" "0 < b_channelSize eager_config" "safe_divergence eager_config"
  "clean_event (effective eager_config (Normalize 1 sample_event))"
proof -
  have cfg: "b_baseGraph eager_config = None" "b_storage eager_config = None" "b_divergence eager_config = None"
    "b_weightFunc eager_config = None" by (simp_all add: eager_config_def NewBuilder_def)
  show "\<exists>e0 :: (unit, unit) Engine. newEngine 0 () () eager_config = Some e0 \<and> ig_ok (en_base e0)"
    by (simp add: newEngine_def cfg Let_def overlay_laws(1) [OF agrees_start])
  show "Build eager_config = Inr eager_config" "0 < b_channelSize eager_config"
    by (simp_all add: Build_def eager_config_def NewBuilder_def)
  show "safe_divergence eager_config" by (rule safe_divergence_default [OF cfg(3)])
  show "clean_event (effective eager_config (Normalize 1 sample_event))"
    by (simp add: effective_def event_weight_def cfg clean_event_def sample_event_def Normalize_def Let_def nul_free_def)
qed

section \<open>Properties\<close>





section \<open>Batches\<close>

lemma first_invalid_None: "first_invalid evs = None \<longleftrightarrow> (\<forall>ev \<in> set evs. Validate ev = None)"
  by (induction evs) (auto split: option.split)

lemma first_invalid_Some:
  "first_invalid evs = Some err \<Longrightarrow> \<exists>i < length evs. Validate (evs ! i) = Some err \<and> (\<forall>j < i. Validate (evs ! j) = None)"
proof (induction evs)
  case (Cons ev evs)
  show ?case
  proof (cases "Validate ev")
    case None
    with Cons obtain i where "i < length evs" "Validate (evs ! i) = Some err" "\<forall>j < i. Validate (evs ! j) = None" by auto
    with None show ?thesis by (intro exI [of _ "Suc i"]) (auto simp: less_Suc_eq_0_disj)
  qed (use Cons.prems in auto)
qed simp

lemma AddEvent_valid:
  assumes "AddEvent now ev e e' r" and "Validate ev = None"
  shows "r = None \<and> en_eventCh e' = en_eventCh e @ [Normalize now ev] \<or> r = Some ErrEngineStopped \<and> en_eventCh e' = en_eventCh e"
  using assms
  by (auto elim!: AddEventE AddEvent_selectE simp: AddEvent_offer_def Engine_Start_def Let_def split: if_splits)

lemma AddEvents_loop_prefix:
  assumes "AddEvents_loop now evs e e' r" and "\<forall>ev \<in> set evs. Validate ev = None"
  shows "\<exists>k \<le> length evs. en_eventCh e' = en_eventCh e @ map (Normalize now) (take k evs) \<and>
    (r = None \<and> k = length evs \<or> r = Some ErrEngineStopped \<and> k < length evs)"
  using assms
proof (induction rule: AddEvents_loop.induct)
  case (loop_error now ev e e' err evs)
  then show ?case using AddEvent_valid [OF loop_error(1)] by (intro exI [of _ 0]) auto
next
  case (loop_next now ev e e1 evs e' r)
  then have "en_eventCh e1 = en_eventCh e @ [Normalize now ev]" using AddEvent_valid [OF loop_next(1)] by auto
  moreover from loop_next obtain k where "k \<le> length evs" "en_eventCh e' = en_eventCh e1 @ map (Normalize now) (take k evs)"
    "r = None \<and> k = length evs \<or> r = Some ErrEngineStopped \<and> k < length evs" by auto
  ultimately show ?case by (intro exI [of _ "Suc k"]) auto
qed auto

text \<open>
  C32. A batch is validated before any of it is added. If an event of the batch is invalid, the call
  returns the error of the first such event and the engine is as it was, not even started. Otherwise
  the channel receives the normalised events in the order of the batch: all of them with no error,
  or, when the engine is stopped meanwhile, those before the one that was refused with
  \<open>ErrEngineStopped\<close>. So the batch is all or nothing for validation only.
\<close>

lemma AddEvents_all_or_nothing:
  assumes "AddEvents now evs e e' r"
  shows "if \<exists>ev \<in> set evs. Validate ev \<noteq> None
    then e' = e \<and> (\<exists>i < length evs. r \<noteq> None \<and> r = Validate (evs ! i) \<and> (\<forall>j < i. Validate (evs ! j) = None))
    else \<exists>k \<le> length evs. en_eventCh e' = en_eventCh e @ map (Normalize now) (take k evs) \<and>
      (r = None \<and> k = length evs \<or> r = Some ErrEngineStopped \<and> k < length evs)"
  using assms
proof cases
  case (AddEvents_invalid err)
  from first_invalid_Some [OF AddEvents_invalid(3)] obtain i where i: "i < length evs" "Validate (evs ! i) = Some err"
    "\<forall>j < i. Validate (evs ! j) = None" by blast
  then have "\<exists>ev \<in> set evs. Validate ev \<noteq> None" by (metis nth_mem option.distinct(1))
  with i AddEvents_invalid(1,2) show ?thesis by (simp del: not_None_eq) (metis option.distinct(1))
next
  case AddEvents_valid
  then have "\<forall>ev \<in> set evs. Validate ev = None" by (simp add: first_invalid_None)
  with AddEvents_loop_prefix [OF AddEvents_valid(2)] show ?thesis by simp
qed

lemma AddEvents_all_or_nothing_witness:
  "\<exists>e :: (unit, unit) Engine. newEngine 0 () () eager_config = Some e \<and>
    AddEvents 5 [sample_event, sample_event\<lparr>ev_Weight := -1\<rparr>] e e (Some ErrNegativeWeight) \<and>
    (\<forall>e' r. AddEvents 5 [sample_event, sample_event\<lparr>ev_Weight := -1\<rparr>] e e' r \<longrightarrow> e' = e)"
proof -
  let ?evs = "[sample_event, sample_event\<lparr>ev_Weight := -1\<rparr>]"
  have "first_invalid ?evs = Some ErrNegativeWeight" by (simp add: Validate_def sample_event_def)
  then have 1: "AddEvents 5 ?evs e e (Some ErrNegativeWeight)" for e :: "(unit, unit) Engine" by (rule AddEvents.AddEvents_invalid)
  have 2: "e' = e" if "AddEvents 5 ?evs e e' r" for e e' :: "(unit, unit) Engine" and r
    using AddEvents_all_or_nothing [OF that] by (simp add: Validate_def sample_event_def)
  obtain e :: "(unit, unit) Engine" where "newEngine 0 () () eager_config = Some e" using eager_engine(1) by blast
  with 1 2 show ?thesis by blast
qed

end
