(* ===== verification/Engine_State.thy ===== *)
theory Engine_State
  imports Engine_Lifecycle
begin

text \<open>
  The shape of an engine's state that every operation keeps: where the current version lies, what the
  version numbers and the counters count, the ring buffers and the cache. With it the numbers
  \<open>Stats\<close> reports are determined by the history.
\<close>

section \<open>Well-formed states\<close>

definition history_capacity :: "('c, 'g) Builder \<Rightarrow> nat" where
  "history_capacity cfg = (if b_temporalCapacity cfg \<le> 0 then 100 else nat (b_temporalCapacity cfg))"

definition histories_ok :: "('c, 'g) Builder \<Rightarrow> (string, TensionHistory) gomap \<Rightarrow> bool" where
  "histories_ok cfg hs \<longleftrightarrow> distinct (map fst hs) \<and>
     (\<forall>u h. map_of hs u = Some h \<longrightarrow> ring_ok h \<and> th_size h = history_capacity cfg)"

definition engine_typed :: "('c, 'g) Builder \<Rightarrow> int \<Rightarrow> Event list \<Rightarrow> ('c, 'g) Engine \<Rightarrow> bool" where
  "engine_typed cfg k es e \<longleftrightarrow> en_config e = cfg \<and> 0 < en_alloc e \<and> Load (en_vc e) = Some (en_alloc e - 1) \<and>
     en_versionID e = of_nat (en_alloc e - 1) \<and>
     (\<forall>a < en_alloc e. v_ID (en_heap e a) = of_nat a \<and> ig_ok (v_Graph (en_heap e a))) \<and>
     agrees_with_log es (v_Graph (en_heap e (en_alloc e - 1))) \<and> (\<forall>x \<in> set es. clean_event x) \<and>
     en_overlayCount e = int (length es) \<and> en_snapshotsActive e = k \<and> histories_ok cfg (en_tensionHistory e) \<and>
     en_cacheEnabled e = b_cacheEnabled cfg \<and> (en_ResultsCache e \<noteq> None \<longleftrightarrow> b_cacheEnabled cfg)"

lemma typed_log [simp]: "engine_typed cfg k es (e\<lparr>en_log := l\<rparr>) = engine_typed cfg k es e"
  "engine_typed cfg k es (e\<lparr>en_calibrator := c\<rparr>) = engine_typed cfg k es e"
  "engine_typed cfg k es (e\<lparr>en_lastTrend := t\<rparr>) = engine_typed cfg k es e"
  "engine_typed cfg k es (e\<lparr>en_saves := s\<rparr>) = engine_typed cfg k es e"
  "engine_typed cfg k es (e\<lparr>en_eventsTotal := n\<rparr>) = engine_typed cfg k es e"
  "engine_typed cfg k es (e\<lparr>en_base := b\<rparr>) = engine_typed cfg k es e"
  "engine_typed cfg k es (e\<lparr>en_lastCompact := d\<rparr>) = engine_typed cfg k es e"
  "engine_typed cfg k es (e\<lparr>en_gc := g\<rparr>) = engine_typed cfg k es e"
  by (simp_all add: engine_typed_def)

lemma typed_callbacks [simp]:
  "engine_typed cfg k es (safeCallback n r e) = engine_typed cfg k es e"
  "engine_typed cfg k es (reportError err e) = engine_typed cfg k es e"
  "engine_typed cfg k es (onChange d e) = engine_typed cfg k es e"
  by (simp_all add: safeCallback_def reportError_def onChange_def split: option.split)

lemma typed_node_added [simp]: "engine_typed cfg k es (node_added nid ev v g e) = engine_typed cfg k es e"
  by (simp add: node_added_def split: option.split)

lemma typed_fire_changes [simp]: "engine_typed cfg k es (fire_changes og ng ev v e) = engine_typed cfg k es e"
  by (simp add: fire_changes_def Let_def)

lemma typed_anomaly_steps [simp]:
  "engine_typed cfg k es (observe_tension now t e) = engine_typed cfg k es e"
  "engine_typed cfg k es (check_spike u t e) = engine_typed cfg k es e"
  "engine_typed cfg k es (update_trend ts ver u t e) = engine_typed cfg k es e"
  "engine_typed cfg k es (report_anomaly ts ver u n t e) = engine_typed cfg k es e"
  by (simp_all add: observe_tension_def check_spike_def update_trend_def report_anomaly_def Let_def split: option.split)

lemma histories_push:
  assumes "histories_ok cfg hs"
  shows "histories_ok cfg (AList.update u
    (Push s (case map_of hs u of Some h \<Rightarrow> h | None \<Rightarrow> NewTensionHistory (b_temporalCapacity cfg))) hs)"
proof -
  let ?h = "case map_of hs u of Some h \<Rightarrow> h | None \<Rightarrow> NewTensionHistory (b_temporalCapacity cfg)"
  have "ring_ok ?h \<and> th_size ?h = history_capacity cfg"
    using assms ring.invar_empty [of "b_temporalCapacity cfg"]
    by (auto simp: histories_ok_def history_capacity_def NewTensionHistory_def Let_def split: option.split)
  then have "ring_ok (Push s ?h) \<and> th_size (Push s ?h) = history_capacity cfg"
    using ring.invar_push [of ?h s] ring.bound_push [of ?h s] by simp
  with assms show ?thesis by (auto simp: histories_ok_def map_of_update distinct_update)
qed

lemma typed_push_history: "engine_typed cfg k es e \<Longrightarrow> engine_typed cfg k es (push_history u s e)"
  using histories_push [of "en_config e" "en_tensionHistory e" u s] by (auto simp: engine_typed_def push_history_def Let_def)

lemma typed_check_node: "check_node now g ts ver u e = Some e' \<Longrightarrow> engine_typed cfg k es e \<Longrightarrow> engine_typed cfg k es e'"
  by (auto simp: check_node_def Let_def bind_eq_Some_conv split: option.splits if_splits intro!: typed_push_history)

lemma typed_checkAnomalies: "checkAnomalies now g ev ver e = Some e' \<Longrightarrow> engine_typed cfg k es e \<Longrightarrow> engine_typed cfg k es e'"
  by (auto simp: checkAnomalies_def bind_eq_Some_conv dest: typed_check_node)

section \<open>Operations keep the shape\<close>

lemma typed_store:
  assumes "engine_typed cfg k es e" and "agrees_with_log es' (v_Graph v)" and "\<forall>x \<in> set es'. clean_event x"
    and "v_ID v = en_versionID e + 1" and "n = int (length es')"
  shows "engine_typed cfg k es' ((store_version v (e\<lparr>en_versionID := en_versionID e + 1\<rparr>))\<lparr>en_overlayCount := n\<rparr>)"
  using assms overlay_laws(1) [OF assms(2)]
  by (auto simp: engine_typed_def store_version_def Load_def Store_def less_Suc_eq of_nat_diff)

lemma typed_empty_version:
  assumes "engine_typed cfg k es e" and "v_Graph v = NewImmutableEmpty" and "v_ID v = en_versionID e + 1"
  shows "engine_typed cfg k [] ((store_version v (e\<lparr>en_versionID := en_versionID e + 1\<rparr>))\<lparr>en_overlayCount := 0\<rparr>)"
  using typed_store [OF assms(1), of "[]" v 0] assms(2,3) agrees_start by simp

lemma typed_publish: "engine_typed cfg k es e \<Longrightarrow> engine_typed cfg k [] (doCompact_publish now start st e)"
  using typed_empty_version [of cfg k es e "\<lparr>v_ID = en_versionID e + 1, v_Graph = NewImmutableEmpty, v_Timestamp = now, v_Dirty = [], v_refCount = 0\<rparr>"]
  by (simp add: doCompact_publish_def Let_def split: option.split)

lemma typed_doCompact:
  assumes "doCompact now e = Some e'" and "engine_typed cfg k es e"
  shows "engine_typed cfg k [] e'"
proof -
  from assms(2) have "Load (en_vc e) = Some (en_alloc e - 1)" by (simp add: engine_typed_def)
  with assms(1) obtain m st where "e' = doCompact_publish now now st (e\<lparr>en_base := m\<rparr>)"
    by (auto simp: doCompact_def doCompact_merge_def bind_eq_Some_conv)
  then show ?thesis using typed_publish [of cfg k es "e\<lparr>en_base := m\<rparr>"] assms(2) by simp
qed

lemma typed_Reset: "engine_typed cfg k es e \<Longrightarrow> engine_typed cfg k [] (Reset now e)"
  using overlay_laws(1) [OF agrees_start] agrees_start
  by (auto simp: engine_typed_def Reset_def Let_def store_version_def Load_def Store_def less_Suc_eq of_nat_diff)

definition overlay_after :: "time \<Rightarrow> Event \<Rightarrow> Event list \<Rightarrow> ('c, 'g) Engine \<Rightarrow> Event list" where
  "overlay_after now ev es e = (let cfg = en_config e in
     if (case b_compactionStrategy cfg of CompactByVolume \<Rightarrow> int (length es) + 1 \<ge> b_compactionThreshold cfg
         | CompactByTime \<Rightarrow> now - en_lastCompact e \<ge> b_compactionInterval cfg | CompactManual \<Rightarrow> False)
     then [] else es @ [effective cfg ev])"

lemma typed_processEvent:
  assumes p: "processEvent now ev e = Some e'" and typed: "engine_typed cfg k es e" and clean: "clean_event (effective cfg ev)"
  shows "engine_typed cfg k (overlay_after now ev es e) e'"
proof -
  obtain a where a: "en_alloc e - 1 = a" by simp
  note t = typed [unfolded engine_typed_def a]
  from t have load: "Load (en_vc e) = Some a" and cfg: "en_config e = cfg" by simp_all
  from event_graph_agrees [of es "v_Graph (en_heap e a)" cfg ev] t clean
  obtain g where g: "event_graph cfg ev (v_Graph (en_heap e a)) = Some g" "agrees_with_log (es @ [effective cfg ev]) g" by auto
  let ?e1 = "publish_event ev g e" and ?es = "es @ [effective cfg ev]"
  let ?v = "\<lparr>v_ID = en_versionID e + 1, v_Graph = g, v_Timestamp = ev_Timestamp ev,
      v_Dirty = AList.update (ev_Target ev) True (AList.update (ev_Source ev) True []), v_refCount = 0\<rparr>"
  have count: "en_overlayCount (publish_event ev g e) = int (length ?es)"
    using t by (simp add: publish_event_def Let_def store_version_def)
  have "engine_typed cfg k ?es ((store_version ?v (e\<lparr>en_versionID := en_versionID e + 1\<rparr>))\<lparr>en_overlayCount := int (length ?es)\<rparr>)"
    using t clean g(2) by (intro typed_store [OF typed]) auto
  moreover have "?e1 = (store_version ?v (e\<lparr>en_versionID := en_versionID e + 1\<rparr>))\<lparr>en_overlayCount := int (length ?es),
      en_eventsTotal := en_eventsTotal e + 1\<rparr>"
    using t by (simp add: publish_event_def Let_def store_version_def)
  ultimately have e1: "engine_typed cfg k ?es ?e1" by simp
  have should: "Engine_shouldCompact now ?e1 \<longleftrightarrow> overlay_after now ev es e = []"
    using t by (simp add: Engine_shouldCompact_def overlay_after_def Let_def publish_event_def store_version_def split: CompactionStrategy.split)
  from p load g(1) cfg obtain e2 where e2: "(if Engine_shouldCompact now ?e1 then doCompact now ?e1 else Some ?e1) = Some e2" and
    e': "(let x = (if b_onChange (en_config e2) \<noteq> None
        then fire_changes (v_Graph (en_heap e a)) g ev (en_versionID ?e1) e2 else e2)
      in if b_onAnomaly (en_config x) \<noteq> None then checkAnomalies now g ev (en_versionID ?e1) x else Some x) = Some e'"
    by (auto simp: processEvent_def bind_eq_Some_conv Let_def)
  have "engine_typed cfg k (overlay_after now ev es e) e2"
    using e2 typed_doCompact [OF _ e1, of now e2] e1 should cfg by (auto simp: overlay_after_def Let_def split: if_splits)
  with e' show ?thesis by (auto simp: Let_def dest: typed_checkAnomalies split: if_splits)
qed

lemma typed_frame:
  assumes "engine_typed cfg k es e" and "same_versions (en_heap e) h"
  shows "engine_typed cfg k es (e\<lparr>en_heap := h\<rparr>)"
  using assms by (simp add: engine_typed_def same_versions_def)

lemma typed_cache: "engine_typed cfg k es e \<Longrightarrow> engine_typed cfg k es (e\<lparr>en_ResultsCache := map_option f (en_ResultsCache e)\<rparr>)"
  by (simp add: engine_typed_def)

lemma typed_gc_tick: "engine_typed cfg k es e \<Longrightarrow> engine_typed cfg k es (gc_tick now e)"
proof -
  obtain gc h st evs where c: "Collect now (en_vc e) (en_gc e) (en_heap e) = (gc, h, st, evs)" by (metis prod_cases4)
  assume "engine_typed cfg k es e"
  then have "engine_typed cfg k es ((e\<lparr>en_gc := gc\<rparr>)\<lparr>en_heap := h\<rparr>)" using same_versions_Collect [OF c] by (intro typed_frame) simp_all
  then have e1: "engine_typed cfg k es (e\<lparr>en_gc := gc, en_heap := h\<rparr>)" by simp
  from typed_cache [OF this] e1 show ?thesis by (simp add: gc_tick_def c Let_def split: option.split)
qed

lemma typed_eviction: "engine_typed cfg k es e \<Longrightarrow> engine_typed cfg k es (eviction_tick now e)"
  unfolding eviction_tick_def by (rule typed_cache)

lemma typed_save: "engine_typed cfg k es e \<Longrightarrow> engine_typed cfg k es (run_save now e)"
  by (simp add: run_save_def Let_def split: option.split list.split)

lemma typed_Snapshot:
  assumes "engine_typed cfg k es e" and "Engine_Snapshot now e = Some (e', s)"
  shows "engine_typed cfg (k + 1) es e'"
  using assms same_versions_refs(2) [of "en_heap e" "en_alloc e - 1"]
  by (auto simp: engine_typed_def Engine_Snapshot_def Controller_Acquire_def Let_def same_versions_def)

fun overlay_log :: "action \<Rightarrow> Event list \<Rightarrow> ('c, 'g) Engine \<Rightarrow> Event list" where
  "overlay_log (Process now ev) es e = overlay_after now ev es e"
| "overlay_log (Force_Compact now) es e = (if Running e then [] else es)"
| "overlay_log (Reset_All now) es e = []"
| "overlay_log _ es e = es"

fun taken :: "action list \<Rightarrow> int" where
  "taken [] = 0"
| "taken (Take_Snapshot now # as) = 1 + taken as"
| "taken (_ # as) = taken as"

lemma typed_act:
  assumes "act x e = Some e'" and t: "engine_typed cfg k es e" and "acceptable cfg x"
  shows "engine_typed cfg (k + taken [x]) (overlay_log x es e) e'"
proof (cases x)
  case (Process now ev)
  with assms typed_processEvent [of now ev e e' cfg k es] show ?thesis by simp
next
  case (Force_Compact now)
  with assms show ?thesis by (auto simp: Engine_Compact_def bind_eq_Some_conv split: if_splits dest: typed_doCompact)
next
  case (Reset_All now)
  with assms typed_Reset [OF t] show ?thesis by auto
next
  case (Take_Snapshot now)
  with assms typed_Snapshot [OF t] show ?thesis by auto
next
  case (GC_Tick now)
  with assms typed_gc_tick [OF t] show ?thesis by auto
next
  case (Evict_Tick now)
  with assms typed_eviction [OF t] show ?thesis by auto
next
  case (Save_Base now)
  with assms typed_save [OF t] show ?thesis by auto
qed

lemma typed_new:
  assumes "newEngine now cal gpu cfg = Some e"
  shows "engine_typed cfg 0 [] e"
  using assms agrees_start overlay_laws(1) [OF agrees_start]
  by (auto simp: newEngine_def Let_def bind_eq_Some_conv engine_typed_def store_version_def Load_def Store_def zero_version_def histories_ok_def split: if_splits)


lemma typed_start: "engine_typed cfg k es (fst (Engine_Start now done0 e)) = engine_typed cfg k es e"
  "engine_sums g0 es (fst (Engine_Start now done0 e)) = engine_sums g0 es e"
  by (simp_all add: Engine_Start_def engine_typed_def engine_sums_def)

lemma suffix_overlay:
  assumes "\<exists>ys. es = ys @ es2" and "engine_typed cfg k es2 e"
  shows "\<exists>ys. snd (logged cfg x (g0, es)) = ys @ overlay_log x es2 e"
  using assms by (cases x) (auto simp: overlay_after_def Let_def engine_typed_def)

lemma typed_run:
  assumes "engine_sums (fst l) (snd l) e" and "engine_typed cfg k es2 e" and "\<exists>ys. snd l = ys @ es2"
    and "\<forall>x \<in> set xs. acceptable cfg x" and "safe_divergence cfg"
  shows "\<exists>e' es2'. ofold act xs e = Some e' \<and> engine_typed cfg (k + taken xs) es2' e' \<and>
    engine_sums (fst (fold (logged cfg) xs l)) (snd (fold (logged cfg) xs l)) e' \<and>
    (\<exists>ys. snd (fold (logged cfg) xs l) = ys @ es2') \<and> en_eventsTotal e' = en_eventsTotal e + processed xs"
  using assms(1-4)
proof (induction xs arbitrary: e l k es2)
  case Nil
  then show ?case by auto
next
  case (Cons x xs)
  have cfg: "en_config e = cfg" using Cons.prems(2) by (simp add: engine_typed_def)
  from act_sums [OF Cons.prems(1) cfg _ assms(5), of x] Cons.prems(4)
  obtain e1 where e1: "act x e = Some e1" "engine_sums (fst (logged cfg x l)) (snd (logged cfg x l)) e1"
    "en_eventsTotal e1 = en_eventsTotal e + processed [x]" by auto
  have t: "engine_typed cfg (k + taken [x]) (overlay_log x es2 e) e1" using typed_act [OF e1(1) Cons.prems(2)] Cons.prems(4) by simp
  have suf: "\<exists>ys. snd (logged cfg x l) = ys @ overlay_log x es2 e"
    using suffix_overlay [OF Cons.prems(3,2), of x "fst l"] by simp
  have "processed (x # xs) = processed [x] + processed xs" "taken (x # xs) = taken [x] + taken xs" by (cases x; simp)+
  with Cons.IH [OF e1(2) t suf] Cons.prems(4) e1(1,3) show ?case by (simp add: add.assoc)
qed

section \<open>What the numbers count\<close>

lemma layer_counts:
  assumes "ig_ok b" and "ig_ok ov"
  shows "int (IG_NodeCount ov) + int (IG_NodeCount b) =
      int (UV_NodeCount (NewUnifiedView b ov)) + int (card {u. IG_GetNode u b \<noteq> None \<and> IG_GetNode u ov \<noteq> None})"
    and "int (IG_EdgeCount ov) + int (IG_EdgeCount b) =
      int (UV_EdgeCount (NewUnifiedView b ov)) + int (card {(u, v). IG_GetEdge u v b \<noteq> None \<and> IG_GetEdge u v ov \<noteq> None})"
proof -
  have uv: "uv_ok (NewUnifiedView b ov)" using assms by (simp add: uv_ok_def NewUnifiedView_def)
  let ?N = "\<lambda>ig. {u. IG_GetNode u ig \<noteq> None}" and ?E = "\<lambda>ig. {(u, v). IG_GetEdge u v ig \<noteq> None}"
  have n: "IG_NodeCount ig = card (?N ig)" "finite (?N ig)" and m: "IG_EdgeCount ig = card (?E ig)" "finite (?E ig)" if "ig_ok ig" for ig
  proof -
    show "IG_NodeCount ig = card (?N ig)" using ig_view.NodeCount_card [OF that] by (simp add: immutable_view_def)
    show "IG_EdgeCount ig = card (?E ig)" using ig_view.EdgeCount_card [OF that] by (simp add: immutable_view_def)
    have "?N ig \<subseteq> n_ID ` set (ig_nodes ig)" using layer_laws(2) [OF that] by force
    then show "finite (?N ig)" by (rule finite_subset) simp
    have "?E ig \<subseteq> edge_ends ` set (ig_edges ig)" using layer_laws(4) [OF that] by force
    then show "finite (?E ig)" by (rule finite_subset) simp
  qed
  have "UV_NodeCount (NewUnifiedView b ov) = card (?N ov \<union> ?N b)"
    using uv_view.NodeCount_card [OF uv] by (simp add: unified_view_def UV_GetNode_present Un_def NewUnifiedView_def del: not_None_eq)
  moreover have "{u. IG_GetNode u b \<noteq> None \<and> IG_GetNode u ov \<noteq> None} = ?N ov \<inter> ?N b" by auto
  ultimately show "int (IG_NodeCount ov) + int (IG_NodeCount b) =
      int (UV_NodeCount (NewUnifiedView b ov)) + int (card {u. IG_GetNode u b \<noteq> None \<and> IG_GetNode u ov \<noteq> None})"
    using card_Un_Int [OF n(2) n(2), OF assms(2,1)] by (simp add: n(1) assms del: not_None_eq)
  have "UV_EdgeCount (NewUnifiedView b ov) = card {(u, v). UV_GetEdge u v (NewUnifiedView b ov) \<noteq> None}"
    using uv_view.EdgeCount_card [OF uv] by (simp add: unified_view_def)
  also have "{(u, v). UV_GetEdge u v (NewUnifiedView b ov) \<noteq> None} = ?E ov \<union> ?E b"
    by (auto simp: UV_GetEdge_present NewUnifiedView_def simp del: not_None_eq)
  finally have "UV_EdgeCount (NewUnifiedView b ov) = card (?E ov \<union> ?E b)" .
  moreover have "{(u, v). IG_GetEdge u v b \<noteq> None \<and> IG_GetEdge u v ov \<noteq> None} = ?E ov \<inter> ?E b" by auto
  ultimately show "int (IG_EdgeCount ov) + int (IG_EdgeCount b) =
      int (UV_EdgeCount (NewUnifiedView b ov)) + int (card {(u, v). IG_GetEdge u v b \<noteq> None \<and> IG_GetEdge u v ov \<noteq> None})"
    using card_Un_Int [OF m(2) m(2), OF assms(2,1)] by (simp add: m(1) assms del: not_None_eq)
qed

section \<open>Property\<close>

text \<open>
  C33. The engine's state stays well typed and its statistics count what happened. From a new and
  started engine over a well-formed base, no sequence of processed events, forced or automatic
  compactions, resets, snapshots, sweeps, evictions and saves panics, and after it: the current version
  is the last one stored; the version at each address carries the address as its number and a well-formed graph;
  the overlay sums up the last events of the log and their number is the overlay counter; every ring
  buffer is one of the configured capacity; the cache exists exactly when it is
  enabled. \<open>Stats\<close> then reports the events processed, those in the overlay and the snapshots taken (none is closed here);
  but its numbers of nodes and edges are those of the unified view plus those that are in both layers.
\<close>

lemma engine_state_typed:
  assumes new: "newEngine t0 cal gpu cfg = Some e00" "ig_ok (en_base e00)" and start: "Engine_Start t1 parent e00 = (e0, r)"
    and acc: "\<forall>x \<in> set xs. acceptable cfg x" and safe: "safe_divergence cfg"
  shows "\<exists>e es es2 g0. ofold act xs e0 = Some e \<and> fold (logged cfg) xs (en_base e00, []) = (g0, es) \<and>
    (\<exists>es1. es = es1 @ es2) \<and> engine_typed cfg (taken xs) es2 e \<and> ig_ok (en_base e) \<and>
    es_EventsTotal (Engine_Stats now e) = processed xs \<and> es_OverlayEvents (Engine_Stats now e) = int (length es2) \<and>
    es_SnapshotsActive (Engine_Stats now e) = taken xs \<and> es_VersionsTotal (Engine_Stats now e) = of_nat (en_alloc e - 1) \<and>
    (let ov = v_Graph (en_heap e (en_alloc e - 1)); view = NewUnifiedView (en_base e) ov
     in es_Nodes (Engine_Stats now e) =
          int (UV_NodeCount view) + int (card {u. IG_GetNode u (en_base e) \<noteq> None \<and> IG_GetNode u ov \<noteq> None}) \<and>
        es_Edges (Engine_Stats now e) =
          int (UV_EdgeCount view) + int (card {(u, v). IG_GetEdge u v (en_base e) \<noteq> None \<and> IG_GetEdge u v ov \<noteq> None}))"
proof -
  note sums = newEngine_sums [OF new]
  from start have e0: "e0 = fst (Engine_Start t1 parent e00)" by simp
  have init: "engine_sums (en_base e00) [] e0" "engine_typed cfg 0 [] e0" "en_eventsTotal e0 = 0"
    using sums typed_new [OF new(1)] unfolding e0 typed_start by (simp_all add: Engine_Start_def)
  from typed_run [of "(en_base e00, [])" e0 cfg 0 "[]" xs] init acc safe
  obtain e es2 where e: "ofold act xs e0 = Some e" "engine_typed cfg (taken xs) es2 e"
    "engine_sums (fst (fold (logged cfg) xs (en_base e00, []))) (snd (fold (logged cfg) xs (en_base e00, []))) e"
    "\<exists>ys. snd (fold (logged cfg) xs (en_base e00, [])) = ys @ es2" "en_eventsTotal e = processed xs" by auto
  obtain g0 es where l: "fold (logged cfg) xs (en_base e00, []) = (g0, es)" by fastforce
  define ov where "ov = v_Graph (en_heap e (en_alloc e - 1))"
  have base: "ig_ok (en_base e)" using e(3) by (auto simp: engine_sums_def base_agrees_def)
  have ov: "ig_ok ov" "Load (en_vc e) = Some (en_alloc e - 1)" using e(2) by (auto simp: engine_typed_def ov_def)
  have stats: "es_EventsTotal (Engine_Stats now e) = processed xs" "es_OverlayEvents (Engine_Stats now e) = int (length es2)"
    "es_SnapshotsActive (Engine_Stats now e) = taken xs" "es_VersionsTotal (Engine_Stats now e) = of_nat (en_alloc e - 1)"
    "es_Nodes (Engine_Stats now e) = int (IG_NodeCount ov) + int (IG_NodeCount (en_base e))"
    "es_Edges (Engine_Stats now e) = int (IG_EdgeCount ov) + int (IG_EdgeCount (en_base e))"
    using e(2,5) ov(2) by (simp_all add: Engine_Stats_def Let_def engine_typed_def ov_def)
  show ?thesis unfolding Let_def
    using e(1,2,4) l base stats layer_counts [OF base ov(1)] by (intro exI [of _ e] exI [of _ es] exI [of _ es2] exI [of _ g0]) (simp add: ov_def)
qed


lemma engine_state_typed_witness:
  "\<exists>(e00 :: (unit, unit) Engine) e es2. newEngine 0 () () eager_config = Some e00 \<and>
     ofold act [Process 2 (Normalize 1 sample_event), Take_Snapshot 3, Force_Compact 4, Take_Snapshot 5] (fst (Engine_Start 1 False e00)) = Some e \<and>
     engine_typed eager_config 2 es2 e \<and> es_EventsTotal (Engine_Stats 6 e) = 1 \<and> es_SnapshotsActive (Engine_Stats 6 e) = 2"
proof -
  let ?xs = "[Process 2 (Normalize 1 sample_event), Take_Snapshot 3, Force_Compact 4, Take_Snapshot 5]"
  obtain e00 :: "(unit, unit) Engine" where e00: "newEngine 0 () () eager_config = Some e00" "ig_ok (en_base e00)" using eager_engine(1) by blast
  obtain e0 r where start: "Engine_Start 1 False e00 = (e0, r)" by fastforce
  have "\<forall>x \<in> set ?xs. acceptable eager_config x" using eager_engine(5) by simp
  from engine_state_typed [OF e00 start this eager_engine(4), where now = 6] e00(1) start show ?thesis by auto
qed


end
