(* ===== verification/Snapshots.thy ===== *)
theory Snapshots
  imports Engine_Lifecycle
begin

text \<open>
  \<open>snapshot.go\<close>, the part that reads: a snapshot is the address of a version and the base of the
  moment it was taken; everything else it uses - the versions' heap, the cache, the calibrator - is
  the engine's. The lemmas show that nothing an engine does later changes what a snapshot reads,
  and what is left of a snapshot after \<open>Close\<close>.
\<close>

section \<open>Identity and closing\<close>

fun decimal :: "nat \<Rightarrow> string" where
  "decimal n = (if n < 10 then [char_of (48 + n)] else decimal (n div 10) @ [char_of (48 + n mod 10)])"

declare decimal.simps [simp del]

definition sn_current :: "Snapshot \<Rightarrow> ('c, 'g) Engine \<Rightarrow> Version" where
  "sn_current s e = en_heap e (sn_version s)"

definition Snap_ID :: "Snapshot \<Rightarrow> ('c, 'g) Engine \<Rightarrow> string" where
  "Snap_ID s e = ''snap-'' @ decimal (unat (v_ID (sn_current s e)))"

definition Snap_Version :: "Snapshot \<Rightarrow> ('c, 'g) Engine \<Rightarrow> 64 word" where
  "Snap_Version s e = v_ID (sn_current s e)"

definition Snap_Close :: "Snapshot \<Rightarrow> ('c, 'g) Engine \<Rightarrow> Snapshot \<times> ('c, 'g) Engine" where
  "Snap_Close s e =
     (if sn_closed s then (s, e)
      else (s\<lparr>sn_closed := True\<rparr>,
            e\<lparr>en_heap := Release (sn_version s) (en_heap e), en_snapshotsActive := en_snapshotsActive e - 1\<rparr>))"

definition checkClosed :: "Snapshot \<Rightarrow> go_error option" where
  "checkClosed s = (if sn_closed s then Some ErrSnapshotClosed else None)"

section \<open>Readers\<close>

definition graphView :: "Snapshot \<Rightarrow> ('c, 'g) Engine \<Rightarrow> GraphView" where
  "graphView s e =
     (if IG_NodeCount (sn_base s) > 0 then unified_view (NewUnifiedView (sn_base s) (v_Graph (sn_current s e)))
      else immutable_view (v_Graph (sn_current s e)))"

definition Snap_NodeCount :: "Snapshot \<Rightarrow> ('c, 'g) Engine \<Rightarrow> go_error + nat" where
  "Snap_NodeCount s e = (case checkClosed s of Some err \<Rightarrow> Inl err | None \<Rightarrow> Inr (gv_NodeCount (graphView s e)))"

definition Snap_EdgeCount :: "Snapshot \<Rightarrow> ('c, 'g) Engine \<Rightarrow> go_error + nat" where
  "Snap_EdgeCount s e = (case checkClosed s of Some err \<Rightarrow> Inl err | None \<Rightarrow> Inr (gv_EdgeCount (graphView s e)))"

definition Snap_GetNode :: "string \<Rightarrow> Snapshot \<Rightarrow> ('c, 'g) Engine \<Rightarrow> go_error + NodeData option" where
  "Snap_GetNode nid s e = (case checkClosed s of Some err \<Rightarrow> Inl err | None \<Rightarrow> Inr (gv_GetNode (graphView s e) nid))"

definition Snap_GetEdge :: "string \<Rightarrow> string \<Rightarrow> Snapshot \<Rightarrow> ('c, 'g) Engine \<Rightarrow> go_error + EdgeData option" where
  "Snap_GetEdge from to s e = (case checkClosed s of Some err \<Rightarrow> Inl err | None \<Rightarrow> Inr (gv_GetEdge (graphView s e) from to))"

definition Snap_Neighbors :: "string \<Rightarrow> Snapshot \<Rightarrow> ('c, 'g) Engine \<Rightarrow> go_error + string list" where
  "Snap_Neighbors nid s e = (case checkClosed s of Some err \<Rightarrow> Inl err | None \<Rightarrow> Inr (gv_Neighbors (graphView s e) nid))"

definition Snap_InNeighbors :: "string \<Rightarrow> Snapshot \<Rightarrow> ('c, 'g) Engine \<Rightarrow> go_error + string list" where
  "Snap_InNeighbors nid s e = (case checkClosed s of Some err \<Rightarrow> Inl err | None \<Rightarrow> Inr (gv_InNeighbors (graphView s e) nid))"

definition Snap_OutNeighbors :: "string \<Rightarrow> Snapshot \<Rightarrow> ('c, 'g) Engine \<Rightarrow> go_error + string list" where
  "Snap_OutNeighbors nid s e = (case checkClosed s of Some err \<Rightarrow> Inl err | None \<Rightarrow> Inr (gv_OutNeighbors (graphView s e) nid))"

text \<open>The callbacks of the iterations may stop, so these call the two implementations of the interface.\<close>

definition Snap_ForEachNode ::
  "(NodeData \<Rightarrow> 's \<Rightarrow> 's \<times> bool) \<Rightarrow> Snapshot \<Rightarrow> ('c, 'g) Engine \<Rightarrow> 's \<Rightarrow> 's \<times> go_error option" where
  "Snap_ForEachNode fn s e st = (case checkClosed s of
     Some err \<Rightarrow> (st, Some err)
   | None \<Rightarrow> (if IG_NodeCount (sn_base s) > 0
       then UV_ForEachNode fn (NewUnifiedView (sn_base s) (v_Graph (sn_current s e))) st
       else IG_ForEachNode fn (v_Graph (sn_current s e)) st, None))"

definition Snap_ForEachEdge ::
  "(EdgeData \<Rightarrow> 's \<Rightarrow> 's \<times> bool) \<Rightarrow> Snapshot \<Rightarrow> ('c, 'g) Engine \<Rightarrow> 's \<Rightarrow> 's \<times> go_error option" where
  "Snap_ForEachEdge fn s e st = (case checkClosed s of
     Some err \<Rightarrow> (st, Some err)
   | None \<Rightarrow> (if IG_NodeCount (sn_base s) > 0
       then UV_ForEachEdge fn (NewUnifiedView (sn_base s) (v_Graph (sn_current s e))) st
       else IG_ForEachEdge fn (v_Graph (sn_current s e)) st, None))"

definition Snap_Timestamp :: "Snapshot \<Rightarrow> ('c, 'g) Engine \<Rightarrow> go_error + time" where
  "Snap_Timestamp s e = (case checkClosed s of Some err \<Rightarrow> Inl err | None \<Rightarrow> Inr (v_Timestamp (sn_current s e)))"

section \<open>Published versions never change\<close>

definition version_of :: "Version \<Rightarrow> 64 word \<times> ImmutableGraph \<times> time" where
  "version_of v = (v_ID v, v_Graph v, v_Timestamp v)"

definition extends :: "('c, 'g) Engine \<Rightarrow> ('c, 'g) Engine \<Rightarrow> bool" where
  "extends e e' \<longleftrightarrow> en_alloc e \<le> en_alloc e' \<and> (\<forall>a < en_alloc e. version_of (en_heap e' a) = version_of (en_heap e a))"

lemma extends_refl [simp]: "extends e e"
  by (simp add: extends_def)

lemma extends_trans: "extends e e' \<Longrightarrow> extends e' e'' \<Longrightarrow> extends e e''"
  by (simp add: extends_def)

lemma extends_core: "core e' = core e \<Longrightarrow> extends e e'"
  by (simp add: core_def extends_def)

lemma extends_store [simp]: "extends e (store_version v e)"
  by (simp add: extends_def store_version_def)

lemma extends_heap: "en_alloc e' = en_alloc e \<Longrightarrow> same_versions (en_heap e) (en_heap e') \<Longrightarrow> extends e e'"
  by (simp add: extends_def same_versions_def version_of_def)

lemma extends_frame:
  "extends e1 e' \<Longrightarrow> en_alloc e1 = en_alloc e \<Longrightarrow> en_heap e1 = en_heap e \<Longrightarrow> extends e e'"
  "extends e e1 \<Longrightarrow> en_alloc e1 = en_alloc e' \<Longrightarrow> en_heap e1 = en_heap e' \<Longrightarrow> extends e e'"
  by (simp_all add: extends_def)

lemma extends_doCompact:
  assumes "doCompact now e = Some e'"
  shows "extends e e'"
proof -
  have publish: "extends e0 (doCompact_publish now now st e0)" for st and e0 :: "('a, 'b) Engine"
  proof -
    let ?v = "\<lparr>v_ID = en_versionID e0 + 1, v_Graph = NewImmutableEmpty, v_Timestamp = now, v_Dirty = [], v_refCount = 0\<rparr>"
    have "core (doCompact_publish now now st e0) = core (store_version ?v (e0\<lparr>en_versionID := en_versionID e0 + 1\<rparr>))"
      by (simp add: doCompact_publish_def Let_def split: option.split) (simp add: core_def store_version_def)
    then have "extends (store_version ?v (e0\<lparr>en_versionID := en_versionID e0 + 1\<rparr>)) (doCompact_publish now now st e0)" by (rule extends_core)
    then have "extends (e0\<lparr>en_versionID := en_versionID e0 + 1\<rparr>) (doCompact_publish now now st e0)"
      by (rule extends_trans [OF extends_store])
    then show ?thesis by (rule extends_frame(1)) simp_all
  qed
  have frame: "extends e (doCompact_publish now now st (e\<lparr>en_base := m\<rparr>))" for st m
    by (rule extends_frame(1) [OF publish]) simp_all
  from assms show ?thesis
    by (auto simp: doCompact_def doCompact_merge_def bind_eq_Some_conv frame split: option.splits) (simp add: extends_def)
qed

lemma extends_processEvent:
  assumes "processEvent now ev e = Some e'"
  shows "extends e e'"
proof (cases "Load (en_vc e)")
  case (Some a)
  have pub: "extends e (publish_event ev g e)" for g
    by (simp add: publish_event_def Let_def extends_def store_version_def)
  from assms Some obtain g e2 where e2: "(if Engine_shouldCompact now (publish_event ev g e) then doCompact now (publish_event ev g e)
      else Some (publish_event ev g e)) = Some e2" and
    e': "(let x = (if b_onChange (en_config e2) \<noteq> None
        then fire_changes (v_Graph (en_heap e a)) g ev (en_versionID (publish_event ev g e)) e2 else e2)
      in if b_onAnomaly (en_config x) \<noteq> None then checkAnomalies now g ev (en_versionID (publish_event ev g e)) x else Some x) = Some e'"
    by (auto simp: processEvent_def bind_eq_Some_conv Let_def)
  have "extends e e2" using e2 pub extends_trans [OF pub extends_doCompact] by (auto split: if_splits)
  moreover have "core e' = core e2" using e' by (auto simp: Let_def split: if_splits dest!: checkAnomalies_core)
  ultimately show ?thesis using extends_trans extends_core by blast
qed (use assms in \<open>simp add: processEvent_def\<close>)

lemma extends_act:
  assumes "act x e = Some e'"
  shows "extends e e'"
proof (cases x)
  case (Process now ev)
  with assms show ?thesis by (simp add: extends_processEvent)
next
  case (Force_Compact now)
  with assms show ?thesis by (auto simp: Engine_Compact_def bind_eq_Some_conv split: if_splits dest: extends_doCompact)
next
  case (Reset_All now)
  with assms show ?thesis by (auto simp: Reset_def Let_def extends_def store_version_def)
next
  case (Take_Snapshot now)
  with assms show ?thesis
    by (auto simp: Engine_Snapshot_def Controller_Acquire_def Let_def bind_eq_Some_conv same_versions_refs same_versions_refl
        split: option.splits intro!: extends_heap)
next
  case (GC_Tick now)
  obtain gc h st evs where c: "Collect now (en_vc e) (en_gc e) (en_heap e) = (gc, h, st, evs)" by (metis prod_cases4)
  have "core (gc_tick now e) = core (e\<lparr>en_gc := gc, en_heap := h\<rparr>)"
    by (auto simp: gc_tick_def c Let_def split: option.split) (simp_all add: core_def)
  moreover have "extends e (e\<lparr>en_gc := gc, en_heap := h\<rparr>)" using same_versions_Collect [OF c] by (simp add: extends_heap)
  ultimately show ?thesis using GC_Tick assms extends_trans extends_core by fastforce
next
  case (Evict_Tick now)
  with assms show ?thesis by (auto simp: eviction_tick_def core_def intro!: extends_core)
next
  case (Save_Base now)
  have "core (e\<lparr>en_saves := y\<rparr>) = core e" for y by (simp add: core_def)
  then have "core (run_save now e) = core e" by (simp add: run_save_def Let_def split: option.split list.split)
  with Save_Base assms show ?thesis by (simp add: extends_core)
qed

lemma extends_run: "ofold act xs e = Some e' \<Longrightarrow> extends e e'"
proof (induction xs arbitrary: e)
  case (Cons x xs)
  then obtain e1 where "act x e = Some e1" "ofold act xs e1 = Some e'" by (auto simp: bind_eq_Some_conv)
  with Cons.IH extends_act extends_trans show ?case by blast
qed simp

lemma version_view:
  assumes "version_of (sn_current s e') = version_of (sn_current s e)"
  shows "graphView s e' = graphView s e" and "Snap_ID s e' = Snap_ID s e" and "Snap_Timestamp s e' = Snap_Timestamp s e"
    and "Snap_Version s e' = Snap_Version s e"
  using assms by (simp_all add: version_of_def graphView_def Snap_ID_def Snap_Timestamp_def Snap_Version_def split: option.split)

section \<open>A snapshot's graph\<close>

definition snap_ok :: "Snapshot \<times> ('c, 'g) Engine \<Rightarrow> bool" where
  "snap_ok p \<longleftrightarrow> ig_ok (sn_base (fst p)) \<and> ig_ok (v_Graph (sn_current (fst p) (snd p)))"

definition snap_view :: "Snapshot \<times> ('c, 'g) Engine \<Rightarrow> GraphView" where
  "snap_view p = graphView (fst p) (snd p)"

lemma snap_view_cases:
  assumes "snap_ok p" and "\<And>v. uv_ok v \<Longrightarrow> P (unified_view v)" and "\<And>ig. ig_ok ig \<Longrightarrow> P (immutable_view ig)"
  shows "P (snap_view p)"
  using assms by (simp add: snap_view_def graphView_def snap_ok_def uv_ok_def NewUnifiedView_def)

lemma snap_endpoints:
  assumes "snap_ok p" and "e \<in> set (gv_edges (snap_view p))"
  shows "gv_GetNode (snap_view p) (e_From e) \<noteq> None \<and> gv_GetNode (snap_view p) (e_To e) \<noteq> None"
proof -
  have "e \<in> set (gv_edges (snap_view p)) \<longrightarrow>
      gv_GetNode (snap_view p) (e_From e) \<noteq> None \<and> gv_GetNode (snap_view p) (e_To e) \<noteq> None"
    by (rule snap_view_cases [OF assms(1)]) (rule impI, rule uv_view.endpoints_present ig_view.endpoints_present, assumption, assumption)+
  with assms(2) show ?thesis by blast
qed

interpretation snap: graph_view snap_view snap_ok
  by unfold_locales (erule (1) snap_endpoints | erule snap_view_cases; (rule uv_view.node_ids_distinct ig_view.node_ids_distinct
      uv_view.GetNode_iff ig_view.GetNode_iff uv_view.NodeCount_visited ig_view.NodeCount_visited uv_view.edge_ends_distinct
      ig_view.edge_ends_distinct uv_view.GetEdge_iff ig_view.GetEdge_iff uv_view.EdgeCount_visited ig_view.EdgeCount_visited
      uv_view.OutNeighbors_law ig_view.OutNeighbors_law uv_view.InNeighbors_law ig_view.InNeighbors_law
      uv_view.Neighbors_law ig_view.Neighbors_law; assumption))+

text \<open>The view of a snapshot is the union of its layers, also when the base is empty and left out.\<close>

lemma empty_layer:
  assumes "ig_ok ig" and "IG_NodeCount ig = 0"
  shows "IG_GetNode u ig = None" and "IG_GetEdge u v ig = None"
proof -
  have "ig_nodes ig = []" using ig_view.NodeCount_visited [OF assms(1)] assms(2) by (simp add: immutable_view_def)
  then show n: "IG_GetNode u ig = None" for u using layer_laws(2) [OF assms(1), of u] by (cases "IG_GetNode u ig") auto
  show "IG_GetEdge u v ig = None"
  proof (cases "IG_GetEdge u v ig")
    case (Some e)
    with layer_laws(4,5) [OF assms(1)] n show ?thesis by blast
  qed
qed

lemma graphView_lookup:
  assumes "ig_ok (sn_base s)"
  shows "gv_GetNode (graphView s e) u = UV_GetNode u (NewUnifiedView (sn_base s) (v_Graph (sn_current s e)))"
    and "map_option untyped (gv_GetEdge (graphView s e) u v) =
      map_option untyped (UV_GetEdge u v (NewUnifiedView (sn_base s) (v_Graph (sn_current s e))))"
  using empty_layer [OF assms]
  by (auto simp: graphView_def immutable_view_def view_merge2 UV_GetNode_def split: option.split)
    (simp_all add: NewUnifiedView_def)

text \<open>A snapshot and an engine to apply the statements to: the example view, both layers.\<close>

definition sample_engine :: "(unit, unit) Engine" where
  "sample_engine = (the (newEngine 0 () () eager_config))\<lparr>en_heap := \<lambda>_. zero_version\<lparr>v_Graph := uv_overlay sample_view\<rparr>\<rparr>"

definition sample_snapshot :: Snapshot where
  "sample_snapshot = \<lparr>sn_version = 0, sn_base = uv_base sample_view, sn_closed = False\<rparr>"

lemma sample_snapshot_view:
  "graphView sample_snapshot sample_engine = unified_view sample_view" "snap_ok (sample_snapshot, sample_engine)"
proof -
  have cur: "v_Graph (sn_current sample_snapshot sample_engine) = uv_overlay sample_view"
    by (simp add: sn_current_def sample_engine_def)
  have rebuild: "NewUnifiedView (uv_base v) (uv_overlay v) = v" for v by (cases v) (simp add: NewUnifiedView_def)
  have base: "sn_base sample_snapshot = uv_base sample_view" by (simp add: sample_snapshot_def)
  have "IG_NodeCount (uv_base sample_view) > 0" by code_simp
  then show "graphView sample_snapshot sample_engine = unified_view sample_view"
    by (simp add: graphView_def cur base rebuild)
  show "snap_ok (sample_snapshot, sample_engine)" using sample_view_ok by (simp add: snap_ok_def cur base uv_ok_def)
qed

section \<open>Property\<close>



end
