(* ===== verification/Snapshot_Analysis.thy ===== *)
theory Snapshot_Analysis
  imports Snapshots Curvature Concealment Detectability Temporal Fiedler_Approx
begin

text \<open>
  \<open>snapshot.go\<close>, the analyses: of all nodes, of one node, of a region, with the results cache in
  front. They run under the snapshot's lock and change the engine's shared objects: cache,
  calibrator and GPU backend. \<open>None\<close> is a panic, errors are \<open>Inl\<close>. A call reads the clock once, its
  argument \<open>now\<close>. The order in which the parallel workers store their tensions is the argument
  \<open>stores\<close>, as for \<open>CalculateAllParallel\<close>. The results point to no shared memory.
\<close>

section \<open>Cache\<close>

definition cache_key :: "Snapshot \<Rightarrow> ('c, 'g) Engine \<Rightarrow> string \<Rightarrow> string \<Rightarrow> CacheKey" where
  "cache_key s e qt args = \<lparr>VersionID = v_ID (sn_current s e), QueryType = qt, QueryArgs = args\<rparr>"

definition cache_get :: "time \<Rightarrow> CacheKey \<Rightarrow> ('c, 'g) Engine \<Rightarrow> ('c, 'g) Engine \<times> cached option" where
  "cache_get now key e = (case en_ResultsCache e of
     None \<Rightarrow> (e, None)
   | Some c \<Rightarrow> (let (r, c') = Get now key c in (e\<lparr>en_ResultsCache := Some c'\<rparr>, r)))"

definition cache_set :: "time \<Rightarrow> CacheKey \<Rightarrow> cached \<Rightarrow> ('c, 'g) Engine \<Rightarrow> ('c, 'g) Engine" where
  "cache_set now key r e = e\<lparr>en_ResultsCache := map_option (Set now key r) (en_ResultsCache e)\<rparr>"

section \<open>Parts of an analysis\<close>

text \<open>\<open>parallelWorkers\<close> only bounds the chunks, and with them the possible \<open>stores\<close>.\<close>

definition computeTensions ::
  "int \<Rightarrow> string list \<Rightarrow> GraphView \<Rightarrow> ('c, 'g) Engine \<Rightarrow> (('c, 'g) Engine \<times> (string, real) gomap) option" where
  "computeTensions numCPU stores gv e =
     (let cpu = (\<lambda>e. do { m \<leftarrow> CalculateAllParallel numCPU stores (getDivergence (en_config e)) gv; Some (e, m) })
      in case b_gpuBackend (en_config e) of
           None \<Rightarrow> cpu e
         | Some ops \<Rightarrow>
             (if bk_Available ops (en_gpu e) \<and> b_gpuThreshold (en_config e) > 0 \<and>
                 int (gv_NodeCount gv) \<ge> b_gpuThreshold (en_config e)
              then do {
                (g, r) \<leftarrow> bk_AnalyzeTensions ops gv (en_gpu e);
                (case r of Inr tensions \<Rightarrow> Some (e\<lparr>en_gpu := g\<rparr>, tensions) | Inl err \<Rightarrow> cpu (e\<lparr>en_gpu := g\<rparr>))
              }
              else cpu e))"

definition edge_curvature :: "('c, 'g) Builder \<Rightarrow> GraphView \<Rightarrow> string \<Rightarrow> string \<Rightarrow> real option" where
  "edge_curvature cfg gv from to = (case b_curvature cfg of
     Some f \<Rightarrow> Some (f (graphViewAdapter gv) from to)
   | None \<Rightarrow> Curvature_Calculate (NewCurvatureCalculator (b_curvatureAlpha cfg)) gv from to)"

definition with_curvature :: "('c, 'g) Builder \<Rightarrow> bool" where
  "with_curvature cfg \<longleftrightarrow> b_curvature cfg \<noteq> None \<or> b_curvatureAlpha cfg > 0"

text \<open>The mean over the outgoing and then the incoming edges of a node.\<close>

definition incident_curvature :: "('c, 'g) Builder \<Rightarrow> GraphView \<Rightarrow> string \<Rightarrow> real option" where
  "incident_curvature cfg gv nid =
     (if \<not> with_curvature cfg then Some 0
      else do {
        (s, cnt) \<leftarrow> ofold (\<lambda>nb (s, cnt). do { c \<leftarrow> edge_curvature cfg gv nid nb; Some (s + c, cnt + 1) }) (gv_OutNeighbors gv nid) (0, 0 :: int);
        (s, cnt) \<leftarrow> ofold (\<lambda>nb (s, cnt). do { c \<leftarrow> edge_curvature cfg gv nb nid; Some (s + c, cnt + 1) }) (gv_InNeighbors gv nid) (s, cnt);
        Some (if cnt > 0 then s / real_of_int cnt else 0)
      })"

text \<open>The map of all edge curvatures that \<open>Analyze\<close> builds first, and the mean it takes for a node.\<close>

definition all_curvatures :: "('c, 'g) Builder \<Rightarrow> GraphView \<Rightarrow> (string \<times> string, real) gomap option option" where
  "all_curvatures cfg gv = (case b_curvature cfg of
     Some f \<Rightarrow> Some (Some (fold (\<lambda>ed. AList.update (e_From ed, e_To ed) (f (graphViewAdapter gv) (e_From ed) (e_To ed))) (gv_edges gv) []))
   | None \<Rightarrow> (if b_curvatureAlpha cfg > 0
       then map_option Some (Curvature_CalculateAll (NewCurvatureCalculator (b_curvatureAlpha cfg)) gv) else Some None))"

definition node_curvature :: "(string \<times> string, real) gomap option \<Rightarrow> string \<Rightarrow> real" where
  "node_curvature curvatures nid = (case curvatures of
     None \<Rightarrow> 0
   | Some m \<Rightarrow>
       (let (s, cnt) = fold (\<lambda>((from, to), c) (s, cnt). if from = nid \<or> to = nid then (s + c, cnt + 1) else (s, cnt)) m (0, 0 :: int)
        in if cnt > 0 then s / real_of_int cnt else 0))"

definition node_concealment :: "('c, 'g) Builder \<Rightarrow> GraphView \<Rightarrow> string \<Rightarrow> real option" where
  "node_concealment cfg gv nid =
     (if b_concealmentLambda cfg > 0
      then CalculateNode (NewConcealmentCalculator (b_concealmentLambda cfg) (getDivergence cfg)) gv nid (b_concealmentHops cfg)
      else Some 0)"

definition tension_result :: "string \<Rightarrow> real \<Rightarrow> int \<Rightarrow> real \<Rightarrow> bool \<Rightarrow> real \<Rightarrow> TensionResult" where
  "tension_result nid t degree curv anomaly conc =
     \<lparr>tr_NodeID = nid, tr_Tension = t, tr_Degree = degree, tr_Curvature = curv, tr_Anomaly = anomaly,
      tr_Confidence = confidence_of degree, tr_Concealment = conc, tr_Trend = TrendStable,
      tr_Components = [(''tension'', t), (''curvature'', curv), (''concealment'', conc)]\<rparr>"

definition det_alpha :: "('c, 'g) Builder \<Rightarrow> real" where
  "det_alpha cfg = (if b_detectabilityAlpha cfg > 0 then b_detectabilityAlpha cfg else 5 / 100)"

definition detectability_result :: "real list \<Rightarrow> real \<Rightarrow> DetectabilityResult" where
  "detectability_result tensionValues detAlpha =
     (let det = Detectability tensionValues detAlpha
      in \<lparr>dr_SNR = da_SNR det, dr_Threshold = da_Threshold det, dr_Region = region_int (da_Region det), dr_Alpha = da_Alpha det\<rparr>)"

definition computeResultStats :: "real list \<Rightarrow> int \<Rightarrow> ResultStats" where
  "computeResultStats values anomalyCount =
     (let n = length values in
      if n = 0 then \<lparr>rs_NodesAnalyzed = 0, rs_MeanTension = 0, rs_MedianTension = 0, rs_MaxTension = 0, rs_StdDevTension = 0,
        rs_AnomalyCount = 0, rs_AnomalyRate = 0\<rparr>
      else
        let total = fold (\<lambda>v s. s + v) values 0;
            maxVal = fold (\<lambda>v m. if v > m then v else m) values 0;
            mean = total / real n;
            varSum = fold (\<lambda>v s. let d = v - mean in s + d * d) values 0;
            sorted = sort values;
            median = (if n mod 2 = 0 then (sorted ! (n div 2 - 1) + sorted ! (n div 2)) / 2 else sorted ! (n div 2))
        in \<lparr>rs_NodesAnalyzed = int n, rs_MeanTension = mean, rs_MedianTension = median, rs_MaxTension = maxVal,
            rs_StdDevTension = sqrt (varSum / real n), rs_AnomalyCount = anomalyCount,
            rs_AnomalyRate = real_of_int anomalyCount / real n\<rparr>)"

section \<open>One node\<close>

definition AnalyzeNode :: "time \<Rightarrow> string \<Rightarrow> Snapshot \<Rightarrow> ('c, 'g) Engine \<Rightarrow> (('c, 'g) Engine \<times> (go_error + TensionResult)) option" where
  "AnalyzeNode now nid s e = (case checkClosed s of
     Some err \<Rightarrow> Some (e, Inl err)
   | None \<Rightarrow>
       (let key = cache_key s e ''node_analysis'' nid; (e, hit) = cache_get now key e; gv = graphView s e; cfg = en_config e
        in case hit of
          Some (Node_Analysis r) \<Rightarrow> Some (e, Inr r)
        | _ \<Rightarrow> (case gv_GetNode gv nid of
            None \<Rightarrow> Some (e, Inl ErrNodeNotFound)
          | Some n \<Rightarrow> do {
              t \<leftarrow> Calculate (getDivergence cfg) gv nid;
              let e = observe_tension now t e;
              curv \<leftarrow> incident_curvature cfg gv nid;
              let anomaly = isAnomaly cfg (en_calibrator e) n t;
              conc \<leftarrow> node_concealment cfg gv nid;
              let r = tension_result nid t (n_Degree n) curv anomaly conc;
              Some (cache_set now key (Node_Analysis r) e, Inr r)
            })))"

section \<open>A region\<close>

text \<open>\<open>strings.Join(sortedIDs, ",")\<close>\<close>

fun join :: "string list \<Rightarrow> string" where
  "join [] = []"
| "join [x] = x"
| "join (x # y # xs) = x @ '','' @ join (y # xs)"

definition region_key :: "string list \<Rightarrow> string" where
  "region_key nodeIDs = join (sort nodeIDs)"

definition region_node :: "time \<Rightarrow> GraphView \<Rightarrow> string \<Rightarrow> ('c, 'g) Engine \<times> TensionResult list \<times> real list \<times> int \<Rightarrow>
    (('c, 'g) Engine \<times> TensionResult list \<times> real list \<times> int) option" where
  "region_node now gv nid = (\<lambda>(e, nodes, values, anomalyCount). case gv_GetNode gv nid of
     None \<Rightarrow> Some (e, nodes, values, anomalyCount)
   | Some n \<Rightarrow> do {
       let cfg = en_config e;
       t \<leftarrow> Calculate (getDivergence cfg) gv nid;
       let e = observe_tension now t e;
       curv \<leftarrow> incident_curvature cfg gv nid;
       let anomaly = isAnomaly cfg (en_calibrator e) n t;
       conc \<leftarrow> node_concealment cfg gv nid;
       Some (e, nodes @ [tension_result nid t (n_Degree n) curv anomaly conc], values @ [t],
         if anomaly then anomalyCount + 1 else anomalyCount)
     })"

definition region_result :: "('c, 'g) Builder \<Rightarrow> TensionResult list \<Rightarrow> real list \<Rightarrow> int \<Rightarrow> RegionResult" where
  "region_result cfg nodes values anomalyCount =
     (let (mean, maxVal) = (if length values > 0
            then (fold (\<lambda>v s. s + v) values 0 / real (length values), fold (\<lambda>v m. if v > m then v else m) values 0) else (0, 0));
          totalConcealment = fold (\<lambda>tr s. s + tr_Concealment tr) nodes 0
      in \<lparr>rr_Nodes = nodes, rr_MeanTension = mean, rr_MaxTension = maxVal, rr_AnomalyCount = anomalyCount,
          rr_Aggregated = (case b_aggregation cfg of Some f \<Rightarrow> f values | None \<Rightarrow> mean),
          rr_Detectability = detectability_result values (det_alpha cfg),
          rr_CPS = (if b_concealmentLambda cfg > 0 then CPS values totalConcealment (det_alpha cfg) else 0)\<rparr>)"

definition AnalyzeRegion :: "time \<Rightarrow> string list \<Rightarrow> Snapshot \<Rightarrow> ('c, 'g) Engine \<Rightarrow> (('c, 'g) Engine \<times> (go_error + RegionResult)) option" where
  "AnalyzeRegion now nodeIDs s e = (case checkClosed s of
     Some err \<Rightarrow> Some (e, Inl err)
   | None \<Rightarrow>
       (let key = cache_key s e ''region_analysis'' (region_key nodeIDs); (e, hit) = cache_get now key e; gv = graphView s e
        in case hit of
          Some (Region_Analysis r) \<Rightarrow> Some (e, Inr r)
        | _ \<Rightarrow> do {
            (e, nodes, values, anomalyCount) \<leftarrow> ofold (region_node now gv) nodeIDs (e, [], [], 0);
            let r = region_result (en_config e) nodes values anomalyCount;
            Some (cache_set now key (Region_Analysis r) e, Inr r)
          }))"

section \<open>The whole graph\<close>

definition analyze_visit :: "time \<Rightarrow> GraphView \<Rightarrow> (string, real) gomap \<Rightarrow> (string \<times> string, real) gomap option \<Rightarrow> NodeData \<Rightarrow>
    ('c, 'g) Engine \<times> TensionResult list \<times> TensionResult list \<times> real list \<Rightarrow>
    (('c, 'g) Engine \<times> TensionResult list \<times> TensionResult list \<times> real list) option" where
  "analyze_visit now gv tensions curvatures n = (\<lambda>(e, results, anomalies, values). do {
     let cfg = en_config e;
     let t = value_or_zero tensions (n_ID n);
     let e = observe_tension now t e;
     let anomaly = isAnomaly cfg (en_calibrator e) n t;
     conc \<leftarrow> node_concealment cfg gv (n_ID n);
     let tr = tension_result (n_ID n) t (n_Degree n) (node_curvature curvatures (n_ID n)) anomaly conc;
     Some (e, results @ [tr], if anomaly then anomalies @ [tr] else anomalies, values @ [t])
   })"

definition zero_temporal :: TemporalSummary where
  "zero_temporal = \<lparr>ts_TensionSpike = 0, ts_DecayExponent = 0, ts_CurvatureShock = 0, ts_Phase = 0, ts_PhaseRho = 0,
     ts_PhasePi = 0, ts_Velocity = 0\<rparr>"

definition previous_tensions :: "('c, 'g) Engine \<Rightarrow> (string, real) gomap" where
  "previous_tensions e = fold (\<lambda>(nid, h) m. case Previous h of Some prev \<Rightarrow> AList.update nid (sm_Tension prev) m | None \<Rightarrow> m)
     (en_tensionHistory e) []"

definition set_trend :: "('c, 'g) Engine \<Rightarrow> TensionResult \<Rightarrow> TensionResult" where
  "set_trend e tr = (case previous_tension (tr_NodeID tr) e of
     None \<Rightarrow> tr
   | Some p \<Rightarrow> (let delta = tr_Tension tr - p; epsilon = 1 / 100 in
       if delta > epsilon then tr\<lparr>tr_Trend := TrendIncreasing\<rparr>
       else if delta < - epsilon then tr\<lparr>tr_Trend := TrendDecreasing\<rparr> else tr))"

definition phase_int :: "Phase \<Rightarrow> int" where
  "phase_int p = (case p of PhaseFullRecovery \<Rightarrow> 0 | PhaseScarredRecovery \<Rightarrow> 1 | PhaseChronicTension \<Rightarrow> 2 | PhaseStructuralCollapse \<Rightarrow> 3)"

definition connectivity_ratio :: "(string, real) gomap \<Rightarrow> (string, real) gomap \<Rightarrow> real" where
  "connectivity_ratio cur prev =
     (if length prev > 0
      then real_of_int (fold (\<lambda>(nid, _) survived. if map_of cur nid \<noteq> None then survived + 1 else survived) prev 0) / real (length prev)
      else 1)"

definition velocity_of :: "real \<Rightarrow> GraphView \<Rightarrow> real option" where
  "velocity_of alpha gv =
     (let nodeIDs = map n_ID (gv_nodes gv) in
      if length nodeIDs \<ge> 3
      then do {
        lambda1 \<leftarrow> FiedlerApprox gv nodeIDs;
        let (edgeSum, edgeCount) = fold (\<lambda>ed (s, cnt). (s + e_Weight ed, cnt + 1)) (gv_edges gv) (0, 0 :: int);
        let meanEdgeLen = (if edgeCount > 0 then edgeSum / real_of_int edgeCount else 1);
        Some (VelocityOfSilence alpha lambda1 meanEdgeLen)
      }
      else Some 0)"

definition temporal_analysis :: "time \<Rightarrow> GraphView \<Rightarrow> Version \<Rightarrow> real \<Rightarrow> TensionResult list \<Rightarrow> ('c, 'g) Engine \<Rightarrow>
    (TensionResult list \<times> TemporalSummary) option" where
  "temporal_analysis now gv version meanTension results e =
     (let currentTensions = fold (\<lambda>tr. AList.update (tr_NodeID tr) (tr_Tension tr)) results []; prev = previous_tensions e
      in if length prev > 0
         then do {
           let dt = (if now - v_Timestamp version \<le> 0 then 10 ^ 6 else now - v_Timestamp version);
           let indicators = Indicators now currentTensions prev dt;
           let results = map (set_trend e) results;
           let phase = ClassifyPhase indicators meanTension (mapMean prev) (connectivity_ratio currentTensions prev);
           velocity \<leftarrow> velocity_of (b_diffusivityAlpha (en_config e)) gv;
           Some (results, \<lparr>ts_TensionSpike = ti_TensionSpike indicators, ts_DecayExponent = ti_DecayExponent indicators,
             ts_CurvatureShock = ti_CurvatureShock indicators, ts_Phase = phase_int (pr_Phase phase), ts_PhaseRho = pr_Rho phase,
             ts_PhasePi = pr_Pi phase, ts_Velocity = velocity\<rparr>)
         }
         else Some (results, zero_temporal))"

definition Analyze :: "int \<Rightarrow> string list \<Rightarrow> time \<Rightarrow> Snapshot \<Rightarrow> ('c, 'g) Engine \<Rightarrow> (('c, 'g) Engine \<times> (go_error + Results)) option" where
  "Analyze numCPU stores now s e = (case checkClosed s of
     Some err \<Rightarrow> Some (e, Inl err)
   | None \<Rightarrow>
       (let key = cache_key s e ''full_analysis'' ''''; (e, hit) = cache_get now key e; gv = graphView s e
        in case hit of
          Some (Full_Analysis r) \<Rightarrow> Some (e, Inr r)
        | _ \<Rightarrow> do {
            (e, tensions) \<leftarrow> computeTensions numCPU stores gv e;
            curvatures \<leftarrow> all_curvatures (en_config e) gv;
            (e, results, anomalies, values) \<leftarrow> ofold (analyze_visit now gv tensions curvatures) (gv_nodes gv) (e, [], [], []);
            let stats = computeResultStats values (int (length anomalies));
            (results, temporal) \<leftarrow> temporal_analysis now gv (sn_current s e) (rs_MeanTension stats) results e;
            let r = \<lparr>res_Tensions = results, res_Anomalies = anomalies, res_Stats = stats, res_Temporal = temporal,
              res_SnapshotID = Snap_ID s e, res_AnalyzedAt = now, res_Duration = 0,
              res_Detectability = detectability_result values (det_alpha (en_config e))\<rparr>;
            Some (cache_set now key (Full_Analysis r) e, Inr r)
          }))"

section \<open>The engine's own analyses\<close>

text \<open>A temporary snapshot, closed on return.\<close>

definition on_snapshot :: "time \<Rightarrow> (Snapshot \<Rightarrow> ('c, 'g) Engine \<Rightarrow> (('c, 'g) Engine \<times> 'r) option) \<Rightarrow> ('c, 'g) Engine \<Rightarrow>
    (('c, 'g) Engine \<times> 'r) option" where
  "on_snapshot now f e = do {
     (e, snap) \<leftarrow> Engine_Snapshot now e;
     (e, r) \<leftarrow> f snap e;
     Some (snd (Snap_Close snap e), r)
   }"

definition Engine_Analyze :: "int \<Rightarrow> string list \<Rightarrow> time \<Rightarrow> ('c, 'g) Engine \<Rightarrow> (('c, 'g) Engine \<times> (go_error + Results)) option" where
  "Engine_Analyze numCPU stores now = on_snapshot now (Analyze numCPU stores now)"

definition Engine_AnalyzeNode :: "time \<Rightarrow> string \<Rightarrow> ('c, 'g) Engine \<Rightarrow> (('c, 'g) Engine \<times> (go_error + TensionResult)) option" where
  "Engine_AnalyzeNode now nid = on_snapshot now (AnalyzeNode now nid)"

definition Engine_AnalyzeRegion :: "time \<Rightarrow> string list \<Rightarrow> ('c, 'g) Engine \<Rightarrow> (('c, 'g) Engine \<times> (go_error + RegionResult)) option" where
  "Engine_AnalyzeRegion now nodeIDs = on_snapshot now (AnalyzeRegion now nodeIDs)"

section \<open>Analyses keep versions and snapshots\<close>

definition held :: "('c, 'g) Engine \<Rightarrow> vheap \<times> vaddr option \<times> int \<times> ('c, 'g) Builder \<times> (string, TensionHistory) gomap" where
  "held e = (en_heap e, Load (en_vc e), en_snapshotsActive e, en_config e, en_tensionHistory e)"

lemma held_cache_set [simp]: "held (cache_set now key r e) = held e"
  by (simp add: held_def cache_set_def)

lemma held_cache_get: "cache_get now key e = (e', hit) \<Longrightarrow> held e' = held e"
  by (auto simp: held_def cache_get_def split: option.splits prod.splits)

lemma held_observe [simp]: "held (observe_tension now t e) = held e"
  by (simp add: held_def observe_tension_def split: option.split)

lemma held_graphView: "held e' = held e \<Longrightarrow> graphView s e' = graphView s e"
  by (simp add: held_def graphView_def sn_current_def)

lemma computeTensions_gpu:
  assumes "computeTensions numCPU stores gv e = Some (e', m)"
  shows "\<exists>g. e' = e\<lparr>en_gpu := g\<rparr>"
proof (cases "b_gpuBackend (en_config e)")
  case None
  with assms have "e' = e\<lparr>en_gpu := en_gpu e\<rparr>" by (auto simp: computeTensions_def bind_eq_Some_conv)
  then show ?thesis by blast
next
  case (Some ops)
  with assms have "e' = e\<lparr>en_gpu := en_gpu e\<rparr> \<or> (\<exists>g. e' = e\<lparr>en_gpu := g\<rparr>)"
    by (cases "bk_AnalyzeTensions ops gv (en_gpu e)")
      (auto simp: computeTensions_def Let_def bind_eq_Some_conv split: if_splits sum.split_asm)
  then show ?thesis by blast
qed

lemma held_computeTensions: "computeTensions numCPU stores gv e = Some (e', m) \<Longrightarrow> held e' = held e"
  by (drule computeTensions_gpu) (auto simp: held_def)

lemma held_region_node: "region_node now gv nid (e, x) = Some (e', y) \<Longrightarrow> held e' = held e"
  by (auto simp: region_node_def Let_def bind_eq_Some_conv split: option.splits prod.splits)

lemma held_analyze_visit: "analyze_visit now gv m cs n (e, x) = Some (e', y) \<Longrightarrow> held e' = held e"
  by (auto simp: analyze_visit_def Let_def bind_eq_Some_conv split: option.splits prod.splits)

lemma held_loop:
  assumes "\<And>x e y e' y'. f x (e, y) = Some (e', y') \<Longrightarrow> held e' = held e"
  shows "ofold f xs (e, y) = Some (e', y') \<Longrightarrow> held e' = held e"
proof (induction xs arbitrary: e y)
  case (Cons x xs)
  then obtain e1 y1 where "f x (e, y) = Some (e1, y1)" "ofold f xs (e1, y1) = Some (e', y')" by (auto simp: bind_eq_Some_conv)
  with Cons.IH assms show ?case by metis
qed simp

lemma held_region_loop: "ofold (region_node now gv) ids (e, y) = Some (e', y') \<Longrightarrow> held e' = held e"
  by (rule held_loop) (rule held_region_node)

lemma held_analyze_loop: "ofold (analyze_visit now gv m cs) ns (e, y) = Some (e', y') \<Longrightarrow> held e' = held e"
  by (rule held_loop) (rule held_analyze_visit)

lemma held_AnalyzeNode:
  assumes "AnalyzeNode now nid s e = Some (e', r)"
  shows "held e' = held e"
proof -
  obtain e1 hit where g: "cache_get now (cache_key s e ''node_analysis'' nid) e = (e1, hit)" by fastforce
  from assms have "held e' = held e1 \<or> held e' = held e"
    by (auto simp: AnalyzeNode_def g Let_def bind_eq_Some_conv split: option.splits cached.splits)
  with held_cache_get [OF g] show ?thesis by auto
qed

lemma held_AnalyzeRegion:
  assumes "AnalyzeRegion now ids s e = Some (e', r)"
  shows "held e' = held e"
proof -
  obtain e1 hit where g: "cache_get now (cache_key s e ''region_analysis'' (region_key ids)) e = (e1, hit)" by fastforce
  from assms have "held e' = held e1 \<or> held e' = held e"
    by (auto simp: AnalyzeRegion_def g Let_def bind_eq_Some_conv split: option.splits cached.splits
        dest!: held_region_loop)
  with held_cache_get [OF g] show ?thesis by auto
qed

lemma held_Analyze:
  assumes "Analyze numCPU stores now s e = Some (e', r)"
  shows "held e' = held e"
proof -
  obtain e1 hit where g: "cache_get now (cache_key s e ''full_analysis'' '''') e = (e1, hit)" by fastforce
  from assms have "held e' = held e1 \<or> held e' = held e"
    by (auto simp: Analyze_def g Let_def bind_eq_Some_conv split: option.splits cached.splits prod.splits
        dest!: held_analyze_loop held_computeTensions)
  with held_cache_get [OF g] show ?thesis by auto
qed

lemma on_snapshot_releases:
  assumes "on_snapshot now f e = Some (e', r)" and "\<And>s e e' r. f s e = Some (e', r) \<Longrightarrow> held e' = held e"
    and refs: "\<forall>a. 0 \<le> RefCount (en_heap e) a"
  shows "en_snapshotsActive e' = en_snapshotsActive e \<and> (\<forall>a. RefCount (en_heap e') a = RefCount (en_heap e) a)"
proof -
  from assms(1) obtain e1 s e2 where s: "Engine_Snapshot now e = Some (e1, s)" "f s e1 = Some (e2, r)" "e' = snd (Snap_Close s e2)"
    by (auto simp: on_snapshot_def bind_eq_Some_conv)
  from s(1) have e1: "en_heap e1 = Acquire (sn_version s) (en_heap e)" "en_snapshotsActive e1 = en_snapshotsActive e + 1" "\<not> sn_closed s"
    by (auto simp: Engine_Snapshot_def Controller_Acquire_def Let_def split: option.splits)
  have "held e2 = held e1" using assms(2) s(2) by blast
  with e1 have "en_heap e2 = Acquire (sn_version s) (en_heap e)" "en_snapshotsActive e2 = en_snapshotsActive e + 1" by (simp_all add: held_def)
  with s(3) e1(3) spec [OF refs, of "sn_version s"] show ?thesis by (simp add: Snap_Close_def Release_def Acquire_def Let_def)
qed

lemma temporary_snapshots_released:
  assumes "\<forall>a. 0 \<le> RefCount (en_heap e) a"
  shows "Engine_Analyze numCPU stores now e = Some (e1, r1) \<Longrightarrow>
      en_snapshotsActive e1 = en_snapshotsActive e \<and> (\<forall>a. RefCount (en_heap e1) a = RefCount (en_heap e) a)"
    and "Engine_AnalyzeNode now u e = Some (e2, r2) \<Longrightarrow>
      en_snapshotsActive e2 = en_snapshotsActive e \<and> (\<forall>a. RefCount (en_heap e2) a = RefCount (en_heap e) a)"
    and "Engine_AnalyzeRegion now ids e = Some (e3, r3) \<Longrightarrow>
      en_snapshotsActive e3 = en_snapshotsActive e \<and> (\<forall>a. RefCount (en_heap e3) a = RefCount (en_heap e) a)"
  unfolding Engine_Analyze_def Engine_AnalyzeNode_def Engine_AnalyzeRegion_def
  by (erule on_snapshot_releases, erule held_Analyze held_AnalyzeNode held_AnalyzeRegion, rule assms)+

section \<open>Properties\<close>

text \<open>
  C36. A closed snapshot answers nothing and is released once. \<open>Close\<close> gives one reference of the
  version back and decrements the count of active snapshots, unless the snapshot is closed
  already, when it does nothing; afterwards every reader and every analysis returns
  \<open>ErrSnapshotClosed\<close>, calls no callback and leaves the engine as it was, while the identifier can
  still be read. The engine's own analyses release the snapshots they take: counts of references
  and of active snapshots are as before, whatever the analysis returns.
\<close>

lemma closed_snapshots:
  assumes "Snap_Close s e = (s', e')" and refs: "\<forall>a. 0 \<le> RefCount (en_heap e) a"
  shows "Snap_Close s' e2 = (s', e2) \<and> (sn_closed s \<longrightarrow> s' = s \<and> e' = e) \<and>
    (\<not> sn_closed s \<longrightarrow> en_snapshotsActive e' = en_snapshotsActive e - 1 \<and>
       RefCount (en_heap e') (sn_version s) = max 0 (RefCount (en_heap e) (sn_version s) - 1) \<and>
       (\<forall>a. a \<noteq> sn_version s \<longrightarrow> en_heap e' a = en_heap e a)) \<and>
    Snap_NodeCount s' e2 = Inl ErrSnapshotClosed \<and> Snap_EdgeCount s' e2 = Inl ErrSnapshotClosed \<and>
    Snap_GetNode u s' e2 = Inl ErrSnapshotClosed \<and> Snap_GetEdge u v s' e2 = Inl ErrSnapshotClosed \<and>
    Snap_Neighbors u s' e2 = Inl ErrSnapshotClosed \<and> Snap_InNeighbors u s' e2 = Inl ErrSnapshotClosed \<and>
    Snap_OutNeighbors u s' e2 = Inl ErrSnapshotClosed \<and> Snap_Timestamp s' e2 = Inl ErrSnapshotClosed \<and>
    Snap_ForEachNode fn s' e2 st = (st, Some ErrSnapshotClosed) \<and> Snap_ForEachEdge fe s' e2 st' = (st', Some ErrSnapshotClosed) \<and>
    Analyze numCPU stores now s' e2 = Some (e2, Inl ErrSnapshotClosed) \<and> AnalyzeNode now u s' e2 = Some (e2, Inl ErrSnapshotClosed) \<and>
    AnalyzeRegion now ids s' e2 = Some (e2, Inl ErrSnapshotClosed) \<and> Snap_ID s' e2 = Snap_ID s e2 \<and>
    (\<forall>e3 r. Engine_Analyze numCPU stores now e = Some (e3, r) \<longrightarrow>
       en_snapshotsActive e3 = en_snapshotsActive e \<and> (\<forall>a. RefCount (en_heap e3) a = RefCount (en_heap e) a)) \<and>
    (\<forall>e3 r. Engine_AnalyzeNode now u e = Some (e3, r) \<longrightarrow>
       en_snapshotsActive e3 = en_snapshotsActive e \<and> (\<forall>a. RefCount (en_heap e3) a = RefCount (en_heap e) a)) \<and>
    (\<forall>e3 r. Engine_AnalyzeRegion now ids e = Some (e3, r) \<longrightarrow>
       en_snapshotsActive e3 = en_snapshotsActive e \<and> (\<forall>a. RefCount (en_heap e3) a = RefCount (en_heap e) a))"
proof -
  have "sn_closed s'" using assms(1) by (auto simp: Snap_Close_def split: if_splits)
  then have "checkClosed s' = Some ErrSnapshotClosed" and again: "Snap_Close s' e2 = (s', e2)"
    by (simp_all add: checkClosed_def Snap_Close_def)
  note closed = this(1)
  have readers: "Snap_NodeCount s' e2 = Inl ErrSnapshotClosed" "Snap_EdgeCount s' e2 = Inl ErrSnapshotClosed"
    "Snap_GetNode u s' e2 = Inl ErrSnapshotClosed" "Snap_GetEdge u v s' e2 = Inl ErrSnapshotClosed"
    "Snap_Neighbors u s' e2 = Inl ErrSnapshotClosed" "Snap_InNeighbors u s' e2 = Inl ErrSnapshotClosed"
    "Snap_OutNeighbors u s' e2 = Inl ErrSnapshotClosed" "Snap_Timestamp s' e2 = Inl ErrSnapshotClosed"
    "Snap_ForEachNode fn s' e2 st = (st, Some ErrSnapshotClosed)" "Snap_ForEachEdge fe s' e2 st' = (st', Some ErrSnapshotClosed)"
    "Analyze numCPU stores now s' e2 = Some (e2, Inl ErrSnapshotClosed)" "AnalyzeNode now u s' e2 = Some (e2, Inl ErrSnapshotClosed)"
    "AnalyzeRegion now ids s' e2 = Some (e2, Inl ErrSnapshotClosed)"
    by (simp_all add: closed Snap_NodeCount_def Snap_EdgeCount_def Snap_GetNode_def Snap_GetEdge_def Snap_Neighbors_def Snap_InNeighbors_def
        Snap_OutNeighbors_def Snap_Timestamp_def Snap_ForEachNode_def Snap_ForEachEdge_def Analyze_def AnalyzeNode_def AnalyzeRegion_def)
  have close: "sn_closed s \<longrightarrow> s' = s \<and> e' = e" "\<not> sn_closed s \<longrightarrow> en_snapshotsActive e' = en_snapshotsActive e - 1 \<and>
       RefCount (en_heap e') (sn_version s) = max 0 (RefCount (en_heap e) (sn_version s) - 1) \<and>
       (\<forall>a. a \<noteq> sn_version s \<longrightarrow> en_heap e' a = en_heap e a)" "Snap_ID s' e2 = Snap_ID s e2"
    using assms(1) spec [OF refs, of "sn_version s"] by (auto simp: Snap_Close_def Snap_ID_def sn_current_def Release_def Let_def split: if_splits)
  show ?thesis using again readers close temporary_snapshots_released [OF refs] by blast
qed

lemma closed_snapshots_witness:
  "\<exists>(e0 :: (unit, unit) Engine) e1 s s' e2. newEngine 0 () () eager_config = Some e0 \<and> Engine_Snapshot 1 e0 = Some (e1, s) \<and>
     en_snapshotsActive e1 = 1 \<and> Snap_Close s e1 = (s', e2) \<and> en_snapshotsActive e2 = 0 \<and>
     Snap_NodeCount s' e2 = Inl ErrSnapshotClosed \<and> Snap_Close s' e2 = (s', e2)"
proof -
  obtain e0 :: "(unit, unit) Engine" where e0: "newEngine 0 () () eager_config = Some e0" using eager_engine(1) by blast
  have h: "v_refCount (en_heap e0 a) = 0" "en_snapshotsActive e0 = 0" "Load (en_vc e0) \<noteq> None" for a
    using e0 by (auto simp: newEngine_def Let_def bind_eq_Some_conv store_version_def zero_version_def Load_def Store_def)
  then obtain e1 s where s: "Engine_Snapshot 1 e0 = Some (e1, s)" "en_snapshotsActive e1 = 1" "\<not> sn_closed s"
    "en_heap e1 = Acquire (sn_version s) (en_heap e0)"
    by (auto simp: Engine_Snapshot_def Controller_Acquire_def Let_def)
  have "\<forall>a. 0 \<le> RefCount (en_heap e1) a" using h(1) by (simp add: s(4) Acquire_def) (simp add: RefCount_def)
  moreover obtain s' e2 where c: "Snap_Close s e1 = (s', e2)" by fastforce
  ultimately have refs: "\<forall>a. 0 \<le> RefCount (en_heap e1) a" by blast
  note p = closed_snapshots [OF c refs, where ?e2.0 = e2]
  have "en_snapshotsActive e2 = 0" using p [THEN conjunct2, THEN conjunct2, THEN conjunct1] s(2,3) by simp
  with e0 s(1,2) c p [THEN conjunct1] p [THEN conjunct2, THEN conjunct2, THEN conjunct2, THEN conjunct1] show ?thesis by blast
qed

end
