(* ===== verification/Analysis_Results.thy ===== *)
theory Analysis_Results
  imports Snapshot_Analysis
begin

text \<open>
  What the three analyses of a snapshot return, compared with each other: the entries of the analysis
  of the graph, of a region and of a node; the lists and statistics inside a result; and what the
  results cache answers in their place.
\<close>

section \<open>Loops that fill a map or a sum\<close>

lemma update_loop:
  assumes "ofold (\<lambda>x m. do { c \<leftarrow> K x; Some (AList.update (key x) c m) }) xs m0 = Some m"
    and "distinct (map key xs)" and "key ` set xs \<inter> fst ` set m0 = {}"
  shows "m = m0 @ map (\<lambda>x. (key x, the (K x))) xs \<and> (\<forall>x \<in> set xs. K x \<noteq> None)"
  using assms
proof (induction xs arbitrary: m0)
  case (Cons x xs)
  then obtain c where c: "K x = Some c" "ofold (\<lambda>x m. do { c \<leftarrow> K x; Some (AList.update (key x) c m) }) xs (AList.update (key x) c m0) = Some m"
    by (auto simp: bind_eq_Some_conv)
  have "AList.update (key x) c m0 = m0 @ [(key x, c)]" using Cons.prems(3) by (intro update_absent) (auto simp: map_of_eq_None_iff)
  with Cons.IH [OF c(2)] Cons.prems c(1) show ?case by auto
qed simp

lemma update_lookup:
  assumes "ofold (\<lambda>x m. do { c \<leftarrow> K (key x); Some (AList.update (key x) c m) }) xs m0 = Some m"
  shows "map_of m k = (if k \<in> key ` set xs then K k else map_of m0 k) \<and> (k \<in> key ` set xs \<longrightarrow> K k \<noteq> None)"
  using assms
proof (induction xs arbitrary: m0)
  case (Cons x xs)
  then obtain c where c: "K (key x) = Some c"
    "ofold (\<lambda>x m. do { c \<leftarrow> K (key x); Some (AList.update (key x) c m) }) xs (AList.update (key x) c m0) = Some m"
    by (auto simp: bind_eq_Some_conv)
  with Cons.IH [OF c(2)] show ?case by auto
qed simp

lemma sum_loop:
  assumes "\<forall>x \<in> set xs. K x \<noteq> None"
  shows "ofold (\<lambda>x (s, cnt). do { c \<leftarrow> K x; Some (s + c, cnt + 1) }) xs (s0, n0 :: int) =
    Some (s0 + (\<Sum>x \<leftarrow> xs. the (K x) :: real), n0 + int (length xs))"
  using assms by (induction xs arbitrary: s0 n0) auto

lemma list_all2_right: "list_all2 P xs ys \<Longrightarrow> (\<And>x y. P x y \<Longrightarrow> Q y) \<Longrightarrow> \<forall>y \<in> set ys. Q y"
  by (induction rule: list_all2_induct) auto

section \<open>Incident edges\<close>

lemma node_curvature_eq:
  "node_curvature (Some m) nid = (let inc = filter (\<lambda>((from, to), c). from = nid \<or> to = nid) m
     in if inc = [] then 0 else (\<Sum>(p, c) \<leftarrow> inc. c) / real (length inc))"
proof -
  have "fold (\<lambda>((from, to), c) (s, cnt). if from = nid \<or> to = nid then (s + c, cnt + 1) else (s, cnt)) m (s0, n0 :: int) =
      (s0 + (\<Sum>(p, c) \<leftarrow> filter (\<lambda>((from, to), c). from = nid \<or> to = nid) m. c),
       n0 + int (length (filter (\<lambda>((from, to), c). from = nid \<or> to = nid) m)))" for s0 n0
  proof (induction m arbitrary: s0 n0)
    case (Cons x m)
    obtain a b c where "x = ((a, b), c)" by (metis surj_pair)
    with Cons show ?case by (cases "a = nid \<or> b = nid") (simp_all add: algebra_simps)
  qed simp
  then show ?thesis by (auto simp: node_curvature_def Let_def)
qed

lemma edge_sum_by_ends:
  fixes C :: "string \<times> string \<Rightarrow> 'n::comm_monoid_add"
  assumes ok: "snap_ok p" and no_loop: "nid \<notin> set (gv_OutNeighbors (snap_view p) nid)"
  shows "(\<Sum>q \<leftarrow> filter (\<lambda>(from, to). from = nid \<or> to = nid) (map edge_ends (gv_edges (snap_view p))). C q) =
    (\<Sum>v \<leftarrow> gv_OutNeighbors (snap_view p) nid. C (nid, v)) + (\<Sum>u \<leftarrow> gv_InNeighbors (snap_view p) nid. C (u, nid))"
proof -
  let ?O = "gv_OutNeighbors (snap_view p) nid" and ?I = "gv_InNeighbors (snap_view p) nid"
  let ?q = "filter (\<lambda>(from, to). from = nid \<or> to = nid) (map edge_ends (gv_edges (snap_view p)))"
  have ends: "set (map edge_ends (gv_edges (snap_view p))) = {(u, v). v \<in> set (gv_OutNeighbors (snap_view p) u)}"
    using snap.visited_edges_neighbours [OF ok] by simp
  have inn: "nid \<in> set (gv_OutNeighbors (snap_view p) u) \<longleftrightarrow> u \<in> set ?I" for u
    using snap.OutNeighbors_law [OF ok] snap.InNeighbors_law [OF ok] by simp
  have "set ?q = Pair nid ` set ?O \<union> (\<lambda>u. (u, nid)) ` set ?I"
    unfolding set_filter ends using inn by auto
  moreover have "Pair nid ` set ?O \<inter> (\<lambda>u. (u, nid)) ` set ?I = {}" using no_loop by auto
  ultimately have "(\<Sum>q \<in> set ?q. C q) = (\<Sum>q \<in> Pair nid ` set ?O. C q) + (\<Sum>q \<in> (\<lambda>u. (u, nid)) ` set ?I. C q)"
    by (simp only: sum.union_disjoint [OF finite_imageI finite_imageI] finite_set)
  also have "\<dots> = (\<Sum>v \<in> set ?O. C (nid, v)) + (\<Sum>u \<in> set ?I. C (u, nid))"
    by (subst (1 2) sum.reindex) (auto simp: inj_on_def)
  finally have "(\<Sum>q \<in> set ?q. C q) = (\<Sum>v \<in> set ?O. C (nid, v)) + (\<Sum>u \<in> set ?I. C (u, nid))" .
  moreover have "distinct ?q" "distinct ?O" "distinct ?I"
    using snap.edge_ends_distinct [OF ok] snap.OutNeighbors_law [OF ok] snap.InNeighbors_law [OF ok] by simp_all
  ultimately show ?thesis by (simp only: sum_list_distinct_conv_sum_set)
qed

lemma all_curvatures_map:
  assumes "all_curvatures cfg gv = Some (Some m)" and "distinct (map edge_ends (gv_edges gv))"
  shows "m = map (\<lambda>ed. (edge_ends ed, the (edge_curvature cfg gv (e_From ed) (e_To ed)))) (gv_edges gv) \<and>
    (\<forall>ed \<in> set (gv_edges gv). edge_curvature cfg gv (e_From ed) (e_To ed) \<noteq> None) \<and> with_curvature cfg"
proof (cases "b_curvature cfg")
  case None
  with assms(1) have "Curvature_CalculateAll (NewCurvatureCalculator (b_curvatureAlpha cfg)) gv = Some m" and pos: "b_curvatureAlpha cfg > 0"
    by (auto simp: all_curvatures_def split: if_splits)
  then have "ofold (\<lambda>ed m. do { c \<leftarrow> edge_curvature cfg gv (e_From ed) (e_To ed); Some (AList.update (edge_ends ed) c m) }) (gv_edges gv) [] = Some m"
    by (simp add: Curvature_CalculateAll_def edge_curvature_def None edge_ends_def)
  from update_loop [OF this assms(2)] pos show ?thesis by (simp add: with_curvature_def)
next
  case (Some f)
  have "ofold (\<lambda>ed m. do { c \<leftarrow> edge_curvature cfg gv (e_From ed) (e_To ed); Some (AList.update (edge_ends ed) c m) }) (gv_edges gv) [] =
      Some (fold (\<lambda>ed. AList.update (edge_ends ed) (f (graphViewAdapter gv) (e_From ed) (e_To ed))) (gv_edges gv) [])"
    by (rule ofold_cong_Some) (simp add: edge_curvature_def Some)
  with assms(1) have "ofold (\<lambda>ed m. do { c \<leftarrow> edge_curvature cfg gv (e_From ed) (e_To ed); Some (AList.update (edge_ends ed) c m) }) (gv_edges gv) [] = Some m"
    by (simp add: all_curvatures_def Some edge_ends_def)
  from update_loop [OF this assms(2)] show ?thesis by (simp add: with_curvature_def Some)
qed

text \<open>Without a self-loop, the mean over the map is the mean over the neighbours.\<close>

lemma curvatures_agree:
  assumes ok: "snap_ok p" and all: "all_curvatures cfg (snap_view p) = Some cs"
  shows "\<exists>c. incident_curvature cfg (snap_view p) nid = Some c \<and>
    (nid \<notin> set (gv_OutNeighbors (snap_view p) nid) \<longrightarrow> node_curvature cs nid = c)"
proof (cases cs)
  case None
  with all have "\<not> with_curvature cfg" by (auto simp: all_curvatures_def with_curvature_def split: option.splits if_splits)
  with None show ?thesis by (simp add: incident_curvature_def node_curvature_def)
next
  case (Some m)
  let ?V = "snap_view p" and ?O = "gv_OutNeighbors (snap_view p) nid" and ?I = "gv_InNeighbors (snap_view p) nid"
  let ?K = "\<lambda>q. edge_curvature cfg ?V (fst q) (snd q)"
  from all_curvatures_map [of cfg ?V m] all Some snap.edge_ends_distinct [OF ok]
  have m: "m = map (\<lambda>ed. (edge_ends ed, the (?K (edge_ends ed)))) (gv_edges ?V)" and
    total: "\<forall>q \<in> edge_ends ` set (gv_edges ?V). ?K q \<noteq> None" and wc: "with_curvature cfg"
    by (auto simp: edge_ends_def)
  have nb: "v \<in> set ?O \<Longrightarrow> ?K (nid, v) \<noteq> None" "u \<in> set ?I \<Longrightarrow> ?K (u, nid) \<noteq> None" for u v
    using total snap.visited_edges_neighbours [OF ok] snap.OutNeighbors_law [OF ok] snap.InNeighbors_law [OF ok] by auto
  let ?c = "((\<Sum>v \<leftarrow> ?O. the (?K (nid, v))) + (\<Sum>u \<leftarrow> ?I. the (?K (u, nid)))) / real (length ?O + length ?I)"
  have inc: "incident_curvature cfg ?V nid = Some (if length ?O + length ?I > 0 then ?c else 0)"
    using nb sum_loop [of ?O "\<lambda>v. ?K (nid, v)" 0 0] sum_loop [of ?I "\<lambda>u. ?K (u, nid)"] wc by (simp add: incident_curvature_def)
  let ?q = "filter (\<lambda>(from, to). from = nid \<or> to = nid) (map edge_ends (gv_edges ?V))"
  have flt: "filter (\<lambda>((from, to), c). from = nid \<or> to = nid) m = map (\<lambda>q. (q, the (?K q))) ?q"
    unfolding m by (induction "gv_edges ?V") (auto simp: filter_map o_def edge_ends_def)
  have "node_curvature cs nid = (if length ?O + length ?I > 0 then ?c else 0)" if no_loop: "nid \<notin> set ?O"
  proof -
    have len: "length ?q = length ?O + length ?I"
      using edge_sum_by_ends [OF ok no_loop, where C = "\<lambda>_. 1 :: nat"] by (simp add: sum_list_triv)
    have "(\<Sum>q \<leftarrow> ?q. the (?K q)) = (\<Sum>v \<leftarrow> ?O. the (?K (nid, v))) + (\<Sum>u \<leftarrow> ?I. the (?K (u, nid)))"
      by (rule edge_sum_by_ends [OF ok no_loop])
    then show ?thesis
      unfolding Some node_curvature_eq Let_def flt using len by (auto simp: o_def)
  qed
  with inc show ?thesis by blast
qed

section \<open>The entries of an analysis\<close>

definition entry_of :: "('c, 'g) Engine \<Rightarrow> (string, real) gomap \<Rightarrow> (string \<times> string, real) gomap option \<Rightarrow> NodeData \<Rightarrow> real \<Rightarrow> TensionResult" where
  "entry_of e m cs n conc = (let t = value_or_zero m (n_ID n) in
     tension_result (n_ID n) t (n_Degree n) (node_curvature cs (n_ID n)) (isAnomaly (en_config e) (en_calibrator e) n t) conc)"

lemma analyze_visit_step:
  assumes "ofold (analyze_visit now gv m cs) (n # ns) (e, rs, as, vs) = Some r"
  obtains e1 conc where "e1 = observe_tension now (value_or_zero m (n_ID n)) e" and "node_concealment (en_config e) gv (n_ID n) = Some conc"
    and "ofold (analyze_visit now gv m cs) ns (e1, rs @ [entry_of e1 m cs n conc],
      if tr_Anomaly (entry_of e1 m cs n conc) then as @ [entry_of e1 m cs n conc] else as, vs @ [tr_Tension (entry_of e1 m cs n conc)]) = Some r"
proof -
  let ?e1 = "observe_tension now (value_or_zero m (n_ID n)) e"
  from assms obtain st where st: "analyze_visit now gv m cs n (e, rs, as, vs) = Some st" "ofold (analyze_visit now gv m cs) ns st = Some r"
    by (auto simp only: ofold.simps bind_eq_Some_conv)
  have "en_config ?e1 = en_config e" by (simp add: observe_tension_def split: option.split)
  with st(1) obtain conc where "node_concealment (en_config e) gv (n_ID n) = Some conc"
    "st = (?e1, rs @ [entry_of ?e1 m cs n conc],
      if tr_Anomaly (entry_of ?e1 m cs n conc) then as @ [entry_of ?e1 m cs n conc] else as, vs @ [tr_Tension (entry_of ?e1 m cs n conc)])"
    by (auto simp: analyze_visit_def entry_of_def tension_result_def Let_def bind_eq_Some_conv)
  with that st(2) show thesis by blast
qed

lemma entry_fields [simp]:
  "tr_NodeID (entry_of e m cs n conc) = n_ID n" "tr_Trend (entry_of e m cs n conc) = TrendStable"
  by (simp_all add: entry_of_def tension_result_def Let_def)

lemma analyze_visits:
  assumes "ofold (analyze_visit now gv m cs) ns (e, rs, as, vs) = Some (e', rs', as', vs')"
  shows "\<exists>new. rs' = rs @ new \<and> as' = as @ filter tr_Anomaly new \<and> vs' = vs @ map tr_Tension new \<and>
    map tr_NodeID new = map n_ID ns \<and> (\<forall>tr \<in> set new. tr_Trend tr = TrendStable)"
  using assms
proof (induction ns arbitrary: e rs as vs)
  case (Cons n ns)
  from Cons.prems obtain e1 conc where
    "ofold (analyze_visit now gv m cs) ns (e1, rs @ [entry_of e1 m cs n conc],
      if tr_Anomaly (entry_of e1 m cs n conc) then as @ [entry_of e1 m cs n conc] else as, vs @ [tr_Tension (entry_of e1 m cs n conc)]) =
      Some (e', rs', as', vs')"
    by (rule analyze_visit_step)
  from Cons.IH [OF this] show ?case by (auto split: if_splits)
qed simp

text \<open>Without a calibrator an entry is a function of the node.\<close>

lemma observe_none: "b_calibrator (en_config e) = None \<Longrightarrow> observe_tension now t e = e"
  by (simp add: observe_tension_def)

lemma analyze_entries:
  assumes "ofold (analyze_visit now gv m cs) ns (e, rs, as, vs) = Some (e', rs', as', vs')" and cal: "b_calibrator (en_config e) = None"
  shows "e' = e \<and> (\<exists>new. rs' = rs @ new \<and> list_all2 (\<lambda>n tr. \<exists>conc. node_concealment (en_config e) gv (n_ID n) = Some conc \<and>
    tr = entry_of e m cs n conc) ns new)"
  using assms(1)
proof (induction ns arbitrary: rs as vs)
  case (Cons n ns)
  from Cons.prems obtain e1 conc where e1: "e1 = observe_tension now (value_or_zero m (n_ID n)) e"
    and conc: "node_concealment (en_config e) gv (n_ID n) = Some conc"
    and rest: "ofold (analyze_visit now gv m cs) ns (e1, rs @ [entry_of e1 m cs n conc],
      if tr_Anomaly (entry_of e1 m cs n conc) then as @ [entry_of e1 m cs n conc] else as, vs @ [tr_Tension (entry_of e1 m cs n conc)]) =
      Some (e', rs', as', vs')"
    by (rule analyze_visit_step)
  have "e1 = e" using e1 observe_none [OF cal] by simp
  with Cons.IH rest conc show ?case by fastforce
qed simp

definition same_but_trend :: "TensionResult \<Rightarrow> TensionResult \<Rightarrow> bool" where
  "same_but_trend a b \<longleftrightarrow> a\<lparr>tr_Trend := TrendStable\<rparr> = b\<lparr>tr_Trend := TrendStable\<rparr>"

lemma temporal_entries:
  assumes "temporal_analysis now gv v mean rs e = Some (rs', ts)"
  shows "list_all2 same_but_trend rs' rs"
proof -
  have "rs' = rs \<or> rs' = map (set_trend e) rs"
    using assms by (auto simp: temporal_analysis_def Let_def bind_eq_Some_conv split: if_splits)
  moreover have "same_but_trend (set_trend e tr) tr" "same_but_trend tr tr" for tr
    by (simp_all add: set_trend_def same_but_trend_def Let_def split: option.split)
  ultimately show ?thesis by (auto simp: list_all2_conv_all_nth)
qed

lemma cache_untouched:
  "ofold (analyze_visit now gv m cs) ns (e, rs, as, vs) = Some (e', rs', as', vs') \<Longrightarrow> en_ResultsCache e' = en_ResultsCache e"
proof (induction ns arbitrary: e rs as vs)
  case (Cons n ns)
  have obs: "en_ResultsCache (observe_tension now t e) = en_ResultsCache e" for t by (simp add: observe_tension_def split: option.split)
  from Cons.prems show ?case by (rule analyze_visit_step) (use Cons.IH obs in auto)
qed simp

text \<open>What is left of \<open>Analyze\<close> when nothing is cached.\<close>

lemma Analyze_fresh:
  assumes "Analyze numCPU stores now s e = Some (e', Inr R)" and "en_ResultsCache e = None"
  obtains e1 tensions cs rs as vs ts where "computeTensions numCPU stores (graphView s e) e = Some (e1, tensions)"
    and "all_curvatures (en_config e) (graphView s e) = Some cs" and "en_config e1 = en_config e"
    and "ofold (analyze_visit now (graphView s e) tensions cs) (gv_nodes (graphView s e)) (e1, [], [], []) = Some (e', rs, as, vs)"
    and "list_all2 same_but_trend (res_Tensions R) rs" and "res_Anomalies R = as" and "res_Stats R = computeResultStats vs (int (length as))"
proof -
  have get: "cache_get now (cache_key s e ''full_analysis'' '''') e = (e, None)" by (simp add: cache_get_def assms(2))
  have set: "cache_set now k r e2 = e2" if "en_ResultsCache e2 = None" for k r and e2 :: "('a, 'b) Engine" using that by (simp add: cache_set_def)
  from assms(1) obtain e1 tensions cs e2 rs as vs rs' ts where
    t: "computeTensions numCPU stores (graphView s e) e = Some (e1, tensions)" and cs: "all_curvatures (en_config e1) (graphView s e) = Some cs" and
    loop: "ofold (analyze_visit now (graphView s e) tensions cs) (gv_nodes (graphView s e)) (e1, [], [], []) = Some (e2, rs, as, vs)" and
    tm: "temporal_analysis now (graphView s e) (sn_current s e2) (rs_MeanTension (computeResultStats vs (int (length as)))) rs e2 = Some (rs', ts)" and
    e': "e' = cache_set now (cache_key s e ''full_analysis'' '''') (Full_Analysis R) e2" and
    R: "res_Tensions R = rs'" "res_Anomalies R = as" "res_Stats R = computeResultStats vs (int (length as))"
    by (auto simp: Analyze_def get Let_def bind_eq_Some_conv split: option.splits)
  have "en_ResultsCache e1 = None" using computeTensions_gpu [OF t] assms(2) by auto
  moreover have "en_ResultsCache e2 = en_ResultsCache e1" by (rule cache_untouched [OF loop])
  ultimately have "e' = e2" using e' set by simp
  moreover have "en_config e1 = en_config e" using held_computeTensions [OF t] by (simp add: held_def)
  ultimately show thesis using that t cs loop temporal_entries [OF tm] R by simp
qed


section \<open>The three analyses side by side\<close>

lemma tensions_lookup:
  assumes "computeTensions numCPU stores gv e = Some (e1, m)" and "b_gpuBackend (en_config e) = None"
    and "set stores = n_ID ` set (gv_nodes gv)"
  shows "e1 = e \<and> (\<forall>n \<in> set (gv_nodes gv). Calculate (getDivergence (en_config e)) gv (n_ID n) = Some (value_or_zero m (n_ID n)))"
proof -
  let ?d = "getDivergence (en_config e)"
  from assms(1,2) have m: "CalculateAllParallel numCPU stores ?d gv = Some m" "e1 = e"
    by (auto simp: computeTensions_def bind_eq_Some_conv)
  have "map_of m k = (if k \<in> n_ID ` set (gv_nodes gv) then Calculate ?d gv k else None) \<and>
      (k \<in> n_ID ` set (gv_nodes gv) \<longrightarrow> Calculate ?d gv k \<noteq> None)" for k
  proof (cases "length (gv_nodes gv) < 100")
    case True
    with m(1) update_lookup [where K = "Calculate ?d gv" and key = n_ID and xs = "gv_nodes gv" and ?m0.0 = "[]" and m = m and k = k]
    show ?thesis by (simp add: CalculateAllParallel_def CalculateAll_def)
  next
    case False
    with m(1) update_lookup [where K = "Calculate ?d gv" and key = "\<lambda>x. x" and xs = stores and ?m0.0 = "[]" and m = m and k = k] assms(3)
    show ?thesis by (simp add: CalculateAllParallel_def Let_def)
  qed
  then have "map_of m (n_ID n) = Calculate ?d gv (n_ID n)" "Calculate ?d gv (n_ID n) \<noteq> None" if "n \<in> set (gv_nodes gv)" for n
    using that by (auto simp del: not_None_eq)
  then have "Calculate ?d gv (n_ID n) = Some (value_or_zero m (n_ID n))" if "n \<in> set (gv_nodes gv)" for n
    using that by (fastforce simp: value_or_zero_def)
  with m(2) show ?thesis by blast
qed

text \<open>An engine whose results depend on the graph only.\<close>

definition plain :: "('c, 'g) Engine \<Rightarrow> bool" where
  "plain e \<longleftrightarrow> en_ResultsCache e = None \<and> b_calibrator (en_config e) = None \<and> b_gpuBackend (en_config e) = None"

lemma cache_none: "en_ResultsCache e = None \<Longrightarrow> cache_get now k e = (e, None) \<and> cache_set now k r e = e"
  by (simp add: cache_get_def cache_set_def)

lemma AnalyzeNode_plain:
  assumes "\<not> sn_closed s" and "plain e"
  shows "AnalyzeNode now nid s e = (case gv_GetNode (graphView s e) nid of
      None \<Rightarrow> Some (e, Inl ErrNodeNotFound)
    | Some n \<Rightarrow> do {
        t \<leftarrow> Calculate (getDivergence (en_config e)) (graphView s e) nid;
        curv \<leftarrow> incident_curvature (en_config e) (graphView s e) nid;
        conc \<leftarrow> node_concealment (en_config e) (graphView s e) nid;
        Some (e, Inr (tension_result nid t (n_Degree n) curv (isAnomaly (en_config e) (en_calibrator e) n t) conc))
      })"
  using assms cache_none [of e] 
  by (simp add: AnalyzeNode_def plain_def checkClosed_def Let_def observe_none split: option.split)

lemma AnalyzeRegion_plain:
  assumes s: "\<not> sn_closed s" and plain: "plain e"
    and nodes: "\<forall>nid \<in> set ids. gv_GetNode (graphView s e) nid \<noteq> None \<longrightarrow> (\<exists>r. AnalyzeNode now nid s e = Some (e, Inr r))"
  shows "\<exists>RR. AnalyzeRegion now ids s e = Some (e, Inr RR) \<and>
    list_all2 (\<lambda>nid r. AnalyzeNode now nid s e = Some (e, Inr r)) (filter (\<lambda>nid. gv_GetNode (graphView s e) nid \<noteq> None) ids) (rr_Nodes RR)"
proof -
  have "\<exists>new vs' k'. ofold (region_node now (graphView s e)) ids (e, rs, vs, k) = Some (e, rs @ new, vs', k') \<and>
      list_all2 (\<lambda>nid r. AnalyzeNode now nid s e = Some (e, Inr r)) (filter (\<lambda>nid. gv_GetNode (graphView s e) nid \<noteq> None) ids) new" for rs vs k
    using nodes
  proof (induction ids arbitrary: rs vs k)
    case (Cons nid ids)
    show ?case
    proof (cases "gv_GetNode (graphView s e) nid")
      case None
      then have "region_node now (graphView s e) nid (e, rs, vs, k) = Some (e, rs, vs, k)" by (simp add: region_node_def)
      with Cons None show ?thesis by auto
    next
      case (Some n)
      with Cons.prems obtain r where r: "AnalyzeNode now nid s e = Some (e, Inr r)" by auto
      then obtain vs1 k1 where "region_node now (graphView s e) nid (e, rs, vs, k) = Some (e, rs @ [r], vs1, k1)"
        using plain by (auto simp: AnalyzeNode_plain [OF s plain] region_node_def Some plain_def observe_none Let_def bind_eq_Some_conv)
      moreover from Cons.IH [of "rs @ [r]" vs1 k1] Cons.prems obtain new vs' k' where
        "ofold (region_node now (graphView s e)) ids (e, rs @ [r], vs1, k1) = Some (e, (rs @ [r]) @ new, vs', k')"
        "list_all2 (\<lambda>nid r. AnalyzeNode now nid s e = Some (e, Inr r)) (filter (\<lambda>nid. gv_GetNode (graphView s e) nid \<noteq> None) ids) new" by auto
      ultimately show ?thesis using r Some by (intro exI [of _ "r # new"] exI [of _ vs'] exI [of _ k']) simp
    qed
  qed auto
  from this [of "[]" "[]" 0] obtain new vs' k' where "ofold (region_node now (graphView s e)) ids (e, [], [], 0) = Some (e, new, vs', k')"
    "list_all2 (\<lambda>nid r. AnalyzeNode now nid s e = Some (e, Inr r)) (filter (\<lambda>nid. gv_GetNode (graphView s e) nid \<noteq> None) ids) new" by auto
  then show ?thesis
    using s plain cache_none [of e] by (simp add: AnalyzeRegion_def checkClosed_def plain_def Let_def region_result_def split: prod.split)
qed

definition agrees_with_node :: "time \<Rightarrow> Snapshot \<Rightarrow> ('c, 'g) Engine \<Rightarrow> NodeData \<Rightarrow> TensionResult \<Rightarrow> bool" where
  "agrees_with_node now s e n tr \<longleftrightarrow> (\<exists>r. AnalyzeNode now (n_ID n) s e = Some (e, Inr r) \<and> tr_NodeID tr = n_ID n \<and>
     tr_Tension tr = tr_Tension r \<and> tr_Degree tr = tr_Degree r \<and> tr_Anomaly tr = tr_Anomaly r \<and>
     tr_Confidence tr = tr_Confidence r \<and> tr_Concealment tr = tr_Concealment r \<and>
     (gv_GetEdge (graphView s e) (n_ID n) (n_ID n) = None \<longrightarrow> same_but_trend tr r))"

lemma same_but_trend_fields:
  assumes "same_but_trend a b"
  shows "tr_NodeID a = tr_NodeID b" "tr_Tension a = tr_Tension b" "tr_Degree a = tr_Degree b" "tr_Anomaly a = tr_Anomaly b"
    "tr_Confidence a = tr_Confidence b" "tr_Concealment a = tr_Concealment b"
proof -
  have "f (a\<lparr>tr_Trend := TrendStable\<rparr>) = f (b\<lparr>tr_Trend := TrendStable\<rparr>)" for f :: "TensionResult \<Rightarrow> 'x"
    using assms by (simp add: same_but_trend_def)
  from this [of tr_NodeID] this [of tr_Tension] this [of tr_Degree] this [of tr_Anomaly] this [of tr_Confidence] this [of tr_Concealment]
  show "tr_NodeID a = tr_NodeID b" "tr_Tension a = tr_Tension b" "tr_Degree a = tr_Degree b" "tr_Anomaly a = tr_Anomaly b"
    "tr_Confidence a = tr_Confidence b" "tr_Concealment a = tr_Concealment b" by simp_all
qed

lemma entry_agrees:
  assumes s: "\<not> sn_closed s" and plain: "plain e" and ok: "snap_ok (s, e)" and cs: "all_curvatures (en_config e) (graphView s e) = Some cs"
    and n: "n \<in> set (gv_nodes (graphView s e))" and conc: "node_concealment (en_config e) (graphView s e) (n_ID n) = Some conc"
    and ten: "Calculate (getDivergence (en_config e)) (graphView s e) (n_ID n) = Some (value_or_zero m (n_ID n))"
    and tr: "same_but_trend tr (entry_of e m cs n conc)"
  shows "agrees_with_node now s e n tr"
proof -
  let ?gv = "graphView s e" and ?cfg = "en_config e" and ?t = "value_or_zero m (n_ID n)"
  have gv: "snap_view (s, e) = ?gv" by (simp add: snap_view_def)
  from curvatures_agree [OF ok, of ?cfg cs "n_ID n"] cs obtain c where c: "incident_curvature ?cfg ?gv (n_ID n) = Some c"
    "n_ID n \<notin> set (gv_OutNeighbors ?gv (n_ID n)) \<longrightarrow> node_curvature cs (n_ID n) = c" unfolding gv by blast
  let ?r = "tension_result (n_ID n) ?t (n_Degree n) c (isAnomaly ?cfg (en_calibrator e) n ?t) conc"
  have "gv_GetNode ?gv (n_ID n) = Some n" using snap.GetNode_iff [OF ok, of "n_ID n" n] n by (simp add: gv)
  then have r: "AnalyzeNode now (n_ID n) s e = Some (e, Inr ?r)" by (simp add: AnalyzeNode_plain [OF s plain] ten c(1) conc)
  have "same_but_trend tr ?r" if "gv_GetEdge ?gv (n_ID n) (n_ID n) = None"
    using snap.OutNeighbors_law [OF ok, of "n_ID n"] that c(2) tr by (simp add: gv entry_of_def Let_def)
  with r same_but_trend_fields [OF tr] show ?thesis
    unfolding agrees_with_node_def by (intro exI [of _ ?r]) (simp add: entry_of_def tension_result_def Let_def)
qed

section \<open>Statistics\<close>

lemma sum_squares_about_mean:
  fixes xs :: "real list"
  assumes "xs \<noteq> []" and "mean = sum_list xs / real (length xs)"
  shows "(\<Sum>x \<leftarrow> xs. (x - mean) * (x - mean)) = (\<Sum>x \<leftarrow> xs. x * x) - real (length xs) * (mean * mean)"
proof -
  have "(\<Sum>x \<leftarrow> xs. (x - m) * (x - m)) = (\<Sum>x \<leftarrow> xs. x * x) - 2 * m * sum_list xs + real (length xs) * (m * m)" for m
    by (induction xs) (simp_all add: algebra_simps)
  from this [of mean] have "(\<Sum>x \<leftarrow> xs. (x - mean) * (x - mean)) = (\<Sum>x \<leftarrow> xs. x * x) - 2 * mean * (real (length xs) * mean) + real (length xs) * (mean * mean)"
    using assms by simp
  then show ?thesis by (simp only: mult.assoc mult.commute mult.left_commute)
qed

lemma deviation_bound:
  fixes xs :: "real list"
  assumes ne: "xs \<noteq> []" and range: "\<forall>x \<in> set xs. 0 \<le> x \<and> x \<le> M" and mean: "mean = sum_list xs / real (length xs)"
  shows "sqrt ((\<Sum>x \<leftarrow> xs. (x - mean) * (x - mean)) / real (length xs)) \<le> M / 2"
proof -
  let ?n = "real (length xs)"
  have n: "0 < ?n" and M: "0 \<le> M" using ne range by (cases xs; force)+
  have "(\<Sum>x \<leftarrow> xs. x * x) \<le> (\<Sum>x \<leftarrow> xs. M * x)" using range by (intro sum_list_mono mult_right_mono) auto
  also have "\<dots> = ?n * (M * mean)" using n mean by (simp add: sum_list_const_mult)
  finally have "(\<Sum>x \<leftarrow> xs. (x - mean) * (x - mean)) \<le> ?n * (M * mean - mean * mean)"
    unfolding sum_squares_about_mean [OF ne mean] by (simp add: right_diff_distrib)
  also have "M * mean - mean * mean = (M / 2)\<^sup>2 - (M / 2 - mean)\<^sup>2" by (simp add: power2_eq_square algebra_simps)
  also have "?n * \<dots> \<le> ?n * (M / 2)\<^sup>2" using n by (intro mult_left_mono) auto
  finally have "(\<Sum>x \<leftarrow> xs. (x - mean) * (x - mean)) / ?n \<le> (M / 2)\<^sup>2" using n by (simp add: pos_divide_le_eq mult.commute)
  then show ?thesis using M real_sqrt_le_iff [of _ "(M / 2)\<^sup>2"] by (simp only: real_sqrt_abs)  simp
qed

lemma stats_bounds:
  fixes vs :: "real list" and k :: int
  assumes ne: "vs \<noteq> []" and pos: "\<forall>v \<in> set vs. 0 \<le> v"
  defines "st \<equiv> computeResultStats vs k"
  shows "rs_NodesAnalyzed st = int (length vs)" and "rs_AnomalyCount st = k" and "rs_AnomalyRate st = real_of_int k / real (length vs)"
    and "rs_MaxTension st = Max (set vs)" and "rs_MeanTension st = AggMean vs" and "rs_MedianTension st = AggMedian vs"
    and "0 \<le> rs_StdDevTension st" and "rs_StdDevTension st \<le> rs_MaxTension st / 2"
proof -
  let ?M = "Max (set vs)"
  have M: "\<forall>v \<in> set vs. 0 \<le> v \<and> v \<le> ?M" using pos by simp
  have "Max (set vs) \<in> set vs" using ne by (intro Max_in) simp_all
  with M have "0 \<le> ?M" by blast
  then have max0: "Max (insert 0 (set vs)) = ?M" using ne by simp
  have sd: "rs_StdDevTension st = sqrt ((\<Sum>x \<leftarrow> vs. (x - AggMean vs) * (x - AggMean vs)) / real (length vs))"
    using ne by (simp add: st_def computeResultStats_def Let_def loop_simps AggMean_eq)
  show "rs_NodesAnalyzed st = int (length vs)" "rs_AnomalyCount st = k" "rs_AnomalyRate st = real_of_int k / real (length vs)"
    and mx: "rs_MaxTension st = ?M" and "rs_MeanTension st = AggMean vs" "rs_MedianTension st = AggMedian vs"
    using ne max0 by (simp_all add: st_def computeResultStats_def Let_def loop_simps AggMean_eq AggMedian_def)
  show "0 \<le> rs_StdDevTension st" unfolding sd by (intro real_sqrt_ge_zero divide_nonneg_nonneg sum_list_map_nonneg) auto
  show "rs_StdDevTension st \<le> rs_MaxTension st / 2" unfolding sd mx using deviation_bound [OF ne M] AggMean_eq by blast
qed

lemma Analyze_tensions:
  assumes "Analyze numCPU stores now s e = Some (e', Inr R)" and plain: "plain e" and stores: "set stores = n_ID ` set (gv_nodes (graphView s e))"
  shows "list_all2 (\<lambda>n tr. Calculate (getDivergence (en_config e)) (graphView s e) (n_ID n) = Some (tr_Tension tr))
    (gv_nodes (graphView s e)) (res_Tensions R)"
proof -
  have none: "en_ResultsCache e = None" "b_gpuBackend (en_config e) = None" "b_calibrator (en_config e) = None" using plain by (simp_all add: plain_def)
  obtain e1 m cs rs as vs where t: "computeTensions numCPU stores (graphView s e) e = Some (e1, m)" and
    loop: "ofold (analyze_visit now (graphView s e) m cs) (gv_nodes (graphView s e)) (e1, [], [], []) = Some (e', rs, as, vs)" and
    rs: "list_all2 same_but_trend (res_Tensions R) rs" using Analyze_fresh [OF assms(1) none(1)] by metis
  note tl = tensions_lookup [OF t none(2) stores]
  from analyze_entries [OF loop] tl none(3) obtain new where "rs = new"
    "list_all2 (\<lambda>n tr. \<exists>conc. node_concealment (en_config e) (graphView s e) (n_ID n) = Some conc \<and> tr = entry_of e m cs n conc)
      (gv_nodes (graphView s e)) new" by auto
  moreover have "tr_Tension (entry_of e m cs n conc) = value_or_zero m (n_ID n)" for n conc by (simp add: entry_of_def tension_result_def Let_def)
  ultimately have "list_all2 (\<lambda>n tr. tr_Tension tr = value_or_zero m (n_ID n)) (gv_nodes (graphView s e)) rs"
    by (auto elim!: list_all2_mono)
  with rs have "list_all2 (\<lambda>n tr. tr_Tension tr = value_or_zero m (n_ID n)) (gv_nodes (graphView s e)) (res_Tensions R)"
    by (auto simp: list_all2_conv_all_nth dest!: same_but_trend_fields(2) spec)
  with conjunct2 [OF tl] show ?thesis by (simp add: list_all2_conv_all_nth)
qed

lemma Analyze_returns:
  assumes s: "\<not> sn_closed s" and plain: "plain e" and cfg: "\<not> with_curvature (en_config e)" "b_concealmentLambda (en_config e) = 0"
    and safe: "safe_divergence (en_config e)" and hist: "en_tensionHistory e = []"
  shows "\<exists>R. Analyze numCPU stores now s e = Some (e, Inr R)"
proof -
  let ?gv = "graphView s e" and ?d = "getDivergence (en_config e)"
  have none: "en_ResultsCache e = None" "b_gpuBackend (en_config e) = None" "b_calibrator (en_config e) = None" using plain by (simp_all add: plain_def)
  have "Calculate ?d ?gv v \<noteq> None" for v using safe by (intro Calculate_total) (simp add: safe_divergence_def)
  then have calc: "Calculate ?d ?gv v = Some (the (Calculate ?d ?gv v))" for v by simp
  have "CalculateAllParallel numCPU stores ?d ?gv \<noteq> None"
    unfolding CalculateAllParallel_def CalculateAll_def Let_def by (subst (1 2) calc) (simp add: ofold_cong_Some [OF refl])
  then obtain m where m: "computeTensions numCPU stores ?gv e = Some (e, m)" by (auto simp: computeTensions_def none(2))
  have cs: "all_curvatures (en_config e) ?gv = Some None" using cfg(1) by (auto simp: all_curvatures_def with_curvature_def)
  have "\<exists>rs' as' vs'. ofold (analyze_visit now ?gv m None) ns (e, rs, as, vs) = Some (e, rs', as', vs')" for ns rs as vs
  proof (induction ns arbitrary: rs as vs)
    case (Cons n ns)
    have "\<exists>rs' as' vs'. analyze_visit now ?gv m None n (e, rs, as, vs) = Some (e, rs', as', vs')"
      by (simp add: analyze_visit_def node_concealment_def cfg(2) observe_none [OF none(3)] Let_def)
    then obtain rs1 as1 vs1 where "analyze_visit now ?gv m None n (e, rs, as, vs) = Some (e, rs1, as1, vs1)" by blast
    with Cons [of rs1 as1 vs1] show ?case by simp
  qed simp
  then obtain rs as vs where loop: "ofold (analyze_visit now ?gv m None) (gv_nodes ?gv) (e, [], [], []) = Some (e, rs, as, vs)" by blast
  have "temporal_analysis now ?gv v mean rs e = Some (rs, zero_temporal)" for v mean
    by (simp add: temporal_analysis_def previous_tensions_def hist)
  then show ?thesis
    using s cache_none [OF none(1)] m cs loop by (simp add: Analyze_def checkClosed_def Let_def)
qed

lemma sample_engine_fields:
  "en_config sample_engine = eager_config" "plain sample_engine" "en_tensionHistory sample_engine = []"
  "getDivergence eager_config = JSD_Compute"
proof -
  have cfg: "b_baseGraph eager_config = None" "b_storage eager_config = None" "b_divergence eager_config = None" "b_cacheEnabled eager_config = False"
    "b_calibrator eager_config = None" "b_gpuBackend eager_config = None" by (simp_all add: eager_config_def NewBuilder_def)
  show e: "en_config sample_engine = eager_config" "en_tensionHistory sample_engine = []"
    by (simp_all add: sample_engine_def newEngine_def cfg Let_def store_version_def)
  have "en_ResultsCache sample_engine = None" by (simp add: sample_engine_def newEngine_def cfg Let_def store_version_def)
  then show "plain sample_engine" by (simp add: plain_def e cfg)
  show "getDivergence eager_config = JSD_Compute" by (simp add: getDivergence_def cfg)
qed

lemma sample_analysis:
  "\<exists>R. Analyze 1 (map n_ID (gv_nodes (unified_view sample_view))) 5 sample_snapshot sample_engine = Some (sample_engine, Inr R) \<and>
    (\<forall>tr \<in> set (res_Tensions R). 0 \<le> tr_Tension tr)"
proof -
  have "\<not> with_curvature eager_config" "b_concealmentLambda eager_config = 0"
    by (simp_all add: with_curvature_def eager_config_def NewBuilder_def)
  then have "\<exists>R. Analyze 1 (map n_ID (gv_nodes (unified_view sample_view))) 5 sample_snapshot sample_engine = Some (sample_engine, Inr R)"
    by (intro Analyze_returns) (simp_all add: sample_engine_fields sample_snapshot_view eager_engine(4) sample_snapshot_def)
  then obtain R where R: "Analyze 1 (map n_ID (gv_nodes (unified_view sample_view))) 5 sample_snapshot sample_engine = Some (sample_engine, Inr R)" ..
  from Analyze_tensions [OF R sample_engine_fields(2)] have "list_all2 (\<lambda>n tr. Calculate JSD_Compute (unified_view sample_view) (n_ID n) = Some (tr_Tension tr))
      (gv_nodes (unified_view sample_view)) (res_Tensions R)" by (simp add: sample_engine_fields sample_snapshot_view)
  then have "\<forall>tr \<in> set (res_Tensions R). \<exists>v. Calculate JSD_Compute (unified_view sample_view) v = Some (tr_Tension tr)"
    by (rule list_all2_right) blast
  then have "\<forall>tr \<in> set (res_Tensions R). 0 \<le> tr_Tension tr"
    using jsd.Calculate_nonneg [OF sample_view_nonneg] by (metis option.sel)
  with R show ?thesis by blast
qed

lemma trend_lists:
  assumes "list_all2 same_but_trend xs ys"
  shows "list_all2 same_but_trend (filter tr_Anomaly xs) (filter tr_Anomaly ys)" and "map tr_Tension xs = map tr_Tension ys"
    and "map tr_NodeID xs = map tr_NodeID ys"
  using assms by (induction rule: list_all2_induct) (auto dest: same_but_trend_fields)

section \<open>Cached answers\<close>

lemma observe_cache [simp]: "en_ResultsCache (observe_tension now t e) = en_ResultsCache e"
  by (simp add: observe_tension_def split: option.split)

lemma region_cache_untouched: "ofold (region_node now gv) ids (e, x) = Some (e', y) \<Longrightarrow> en_ResultsCache e' = en_ResultsCache e"
proof (induction ids arbitrary: e x)
  case (Cons nid ids)
  then obtain e1 x1 where "region_node now gv nid (e, x) = Some (e1, x1)" "ofold (region_node now gv) ids (e1, x1) = Some (e', y)"
    by (auto simp: bind_eq_Some_conv)
  moreover from this(1) have "en_ResultsCache e1 = en_ResultsCache e"
    by (auto simp: region_node_def Let_def bind_eq_Some_conv split: prod.splits option.splits)
  ultimately show ?case using Cons.IH by metis
qed simp

lemma Get_Set: "t \<le> now + rc_ttl c \<Longrightarrow> fst (Get t key (Set now key v c)) = Some v"
  by (simp add: Get_def Set_def)

lemma cache_get_miss:
  assumes "en_ResultsCache e = Some c" and "map_of (rc_data c) key = None"
  shows "cache_get now key e = (e\<lparr>en_ResultsCache := Some (c\<lparr>rc_misses := rc_misses c + 1\<rparr>)\<rparr>, None)"
  using assms by (simp add: cache_get_def Get_def)

lemma cache_get_stored:
  assumes "en_ResultsCache e = Some (Set now key r c)" and "t \<le> now + rc_ttl c"
  shows "\<exists>c'. cache_get t key e = (e\<lparr>en_ResultsCache := Some c'\<rparr>, Some r)"
  using Get_Set [OF assms(2), of key r] assms(1) by (auto simp: cache_get_def split: prod.split)

lemma sn_current_cache [simp]: "sn_current s (e\<lparr>en_ResultsCache := x\<rparr>) = sn_current s e"
  by (simp add: sn_current_def)

lemma AnalyzeRegion_stores:
  assumes first: "AnalyzeRegion now ids s e = Some (e1, Inr RR)" and c: "en_ResultsCache e = Some c"
    and miss: "map_of (rc_data c) (cache_key s e ''region_analysis'' (region_key ids)) = None"
  shows "en_ResultsCache e1 = Some (Set now (cache_key s e ''region_analysis'' (region_key ids)) (Region_Analysis RR) (c\<lparr>rc_misses := rc_misses c + 1\<rparr>))"
proof -
  let ?k = "cache_key s e ''region_analysis'' (region_key ids)" and ?e = "e\<lparr>en_ResultsCache := Some (c\<lparr>rc_misses := rc_misses c + 1\<rparr>)\<rparr>"
  from first obtain e2 nodes vs k where loop: "ofold (region_node now (graphView s ?e)) ids (?e, [], [], 0) = Some (e2, nodes, vs, k)"
    and e1: "e1 = cache_set now ?k (Region_Analysis RR) e2"
    by (auto simp: AnalyzeRegion_def cache_get_miss [OF c miss] Let_def bind_eq_Some_conv split: option.splits)
  show ?thesis using region_cache_untouched [OF loop] by (simp add: e1 cache_set_def)
qed

lemma AnalyzeNode_stores:
  assumes first: "AnalyzeNode now nid s e = Some (e1, Inr r)" and c: "en_ResultsCache e = Some c"
    and miss: "map_of (rc_data c) (cache_key s e ''node_analysis'' nid) = None"
  shows "en_ResultsCache e1 = Some (Set now (cache_key s e ''node_analysis'' nid) (Node_Analysis r) (c\<lparr>rc_misses := rc_misses c + 1\<rparr>))"
  using first by (auto simp: AnalyzeNode_def cache_get_miss [OF c miss] Let_def cache_set_def bind_eq_Some_conv split: option.splits)

lemma region_key_perm: "mset ids = mset ids' \<Longrightarrow> region_key ids = region_key ids'"
  by (simp add: region_key_def) (metis properties_for_sort sorted_sort mset_sort)

lemma AnalyzeRegion_returns:
  assumes s: "\<not> sn_closed s" and cfg: "\<not> with_curvature (en_config e)" "b_concealmentLambda (en_config e) = 0" "b_calibrator (en_config e) = None"
    and safe: "safe_divergence (en_config e)" and "snd (cache_get now (cache_key s e ''region_analysis'' (region_key ids)) e) = None"
    and nodes: "\<forall>nid \<in> set ids. gv_GetNode (graphView s e) nid \<noteq> None"
  shows "\<exists>e1 RR. AnalyzeRegion now ids s e = Some (e1, Inr RR) \<and> map tr_NodeID (rr_Nodes RR) = ids"
proof -
  let ?gv = "graphView s e"
  obtain e0 where g: "cache_get now (cache_key s e ''region_analysis'' (region_key ids)) e = (e0, None)" using assms(6) by (metis prod.collapse)
  note held = held_cache_get [OF g]
  have e0: "en_config e0 = en_config e" "graphView s e0 = ?gv" using held held_graphView [OF held] by (simp_all add: held_def)
  define f where "f v = the (Calculate (getDivergence (en_config e)) ?gv v)" for v
  have calc: "Calculate (getDivergence (en_config e)) ?gv v = Some (f v)" for v
    using Calculate_total [of "getDivergence (en_config e)" ?gv v] safe by (simp add: safe_divergence_def f_def)
  have "\<exists>new vs' k'. ofold (region_node now ?gv) ids (e0, rs, vs, k) = Some (e0, rs @ new, vs', k') \<and> map tr_NodeID new = ids" for rs vs k
    using nodes
  proof (induction ids arbitrary: rs vs k)
    case (Cons nid ids)
    then obtain n where n: "gv_GetNode ?gv nid = Some n" by auto
    have "\<exists>r vs1 k1. region_node now ?gv nid (e0, rs, vs, k) = Some (e0, rs @ [r], vs1, k1) \<and> tr_NodeID r = nid"
      using cfg by (subst region_node_def) (simp add: n e0 Let_def observe_none incident_curvature_def node_concealment_def calc tension_result_def)
    then obtain r vs1 k1 where "region_node now ?gv nid (e0, rs, vs, k) = Some (e0, rs @ [r], vs1, k1)" "tr_NodeID r = nid" by blast
    with Cons.IH [of "rs @ [r]" vs1 k1] Cons.prems show ?case by (auto intro: exI [of _ "r # _"])
  qed simp
  from this [of "[]" "[]" 0] obtain new vs' k' where "ofold (region_node now ?gv) ids (e0, [], [], 0) = Some (e0, new, vs', k')" "map tr_NodeID new = ids"
    by auto
  then show ?thesis using s e0(2) by (simp add: AnalyzeRegion_def checkClosed_def g Let_def region_result_def split: prod.split)
qed

section \<open>Properties\<close>

text \<open>
  C37. The three analyses agree. On an engine without cache, calibrator and GPU, let the analysis of a
  snapshot's graph return. Then \<open>AnalyzeNode\<close> of every node returns, and gives the tension, degree,
  anomaly flag, confidence and concealment of the node's entry, the entry itself up to the trend unless
  the node has an edge to itself (which \<open>AnalyzeNode\<close> counts twice in the mean curvature);
  and \<open>AnalyzeRegion\<close> returns, for any list of identifiers, the results of \<open>AnalyzeNode\<close> for those that exist,
  in the order of the list. None of them changes the engine.
\<close>

lemma analyses_agree:
  assumes all: "Analyze numCPU stores now s e = Some (e', Inr R)" and plain: "plain e" and ok: "snap_ok (s, e)"
    and stores: "set stores = n_ID ` set (gv_nodes (graphView s e))"
  shows "e' = e \<and> list_all2 (agrees_with_node now s e) (gv_nodes (graphView s e)) (res_Tensions R) \<and>
    (\<exists>RR. AnalyzeRegion now ids s e = Some (e, Inr RR) \<and> list_all2 (\<lambda>nid r. AnalyzeNode now nid s e = Some (e, Inr r))
      (filter (\<lambda>nid. gv_GetNode (graphView s e) nid \<noteq> None) ids) (rr_Nodes RR))"
proof -
  let ?gv = "graphView s e" and ?cfg = "en_config e"
  have s: "\<not> sn_closed s" using all by (auto simp: Analyze_def checkClosed_def split: if_splits)
  from Analyze_fresh [OF all] plain obtain e1 m cs rs as vs where
    t: "computeTensions numCPU stores ?gv e = Some (e1, m)" and cs: "all_curvatures ?cfg ?gv = Some cs" and
    loop: "ofold (analyze_visit now ?gv m cs) (gv_nodes ?gv) (e1, [], [], []) = Some (e', rs, as, vs)" and
    rs: "list_all2 same_but_trend (res_Tensions R) rs" unfolding plain_def by metis
  have gpu: "b_gpuBackend ?cfg = None" using plain by (simp add: plain_def)
  from tensions_lookup [OF t gpu stores] have e1: "e1 = e" and
    ten: "\<And>n. n \<in> set (gv_nodes ?gv) \<Longrightarrow> Calculate (getDivergence ?cfg) ?gv (n_ID n) = Some (value_or_zero m (n_ID n))"
    by blast+
  from analyze_entries [OF loop] plain have e': "e' = e" and
    entries: "list_all2 (\<lambda>n tr. \<exists>conc. node_concealment ?cfg ?gv (n_ID n) = Some conc \<and> tr = entry_of e m cs n conc) (gv_nodes ?gv) rs"
    by (auto simp: e1 plain_def)
  have one: "list_all2 (\<lambda>n tr. \<exists>conc. node_concealment ?cfg ?gv (n_ID n) = Some conc \<and> same_but_trend tr (entry_of e m cs n conc))
      (gv_nodes ?gv) (res_Tensions R)"
    using entries rs by (simp add: list_all2_conv_all_nth) metis
  have "agrees_with_node now s e n tr" if "n \<in> set (gv_nodes ?gv)" "node_concealment ?cfg ?gv (n_ID n) = Some conc"
    "same_but_trend tr (entry_of e m cs n conc)" for n tr conc
    using entry_agrees [OF s plain ok cs that(1,2) ten [OF that(1)] that(3)] .
  with one have agree: "list_all2 (agrees_with_node now s e) (gv_nodes ?gv) (res_Tensions R)"
    by (fastforce simp: list_all2_conv_all_nth)
  then have "\<forall>n \<in> set (gv_nodes ?gv). \<exists>r. AnalyzeNode now (n_ID n) s e = Some (e, Inr r)"
    by (fastforce simp: agrees_with_node_def list_all2_conv_all_nth in_set_conv_nth)
  then have "\<forall>nid \<in> set ids. gv_GetNode ?gv nid \<noteq> None \<longrightarrow> (\<exists>r. AnalyzeNode now nid s e = Some (e, Inr r))"
    using snap.GetNode_visited [OF ok] by (auto simp: snap_view_def simp del: not_None_eq)
  from AnalyzeRegion_plain [OF s plain this] e' agree show ?thesis by blast
qed

lemma analyses_agree_witness:
  "\<exists>R RR. Analyze 1 (map n_ID (gv_nodes (unified_view sample_view))) 5 sample_snapshot sample_engine = Some (sample_engine, Inr R) \<and>
     list_all2 (agrees_with_node 5 sample_snapshot sample_engine) (gv_nodes (unified_view sample_view)) (res_Tensions R) \<and>
     AnalyzeRegion 5 [''b'', ''zz'', ''a''] sample_snapshot sample_engine = Some (sample_engine, Inr RR) \<and>
     list_all2 (\<lambda>nid r. AnalyzeNode 5 nid sample_snapshot sample_engine = Some (sample_engine, Inr r)) [''b'', ''a''] (rr_Nodes RR)"
proof -
  let ?ids = "map n_ID (gv_nodes (unified_view sample_view))" and ?gv = "graphView sample_snapshot sample_engine"
  obtain R where R: "Analyze 1 ?ids 5 sample_snapshot sample_engine = Some (sample_engine, Inr R)" using sample_analysis by blast
  have st: "set ?ids = n_ID ` set (gv_nodes ?gv)" by (simp add: sample_snapshot_view(1))
  have "filter (\<lambda>nid. UV_GetNode nid sample_view \<noteq> None) [''b'', ''zz'', ''a''] = [''b'', ''a'']" by code_simp
  then have f: "filter (\<lambda>nid. gv_GetNode ?gv nid \<noteq> None) [''b'', ''zz'', ''a''] = [''b'', ''a'']" by (simp only: sample_snapshot_view(1) unified_view_sel)
  from analyses_agree [OF R sample_engine_fields(2) sample_snapshot_view(2) st, of "[''b'', ''zz'', ''a'']"] show ?thesis
    unfolding f using R by (simp only: sample_snapshot_view(1)) blast
qed

text \<open>
  C38. What the cache answers for an analysis. After a call that found nothing in the cache, and until the
  time to live has passed, the same query on any open snapshot of the same version - whatever its
  base - returns the stored result and shows the calibrator nothing. For regions the query is the
  sorted identifiers joined with commas: a permutation of the list gets the results in the order of
  the first call, and the region of one node called \<open>a,b\<close> gets the results of the region of \<open>a\<close> and \<open>b\<close>.
\<close>

lemma cached_analyses:
  assumes c: "en_ResultsCache e = Some c" and t: "t \<le> now + rc_ttl c"
    and s': "\<not> sn_closed s'" "v_ID (sn_current s' e1) = v_ID (sn_current s e)"
  shows "(AnalyzeRegion now ids s e = Some (e1, Inr RR) \<longrightarrow> map_of (rc_data c) (cache_key s e ''region_analysis'' (region_key ids)) = None \<longrightarrow>
      region_key ids' = region_key ids \<longrightarrow>
      (\<exists>e2. AnalyzeRegion t ids' s' e1 = Some (e2, Inr RR) \<and> en_calibrator e2 = en_calibrator e1)) \<and>
    (AnalyzeNode now nid s e = Some (e1, Inr r) \<longrightarrow> map_of (rc_data c) (cache_key s e ''node_analysis'' nid) = None \<longrightarrow>
      (\<exists>e2. AnalyzeNode t nid s' e1 = Some (e2, Inr r) \<and> en_calibrator e2 = en_calibrator e1)) \<and>
    (mset ids' = mset ids \<longrightarrow> region_key ids' = region_key ids) \<and> region_key [''a,b''] = region_key [''a'', ''b'']"
proof (intro conjI impI)
  have key: "cache_key s' e1 q a = cache_key s e q a" for q a using s'(2) by (simp add: cache_key_def)
  have s1: "checkClosed s' = None" using s'(1) by (simp add: checkClosed_def)
  let ?kr = "cache_key s e ''region_analysis'' (region_key ids)" and ?kn = "cache_key s e ''node_analysis'' nid"
  show "\<exists>e2. AnalyzeRegion t ids' s' e1 = Some (e2, Inr RR) \<and> en_calibrator e2 = en_calibrator e1"
    if first: "AnalyzeRegion now ids s e = Some (e1, Inr RR)" and miss: "map_of (rc_data c) ?kr = None" and ids: "region_key ids' = region_key ids"
  proof -
    have "\<exists>c'. cache_get t ?kr e1 = (e1\<lparr>en_ResultsCache := Some c'\<rparr>, Some (Region_Analysis RR))"
      using cache_get_stored [OF AnalyzeRegion_stores [OF first c miss], of t] t by simp
    then show ?thesis using ids by (auto simp: AnalyzeRegion_def s1 key Let_def)
  qed
  show "\<exists>e2. AnalyzeNode t nid s' e1 = Some (e2, Inr r) \<and> en_calibrator e2 = en_calibrator e1"
    if first: "AnalyzeNode now nid s e = Some (e1, Inr r)" and miss: "map_of (rc_data c) ?kn = None"
  proof -
    have "\<exists>c'. cache_get t ?kn e1 = (e1\<lparr>en_ResultsCache := Some c'\<rparr>, Some (Node_Analysis r))"
      using cache_get_stored [OF AnalyzeNode_stores [OF first c miss], of t] t by simp
    then show ?thesis by (auto simp: AnalyzeNode_def s1 key Let_def)
  qed
  show "mset ids' = mset ids \<Longrightarrow> region_key ids' = region_key ids" by (rule region_key_perm)
  show "region_key [''a,b''] = region_key [''a'', ''b'']" by code_simp
qed

lemma cached_analyses_witness:
  "\<exists>e1 RR e2. AnalyzeRegion 5 [''a'', ''b''] sample_snapshot (sample_engine\<lparr>en_ResultsCache := Some (NewResultsCache 0)\<rparr>) = Some (e1, Inr RR) \<and>
     AnalyzeRegion 6 [''a,b''] sample_snapshot e1 = Some (e2, Inr RR) \<and> length (rr_Nodes RR) = 2"
proof -
  let ?c = "NewResultsCache 0 :: cached ResultsCache" let ?e = "sample_engine\<lparr>en_ResultsCache := Some ?c\<rparr>" and ?s = sample_snapshot
  let ?k = "cache_key ?s ?e ''region_analysis'' (region_key [''a'', ''b''])"
  have cfg: "en_config ?e = eager_config" "\<not> with_curvature eager_config" "b_concealmentLambda eager_config = 0" "b_calibrator eager_config = None"
    "\<not> sn_closed ?s" by (simp_all add: sample_engine_fields sample_snapshot_view with_curvature_def eager_config_def NewBuilder_def sample_snapshot_def)
  have gv: "graphView ?s (e\<lparr>en_ResultsCache := x\<rparr>) = graphView ?s e" for x and e :: "(unit, unit) Engine" by (simp add: graphView_def)
  have miss: "map_of (rc_data ?c) ?k = None" by (simp add: NewResultsCache_def)
  have nodes: "UV_GetNode ''a'' sample_view \<noteq> None" "UV_GetNode ''b'' sample_view \<noteq> None" by code_simp+
  have "\<exists>e1 RR. AnalyzeRegion 5 [''a'', ''b''] ?s ?e = Some (e1, Inr RR) \<and> map tr_NodeID (rr_Nodes RR) = [''a'', ''b'']"
    using AnalyzeRegion_returns [OF cfg(5), where e = ?e and ids = "[''a'', ''b'']" and now = 5] cfg eager_engine(4) nodes cache_get_miss [of ?e ?c ?k 5] miss
    by (simp add: gv sample_snapshot_view(1))
  then obtain e1 RR where r: "AnalyzeRegion 5 [''a'', ''b''] ?s ?e = Some (e1, Inr RR)" "map tr_NodeID (rr_Nodes RR) = [''a'', ''b'']" by (elim exE conjE) (rule that; assumption)
  have v: "v_ID (sn_current ?s e1) = v_ID (sn_current ?s ?e)" using held_AnalyzeRegion [OF r(1)] by (simp add: held_def sn_current_def)
  have ttl: "6 \<le> (5::int) + rc_ttl ?c" by (simp add: NewResultsCache_def)
  from cached_analyses [of ?e ?c 6 5 ?s e1 ?s "[''a'', ''b'']" RR "[''a,b'']", OF _ ttl cfg(5) v] r(1) miss
  obtain e2 where "AnalyzeRegion 6 [''a,b''] ?s e1 = Some (e2, Inr RR)" by auto
  with r map_eq_imp_length_eq [of tr_NodeID "rr_Nodes RR" "\<lambda>x. x" "[''a'', ''b'']"] show ?thesis by auto
qed



end
