(* ===== verification/Export.thy ===== *)
theory Export
  imports Snapshots
begin

text \<open>
  \<open>export/export.go\<close> and \<open>Snapshot.Export\<close>: the graph as JSON structure and as DOT text. The verbs of
  \<open>fmt\<close> are modelled for what the file uses: \<open>%q\<close> on ASCII text, where the argument \<open>wide\<close> gives the
  quoted form of a text with other bytes, and \<open>%.2f\<close> rounding half to even. \<open>encoding/json\<close> is the
  argument \<open>encode\<close>. The writer is the text written, its own errors the argument \<open>write\<close>.
\<close>

section \<open>Formatting\<close>

definition hex_digit :: "nat \<Rightarrow> char" where
  "hex_digit n = (if n < 10 then char_of (48 + n) else char_of (87 + n))"

definition backslash :: char where
  "backslash = char_of (92 :: nat)"

definition quote_char :: "char \<Rightarrow> string" where
  "quote_char c = (let n = (of_char c :: nat) in
     if n = 34 \<or> n = 92 then [backslash, c]
     else if 32 \<le> n \<and> n < 127 then [c]
     else if n = 7 then backslash # ''a'' else if n = 8 then backslash # ''b'' else if n = 12 then backslash # ''f''
     else if n = 10 then backslash # ''n'' else if n = 13 then backslash # ''r'' else if n = 9 then backslash # ''t''
     else if n = 11 then backslash # ''v''
     else backslash # ''x'' @ [hex_digit (n div 16), hex_digit (n mod 16)])"

definition ascii :: "string \<Rightarrow> bool" where
  "ascii s \<longleftrightarrow> (\<forall>c \<in> set s. of_char c < (128 :: nat))"

definition quote :: "(string \<Rightarrow> string) \<Rightarrow> string \<Rightarrow> string" where
  "quote wide s = (if ascii s then char_of (34 :: nat) # concat (map quote_char s) @ [char_of (34 :: nat)] else wide s)"

definition round_even :: "real \<Rightarrow> int" where
  "round_even x = (let f = \<lfloor>x\<rfloor>; d = x - of_int f in if d > 1 / 2 \<or> d = 1 / 2 \<and> odd f then f + 1 else f)"

definition fmt_2f :: "real \<Rightarrow> string" where
  "fmt_2f w = (let n = nat (round_even (\<bar>w\<bar> * 100))
     in (if w < 0 then ''-'' else '''') @ decimal (n div 100) @ ''.'' @ [char_of (48 + n mod 100 div 10), char_of (48 + n mod 10)])"

section \<open>JSON\<close>

record jsonNode =
  jn_ID :: string
  jn_Type :: string
  jn_Degree :: int
  jn_InDegree :: int
  jn_OutDegree :: int
  jn_Attributes :: "(string, real) gomap option"

record jsonEdge =
  je_From :: string
  je_To :: string
  je_Weight :: real
  je_Type :: string
  je_Count :: int

record jsonGraph =
  jg_Nodes :: "jsonNode list"
  jg_Edges :: "jsonEdge list"

definition JSON_graph :: "GraphView \<Rightarrow> jsonGraph" where
  "JSON_graph g =
     (let nodes = fold (\<lambda>n out. out @ [\<lparr>jn_ID = n_ID n, jn_Type = n_Type n, jn_Degree = n_Degree n, jn_InDegree = n_InDegree n,
            jn_OutDegree = n_OutDegree n, jn_Attributes = n_Attributes n\<rparr>]) (gv_nodes g) [];
          edges = fold (\<lambda>e out. out @ [\<lparr>je_From = e_From e, je_To = e_To e, je_Weight = e_Weight e, je_Type = e_Type e,
            je_Count = e_Count e\<rparr>]) (gv_edges g) []
      in \<lparr>jg_Nodes = nodes, jg_Edges = edges\<rparr>)"

section \<open>DOT\<close>

definition newline :: char where
  "newline = char_of (10 :: nat)"

text \<open>The Go literal \<open>"%s\\n(%s)"\<close> holds a backslash and an \<open>n\<close>.\<close>

definition node_label :: "NodeData \<Rightarrow> string" where
  "node_label n = (if n_Type n \<noteq> '''' then n_ID n @ backslash # ''n('' @ n_Type n @ '')'' else n_ID n)"

definition edge_label :: "EdgeData \<Rightarrow> string" where
  "edge_label e = (if e_Type e \<noteq> '''' then e_Type e @ backslash # ''n'' @ fmt_2f (e_Weight e) else fmt_2f (e_Weight e))"

definition DOT :: "(string \<Rightarrow> string) \<Rightarrow> GraphView \<Rightarrow> string" where
  "DOT wide g =
     (let b = ''digraph {'' @ [newline];
          b = fold (\<lambda>n b. b @ ''  '' @ quote wide (n_ID n) @ '' [label='' @ quote wide (node_label n) @ ''];'' @ [newline]) (gv_nodes g) b;
          b = fold (\<lambda>e b. b @ ''  '' @ quote wide (e_From e) @ '' -> '' @ quote wide (e_To e) @ '' [label='' @
                quote wide (edge_label e) @ ''];'' @ [newline]) (gv_edges g) b
      in b @ ''}'' @ [newline])"

section \<open>Snapshots\<close>

datatype export_error = Snapshot_Error go_error | Write_Error string

definition Snap_Export ::
  "(string \<Rightarrow> string) \<Rightarrow> (jsonGraph \<Rightarrow> string + string) \<Rightarrow> (string \<Rightarrow> string option) \<Rightarrow> ExportFormat \<Rightarrow> Snapshot \<Rightarrow> ('c, 'g) Engine \<Rightarrow>
   string \<times> export_error option" where
  "Snap_Export wide encode write format s e = (case checkClosed s of
     Some err \<Rightarrow> ('''', Some (Snapshot_Error err))
   | None \<Rightarrow> (case format of
       ExportJSON \<Rightarrow> (case encode (JSON_graph (graphView s e)) of
         Inl err \<Rightarrow> ('''', Some (Write_Error err))
       | Inr text \<Rightarrow> (text, map_option Write_Error (write text)))
     | ExportDOT \<Rightarrow> (let text = DOT wide (graphView s e) in (text, map_option Write_Error (write text)))
     | Other_Format \<Rightarrow> ('''', Some (Snapshot_Error (ErrInvalidConfig ''unsupported export format'')))))"

section \<open>Quoting loses nothing\<close>

lemma char_eq_nat: "c = d \<longleftrightarrow> (of_char c :: nat) = of_char d"
  by simp

lemma of_char_small: "n < 256 \<Longrightarrow> (of_char (char_of (n :: nat)) :: nat) = n"
  by (simp add: of_char_of)

lemma char_of_marks [simp]: "char_of (34 :: nat) = CHR 0x22" "char_of (92 :: nat) = CHR 0x5C" "char_of (10 :: nat) = CHR 0x0A"
  by (simp_all add: char_eq_nat of_char_small del: of_char_eq_iff)

lemma hex_digit_inj: "m < 16 \<Longrightarrow> n < 16 \<Longrightarrow> hex_digit m = hex_digit n \<longleftrightarrow> m = n"
  by (auto simp: hex_digit_def char_eq_nat of_char_small simp del: of_char_eq_iff split: if_splits)

lemma backslash_neq: "c \<noteq> backslash \<longleftrightarrow> (of_char c :: nat) \<noteq> 92"
  by (simp add: backslash_def char_eq_nat of_char_small del: of_char_eq_iff)

definition quotation :: char where
  "quotation = char_of (34 :: nat)"

definition escape_tail :: "char \<Rightarrow> string" where
  "escape_tail c = (let n = (of_char c :: nat) in
     if n = 34 \<or> n = 92 then [c] else if n = 7 then ''a'' else if n = 8 then ''b'' else if n = 12 then ''f''
     else if n = 10 then ''n'' else if n = 13 then ''r'' else if n = 9 then ''t'' else if n = 11 then ''v''
     else ''x'' @ [hex_digit (n div 16), hex_digit (n mod 16)])"

definition plain :: "char \<Rightarrow> bool" where
  "plain c \<longleftrightarrow> 32 \<le> (of_char c :: nat) \<and> (of_char c :: nat) < 127 \<and> (of_char c :: nat) \<noteq> 34 \<and> (of_char c :: nat) \<noteq> 92"

lemma quote_char_eq: "quote_char c = (if plain c then [c] else backslash # escape_tail c)"
  by (auto simp: quote_char_def escape_tail_def plain_def Let_def simp del: of_char_eq_iff)

lemma plain_marks [simp]: "\<not> plain backslash" "\<not> plain quotation" "quotation \<noteq> backslash" "backslash \<noteq> quotation"
  by (auto simp: plain_def backslash_def quotation_def of_char_small)

lemma escape_tail_prefix_free:
  assumes "escape_tail c @ x = escape_tail d @ y"
  shows "c = d \<and> x = y"
proof -
  define m n where mn: "m = (of_char c :: nat)" "n = (of_char d :: nat)"
  have cd: "c = char_of m" "d = char_of n" by (simp_all add: mn)
  have "m < 256" "n < 256" by (simp_all add: mn)
  then have "m div 16 < 16" "n div 16 < 16" by simp_all
  have "m = n \<and> x = y"
  proof (cases "m = 34 \<or> m = 92 \<or> n = 34 \<or> n = 92")
    case True
    with assms show ?thesis unfolding escape_tail_def Let_def mn [symmetric]
      by (auto simp: cd split: if_splits)
  next
    case False
    with assms show ?thesis unfolding escape_tail_def Let_def mn [symmetric]
      using \<open>m div 16 < 16\<close> \<open>n div 16 < 16\<close>
      by (auto simp: hex_digit_inj split: if_splits) (metis div_mult_mod_eq)
  qed
  then show ?thesis by (simp add: cd)
qed

lemma quote_char_prefix_free: "quote_char c @ x = quote_char d @ y \<Longrightarrow> c = d \<and> x = y"
  by (auto simp: quote_char_eq dest: escape_tail_prefix_free split: if_splits)

lemma quoted_prefix_free:
  "concat (map quote_char s) @ quotation # x = concat (map quote_char t) @ quotation # y \<Longrightarrow> s = t \<and> x = y"
proof (induction s arbitrary: t)
  case Nil
  then show ?case by (cases t) (auto simp: quote_char_eq split: if_splits)
next
  case (Cons c s)
  show ?case
  proof (cases t)
    case Nil
    with Cons.prems show ?thesis by (auto simp: quote_char_eq split: if_splits)
  next
    case (Cons d t')
    with Cons.prems have "quote_char c @ (concat (map quote_char s) @ quotation # x) = quote_char d @ (concat (map quote_char t') @ quotation # y)"
      by simp
    from quote_char_prefix_free [OF this] Cons.IH [of t'] Cons show ?thesis by simp
  qed
qed

lemma quote_prefix_free: "ascii s \<Longrightarrow> ascii t \<Longrightarrow> quote wide s @ x = quote wide t @ y \<longleftrightarrow> s = t \<and> x = y"
  using quoted_prefix_free [of s x t y] by (auto simp: quote_def quotation_def)

section \<open>Numbers\<close>

lemma digit_inj: "m < 10 \<Longrightarrow> n < 10 \<Longrightarrow> char_of (48 + m :: nat) = char_of (48 + n :: nat) \<longleftrightarrow> m = n"
  by (simp add: char_eq_nat of_char_small del: of_char_eq_iff)

lemma decimal_chars: "c \<in> set (decimal n) \<Longrightarrow> 48 \<le> (of_char c :: nat) \<and> (of_char c :: nat) < 58"
proof (induction n rule: decimal.induct)
  case (1 n)
  have "n mod 10 < 10" by simp
  with 1 show ?case by (subst (asm) decimal.simps) (auto simp: of_char_small split: if_splits)
qed

lemma decimal_inj: "decimal m = decimal n \<longleftrightarrow> m = n"
proof (induction m arbitrary: n rule: decimal.induct)
  case (1 m)
  have ne: "decimal k \<noteq> []" for k by (subst decimal.simps) simp
  have "decimal m = decimal n \<longrightarrow> m = n"
  proof (cases "m < 10 \<or> n < 10")
    case True
    then show ?thesis by (subst (1 2) decimal.simps) (auto simp: digit_inj ne ne [symmetric])
  next
    case False
    then have "decimal (m div 10) = decimal (n div 10) \<and> char_of (48 + m mod 10) = (char_of (48 + n mod 10) :: char)" if "decimal m = decimal n"
      using that by (subst (asm) (1 2) decimal.simps) simp
    with False 1 [of "n div 10"] show ?thesis by (auto simp: digit_inj) (metis div_mult_mod_eq)
  qed
  then show ?case by auto
qed

lemma round_even_near: "\<bar>x - of_int (round_even x)\<bar> \<le> 1 / 2"
  unfolding round_even_def Let_def by (simp split: if_splits; linarith)

lemma round_even_nonneg: "0 \<le> x \<Longrightarrow> 0 \<le> round_even x"
  unfolding round_even_def Let_def by (simp split: if_splits)

definition two_digits :: "nat \<Rightarrow> nat \<Rightarrow> nat \<Rightarrow> string" where
  "two_digits a i j = decimal a @ ''.'' @ [char_of (48 + i), char_of (48 + j)]"

lemma two_digits_chars: "c \<in> set (two_digits a i j) \<Longrightarrow> i < 10 \<Longrightarrow> j < 10 \<Longrightarrow> 46 \<le> (of_char c :: nat) \<and> (of_char c :: nat) < 58"
  using decimal_chars [of c a] by (auto simp: two_digits_def of_char_small)

lemma two_digits_inj: "i < 10 \<Longrightarrow> j < 10 \<Longrightarrow> k < 10 \<Longrightarrow> l < 10 \<Longrightarrow> two_digits a i j = two_digits b k l \<longleftrightarrow> a = b \<and> i = k \<and> j = l"
  by (simp add: two_digits_def decimal_inj digit_inj)

lemma two_digits_minus:
  assumes "i < 10" and "j < 10"
  shows "CHR ''-'' # s \<noteq> two_digits a i j"
proof
  assume "CHR ''-'' # s = two_digits a i j"
  then have "CHR ''-'' \<in> set (two_digits a i j)" by (metis list.set_intros(1))
  from two_digits_chars [OF this assms] show False by simp
qed

lemma fmt_2f_eq: "fmt_2f w = (let n = nat (round_even (\<bar>w\<bar> * 100)) in
    (if w < 0 then ''-'' else '''') @ two_digits (n div 100) (n mod 100 div 10) (n mod 10))"
  by (simp add: fmt_2f_def two_digits_def Let_def)

lemma digit_bounds: "n mod 100 div 10 < (10 :: nat)" "n mod 10 < (10 :: nat)" "n = n div 100 * 100 + n mod 100 div 10 * 10 + n mod 10"
proof -
  show "n mod 100 div 10 < (10 :: nat)" using mod_less_divisor [of 100 n] by (simp add: less_mult_imp_div_less)
  have "n mod 100 mod 10 = n mod 10" by (simp add: mod_mod_cancel)
  then show "n = n div 100 * 100 + n mod 100 div 10 * 10 + n mod 10"
    using div_mult_mod_eq [of n 100] div_mult_mod_eq [of "n mod 100" 10] by linarith
qed simp

lemma fmt_2f_inj:
  assumes "fmt_2f v = fmt_2f w"
  shows "\<bar>v - w\<bar> \<le> 1 / 100"
proof -
  define n m where nm: "n = nat (round_even (\<bar>v\<bar> * 100))" "m = nat (round_even (\<bar>w\<bar> * 100))"
  note minus = two_digits_minus [OF digit_bounds(1,2)] two_digits_minus [OF digit_bounds(1,2), symmetric]
  note same = two_digits_inj [OF digit_bounds(1,2) digit_bounds(1,2)]
  from assms have sign: "v < 0 \<longleftrightarrow> w < 0" and "n div 100 = m div 100" "n mod 100 div 10 = m mod 100 div 10" "n mod 10 = m mod 10"
    unfolding fmt_2f_eq Let_def nm [symmetric] by (auto simp only: minus same append.simps list.inject simp_thms if_True if_False split: if_splits)
  then have "n = m" using digit_bounds(3) [of n] digit_bounds(3) [of m] by simp
  then have "round_even (\<bar>v\<bar> * 100) = round_even (\<bar>w\<bar> * 100)"
    using nm round_even_nonneg [of "\<bar>v\<bar> * 100"] round_even_nonneg [of "\<bar>w\<bar> * 100"] by linarith
  with round_even_near [of "\<bar>v\<bar> * 100"] round_even_near [of "\<bar>w\<bar> * 100"] have "\<bar>\<bar>v\<bar> - \<bar>w\<bar>\<bar> \<le> 1 / 100" by linarith
  with sign show ?thesis by linarith
qed

lemma fmt_2f_chars: "c \<in> set (fmt_2f w) \<Longrightarrow> 45 \<le> (of_char c :: nat) \<and> (of_char c :: nat) < 58"
  unfolding fmt_2f_eq Let_def
  using two_digits_chars [OF _ digit_bounds(1,2), of c "nat (round_even (\<bar>w\<bar> * 100)) div 100"] by fastforce

section \<open>Labels\<close>

lemma ascii_append [simp]: "ascii (s @ t) \<longleftrightarrow> ascii s \<and> ascii t" "ascii []"
  by (auto simp: ascii_def)

lemma ascii_Cons [simp]: "ascii (c # s) \<longleftrightarrow> of_char c < (128 :: nat) \<and> ascii s"
  by (simp add: ascii_def)

lemma backslash_ascii [simp]: "of_char backslash < (128 :: nat)"
  by (simp add: backslash_def)

lemma ascii_fmt [simp]: "ascii (fmt_2f w)" "backslash \<notin> set (fmt_2f w)"
  using fmt_2f_chars [of _ w] by (force simp: ascii_def, force simp: backslash_def)

lemma ascii_node_label [simp]: "ascii (n_ID n) \<Longrightarrow> ascii (n_Type n) \<Longrightarrow> ascii (node_label n)"
  by (simp add: node_label_def)

lemma ascii_edge_label [simp]: "ascii (e_Type e) \<Longrightarrow> ascii (edge_label e)"
  by (simp add: edge_label_def)

lemma node_label_type: "n_ID m = n_ID n \<Longrightarrow> node_label m = node_label n \<Longrightarrow> n_Type m = n_Type n"
  by (auto simp: node_label_def split: if_splits)

lemma last_mark: "x \<notin> set s \<Longrightarrow> x \<notin> set t \<Longrightarrow> p @ x # s = q @ x # t \<longleftrightarrow> p = q \<and> s = t"
  by (auto simp: append_eq_append_conv2 Cons_eq_append_conv append_eq_Cons_conv)

lemma edge_label_inj:
  assumes "edge_label d = edge_label e"
  shows "e_Type d = e_Type e" and "fmt_2f (e_Weight d) = fmt_2f (e_Weight e)"
proof -
  have "backslash \<noteq> CHR ''n''" by (simp add: backslash_def)
  then have n: "backslash \<notin> set (CHR ''n'' # fmt_2f w)" for w by simp
  have neq: "t @ backslash # CHR ''n'' # fmt_2f v \<noteq> fmt_2f w" for t v w
    using ascii_fmt(2) [of w] by (metis in_set_conv_decomp)
  from assms have "e_Type d = e_Type e \<and> fmt_2f (e_Weight d) = fmt_2f (e_Weight e)"
    using neq neq [symmetric] last_mark [OF n n] by (auto simp: edge_label_def split: if_splits)
  then show "e_Type d = e_Type e" and "fmt_2f (e_Weight d) = fmt_2f (e_Weight e)" by simp_all
qed


lemma edge_label_weight: "edge_label d = edge_label e \<Longrightarrow> \<bar>e_Weight d - e_Weight e\<bar> * 100 \<le> 1"
  using fmt_2f_inj [OF edge_label_inj(2), of d e] by simp

section \<open>The text determines the graph\<close>

datatype dot_line = is_Node_Line: Node_Line string string | Edge_Line string string string

fun dot_text :: "(string \<Rightarrow> string) \<Rightarrow> dot_line \<Rightarrow> string" where
  "dot_text wide (Node_Line u l) = ''  '' @ quote wide u @ '' [label='' @ quote wide l @ ''];'' @ [newline]"
| "dot_text wide (Edge_Line u v l) = ''  '' @ quote wide u @ '' -> '' @ quote wide v @ '' [label='' @ quote wide l @ ''];'' @ [newline]"

fun dot_ascii :: "dot_line \<Rightarrow> bool" where
  "dot_ascii (Node_Line u l) \<longleftrightarrow> ascii u \<and> ascii l"
| "dot_ascii (Edge_Line u v l) \<longleftrightarrow> ascii u \<and> ascii v \<and> ascii l"

definition dot_lines :: "GraphView \<Rightarrow> dot_line list" where
  "dot_lines g = map (\<lambda>n. Node_Line (n_ID n) (node_label n)) (gv_nodes g) @
     map (\<lambda>e. Edge_Line (e_From e) (e_To e) (edge_label e)) (gv_edges g)"

lemma dot_text_prefix_free:
  assumes "dot_ascii a" and "dot_ascii b" and "dot_text wide a @ x = dot_text wide b @ y"
  shows "a = b \<and> x = y"
  using assms by (cases a; cases b) (simp_all add: quote_prefix_free)

lemma dot_texts_inj:
  assumes "\<forall>a \<in> set as. dot_ascii a" and "\<forall>b \<in> set bs. dot_ascii b"
    and "concat (map (dot_text wide) as) @ ''}'' @ z = concat (map (dot_text wide) bs) @ ''}'' @ z"
  shows "as = bs"
  using assms
proof (induction as arbitrary: bs)
  case Nil
  have "''}'' @ z \<noteq> dot_text wide b @ y" for b y by (cases b) simp_all
  with Nil.prems(3) show ?case by (cases bs) auto
next
  case (Cons a as)
  have "dot_text wide a @ y \<noteq> ''}'' @ z" for y by (cases a) simp_all
  with Cons.prems(3) obtain b bs' where bs: "bs = b # bs'" by (cases bs) auto
  with Cons.prems have "dot_text wide a @ concat (map (dot_text wide) as) @ ''}'' @ z = dot_text wide b @ concat (map (dot_text wide) bs') @ ''}'' @ z"
    by simp
  from dot_text_prefix_free [OF _ _ this] Cons.IH [of bs'] Cons.prems(1,2) show ?case by (simp add: bs)
qed

lemma append_loop: "fold (\<lambda>x b. b @ f x) xs b = b @ concat (map f xs)"
  by (induction xs arbitrary: b) simp_all

lemma DOT_eq: "DOT wide g = ''digraph {'' @ [newline] @ concat (map (dot_text wide) (dot_lines g)) @ ''}'' @ [newline]"
  by (simp add: DOT_def dot_lines_def Let_def append_loop o_def)

definition view_ascii :: "GraphView \<Rightarrow> bool" where
  "view_ascii g \<longleftrightarrow> (\<forall>n \<in> set (gv_nodes g). ascii (n_ID n) \<and> ascii (n_Type n)) \<and>
     (\<forall>e \<in> set (gv_edges g). ascii (e_From e) \<and> ascii (e_To e) \<and> ascii (e_Type e))"

lemma lines_of:
  "filter is_Node_Line (dot_lines g) = map (\<lambda>n. Node_Line (n_ID n) (node_label n)) (gv_nodes g)"
  "filter (\<lambda>l. \<not> is_Node_Line l) (dot_lines g) = map (\<lambda>e. Edge_Line (e_From e) (e_To e) (edge_label e)) (gv_edges g)"
  by (simp_all add: dot_lines_def filter_map o_def)

lemma DOT_determines:
  assumes "view_ascii g" and "view_ascii h" and "DOT wide g = DOT wide h"
  shows "map (\<lambda>n. (n_ID n, n_Type n)) (gv_nodes g) = map (\<lambda>n. (n_ID n, n_Type n)) (gv_nodes h)"
    and "list_all2 (\<lambda>d e. edge_ends d = edge_ends e \<and> e_Type d = e_Type e \<and> \<bar>e_Weight d - e_Weight e\<bar> \<le> 1 / 100) (gv_edges g) (gv_edges h)"
proof -
  have *: "\<forall>l \<in> set (dot_lines k). dot_ascii l" if "view_ascii k" for k using that by (auto simp: dot_lines_def view_ascii_def)
  from assms(3) have "dot_lines g = dot_lines h"
    by (intro dot_texts_inj [OF * *, of g h wide "[newline]"]) (simp_all add: assms(1,2) DOT_eq)
  then have n: "map (\<lambda>n. Node_Line (n_ID n) (node_label n)) (gv_nodes g) = map (\<lambda>n. Node_Line (n_ID n) (node_label n)) (gv_nodes h)"
    and e: "map (\<lambda>e. Edge_Line (e_From e) (e_To e) (edge_label e)) (gv_edges g) =
      map (\<lambda>e. Edge_Line (e_From e) (e_To e) (edge_label e)) (gv_edges h)"
    using lines_of [of g] lines_of [of h] by simp_all
  from n show "map (\<lambda>n. (n_ID n, n_Type n)) (gv_nodes g) = map (\<lambda>n. (n_ID n, n_Type n)) (gv_nodes h)"
    by (auto simp: map_equality_iff dest: node_label_type)
  from e show "list_all2 (\<lambda>d e. edge_ends d = edge_ends e \<and> e_Type d = e_Type e \<and> \<bar>e_Weight d - e_Weight e\<bar> \<le> 1 / 100) (gv_edges g) (gv_edges h)"
    by (auto simp: map_equality_iff list_all2_conv_all_nth edge_ends_def intro: edge_label_inj edge_label_weight)
qed


definition json_node :: "NodeData \<Rightarrow> jsonNode" where
  "json_node n = \<lparr>jn_ID = n_ID n, jn_Type = n_Type n, jn_Degree = n_Degree n, jn_InDegree = n_InDegree n,
     jn_OutDegree = n_OutDegree n, jn_Attributes = n_Attributes n\<rparr>"

definition json_edge :: "EdgeData \<Rightarrow> jsonEdge" where
  "json_edge e = \<lparr>je_From = e_From e, je_To = e_To e, je_Weight = e_Weight e, je_Type = e_Type e, je_Count = e_Count e\<rparr>"

lemma JSON_nodes: "jg_Nodes (JSON_graph g) = map json_node (gv_nodes g)"
  and JSON_edges: "jg_Edges (JSON_graph g) = map json_edge (gv_edges g)"
  by (simp_all add: JSON_graph_def Let_def append_loop concat_map_singleton json_node_def [abs_def] json_edge_def [abs_def])

section \<open>Exports of a well-formed view\<close>

context graph_view
begin

lemma type_lookup:
  assumes "invar g"
  shows "map_option n_Type (gv_GetNode (view g) u) = map_of (map (\<lambda>n. (n_ID n, n_Type n)) (gv_nodes (view g))) u"
proof (cases "gv_GetNode (view g) u")
  case None
  then have "u \<notin> n_ID ` set (gv_nodes (view g))" using GetNode_visited [OF assms, of u] by simp
  then have "map_of (map (\<lambda>n. (n_ID n, n_Type n)) (gv_nodes (view g))) u = None" by (auto simp: map_of_eq_None_iff)
  with None show ?thesis by simp
next
  case (Some n)
  then have "(u, n_Type n) \<in> set (map (\<lambda>n. (n_ID n, n_Type n)) (gv_nodes (view g)))" using GetNode_iff [OF assms] by force
  with Some node_ids_distinct [OF assms] show ?thesis by (simp add: map_of_is_SomeI o_def)
qed

lemma edge_lookup:
  assumes "invar g" and "invar h" and rel: "list_all2 (\<lambda>d e. edge_ends d = edge_ends e \<and> P d e) (gv_edges (view g)) (gv_edges (view h))"
  shows "rel_option P (gv_GetEdge (view g) u v) (gv_GetEdge (view h) u v)"
proof -
  have left: "\<exists>y. gv_GetEdge (view h) u v = Some y \<and> P x y" if "gv_GetEdge (view g) u v = Some x" for x
    using that rel GetEdge_iff [OF assms(1)] GetEdge_iff [OF assms(2)]
    by (auto simp: list_all2_conv_all_nth in_set_conv_nth)
  have right: "gv_GetEdge (view g) u v \<noteq> None" if "gv_GetEdge (view h) u v = Some y" for y
    using that rel GetEdge_iff [OF assms(1)] GetEdge_iff [OF assms(2)]
    by (auto simp: list_all2_conv_all_nth in_set_conv_nth)
  from left right show ?thesis by (cases "gv_GetEdge (view g) u v"; cases "gv_GetEdge (view h) u v") fastforce+
qed

lemma JSON_lists_nodes:
  assumes "invar g"
  shows "distinct (map jn_ID (jg_Nodes (JSON_graph (view g))))"
    and "jn \<in> set (jg_Nodes (JSON_graph (view g))) \<longleftrightarrow>
      (\<exists>n. gv_GetNode (view g) (jn_ID jn) = Some n \<and> jn = json_node n)"
  using node_ids_distinct [OF assms] by (auto simp: JSON_nodes json_node_def GetNode_iff [OF assms] o_def)

lemma JSON_lists_edges:
  assumes "invar g"
  shows "distinct (map (\<lambda>d. (je_From d, je_To d)) (jg_Edges (JSON_graph (view g))))"
    and "je \<in> set (jg_Edges (JSON_graph (view g))) \<longleftrightarrow>
      (\<exists>d. gv_GetEdge (view g) (je_From je) (je_To je) = Some d \<and> je = json_edge d)"
  using edge_ends_distinct [OF assms] by (auto simp: JSON_edges json_edge_def GetEdge_iff [OF assms] o_def edge_ends_def [abs_def])

end

section \<open>Property\<close>





end
