(* ===== verification/Spec2Isabelle.thy ===== *)
theory Spec2Isabelle
  imports Compaction Mvcc_GC Results_Cache Tension_History Temporal Tension Detectability Calibrator Concealment
    Curvature Fiedler_Approx Laplacian Gpu_Backend Engine_Race Engine_State Analysis_Results Export
begin

text \<open>
  \<^bold>\<open>A verification development for the Go package \<open>itt\<close>.\<close>

  The program keeps a directed weighted graph of events between named nodes and scores how surprising
  each node is. A client configures an engine with the builder and adds events. One worker goroutine takes them
  from a channel and applies each to an immutable overlay graph, which it publishes as a new numbered
  version (copy on write, one writer, many readers). Now and then the overlay is compacted into a
  base graph and an empty overlay is published. A snapshot holds a version and the base of that moment
  and is read through a unified view of the two. Its analyses compute for each node the tension - the
  mean divergence of its neighbours' outgoing weights when the node is removed - and curvature, concealment
  cost, detectability and temporal indicators from it, with a results cache, an optional calibrator
  for the anomaly threshold and an optional GPU backend. A collector drops the versions nobody holds.

  \<^bold>\<open>The theories and what they model.\<close> Definitions carry the names of the code; where a name
  clashes, the type is put in front (\<open>IG_\<close> immutable graph, \<open>UV_\<close> unified view, \<open>B_\<close> builder, \<open>Snap_\<close>, \<open>Engine_\<close>),
  and so is the abbreviated record name for fields (\<open>e_Weight\<close>, \<open>n_ID\<close>, \<open>en_base\<close>).

  \<^item> \<open>Prelude\<close>: Go maps, loops, panics, time. \<open>Types\<close>, \<open>Public_Data\<close>: \<open>errors.go\<close>, \<open>types.go\<close>,
    \<open>aggregation.go\<close>, the structs of \<open>callbacks.go\<close>, and the storage format (\<open>graphToData\<close>, \<open>graphFromData\<close> of \<open>engine.go\<close>).
  \<^item> \<open>Graph_Store\<close>, \<open>Graph_Immutable\<close>, \<open>Graph_View\<close>: \<open>graph/graph.go\<close>, \<open>graph/immutable.go\<close>,
    \<open>graph/view.go\<close>; \<open>Event_Log\<close> says what a graph built by \<open>WithEvent\<close> sums up. \<open>Compaction\<close>: \<open>compact/compact.go\<close>.
  \<^item> \<open>Mvcc\<close>, \<open>Mvcc_GC\<close>: \<open>mvcc/version.go\<close> with its lock-free reference count as a step relation, \<open>mvcc/gc.go\<close>.
    \<open>Results_Cache\<close>: \<open>cache/results_cache.go\<close>.
  \<^item> \<open>Divergence\<close>, \<open>Tension\<close>, \<open>Detectability\<close>, \<open>Calibrator\<close>, \<open>Concealment\<close>, \<open>Curvature\<close> over \<open>Sinkhorn\<close> and \<open>Hops\<close>,
    \<open>Laplacian\<close> and \<open>Fiedler_Approx\<close>, \<open>Tension_History\<close> and \<open>Temporal\<close>: the files of \<open>analysis/\<close>; \<open>Insertion_Sort\<close>
    is the sort they and the serialization share.
  \<^item> \<open>Gpu_Serialize\<close>, \<open>Gpu_Kernel\<close>, \<open>Gpu_Backend\<close>: the files of \<open>gpu/\<close>.
  \<^item> \<open>Builder_Config\<close>: \<open>builder.go\<close>, \<open>itt.go\<close>. \<open>Engine\<close>: \<open>engine.go\<close>, each operation as it runs alone, with
    \<open>doCompact\<close> in the two halves its lock separates and the \<open>select\<close> of \<open>AddEvent\<close> as a relation.
    \<open>Engine_Log\<close>, \<open>Engine_State\<close>: invariants of sequences of operations. \<open>Engine_Lifecycle\<close>: the goroutines -
    callers, worker, \<open>Start\<close>, \<open>Stop\<close>, cancellation - as a step relation. \<open>Engine_Race\<close>: the worker against a concurrent compaction.
  \<^item> \<open>Snapshots\<close>, \<open>Snapshot_Analysis\<close>, \<open>Analysis_Results\<close>: \<open>snapshot.go\<close>. \<open>Export\<close>: \<open>export/export.go\<close> and \<open>Snapshot.Export\<close>.

  \<^bold>\<open>Interfaces.\<close> The locales are the contracts between components, each interpreted on the code's
  model: \<open>graph_view\<close> (immutable graph, unified view, snapshot), \<open>divergence\<close> and \<open>bounded_divergence\<close> (JSD, KL,
  Hellinger), \<open>pointwise_divergence\<close> (the two kernels), \<open>calibrator\<close> (MAD), \<open>result_cache\<close>, \<open>bounded_log\<close> (ring buffer).
  Lemmas on the analysis are proved once for every provider.

  \<^bold>\<open>What the lemmas show.\<close>

  \<^item> Graphs: every graph the operations build is well formed, its degree counters count neighbours and the
    hand-shake sums hold; the copy-on-write graph sums up its events; the unified view is one graph; compaction
    keeps it, and what it does to counters; graphs survive storage.
  \<^item> Versions: reference counts in every interleaving; the sweep removes exactly the orphans; the cache answers what
    the history of calls determines.
  \<^item> Analysis: ranges, signs and attained bounds of divergences, tensions, curvatures, scores and statistics;
    independence of the order and of the scheduling of workers; the breadth-first searches end with shortest
    walks; the kernels equal the calculator and fall short of it only at their caps.
  \<^item> Engine: through every sequence of operations the layers sum up the log of events; the state keeps its shape; in every
    interleaving the accepted events are those processed and those in the channel; a stop drains it; the outcomes
    of each interleaving with a compaction.
  \<^item> Snapshots: isolation, closing, agreement of the three analyses with each other and with the cache, statistics,
    exports that lose nothing.

  Theorems about errors of the code say what it does, not what it should do: a NUL byte in an identifier
  merges edges, compaction and storage inflate degree counters, a compaction next to the worker may count
  events twice or lose them, region queries share cache entries, \<open>Stats\<close> counts the nodes of both layers twice, anomalies carry a stale trend,
  the serialization cache is keyed by counts.

  \<^bold>\<open>Conventions, bounds and fuel.\<close> \<open>None\<close> is a panic or a loop that does not end, \<open>Inl\<close> an error the code returns.
  \<open>float64\<close> and \<open>float32\<close> are \<open>real\<close>, so results are exact and NaN is absent; infinities are constructors of
  \<open>xreal\<close>. \<open>int\<close> is unbounded, version numbers and \<open>uint64\<close> are \<open>64 word\<close>. The time a call reads is an argument. The range order of a map is the order
  of its list, so a theorem covers every order. No fuel is used: the queue searches are \<open>partial_function (option)\<close>, with theorems that they return on every
  well-formed view, the others are structural or have a measure. The random start vector of \<open>FiedlerValue\<close>
  and the number of CPUs are arguments.

  \<^bold>\<open>Not modelled.\<close> The logger, a sink nothing reads. The WebGPU library behind \<open>gpu_dispatch.go\<close>, the encoder of
  \<open>encoding/json\<close>, quoted text that is not ASCII, storage, user functions and callbacks: they are parameters,
  with hypotheses where a theorem needs one (a user's divergence returns on lists of equal length). A callback that calls the engine
  again, a builder changed after \<open>Build\<close>, panics of user functions outside \<open>safeCallback\<close>, rounding, the times at which tickers
  fire (a tick is a step that may happen at any time), memory ordering below the atomic operations, and mutexes, whose
  critical sections are single steps. Examples, benchmarks and documents hold no logic of the library.

  \<^bold>\<open>Plan.\<close> Left to do: two concurrent first calls of \<open>Start\<close>; a reader's cache entries between the halves of a compaction;
  the closing of snapshots among the actions of a run.
\<close>

end
